(* ===== verification/Android_Prelude.thy ===== *)
theory Android_Prelude
  imports Main "HOL-Library.Word"
begin

text \<open>
  Shared vocabulary of the development: C integer conversions, faults, the result type of code
  that can fault, little-endian encoding of struct fields, and the POSIX services the sources call
  (positioned reads and writes, truncation, read-only mappings, allocation).

  Integers. An expression of C type \<open>unsigned int\<close>, \<open>int\<close> or \<open>int64_t\<close> is an \<open>int\<close> of HOL;
  every conversion or arithmetic result that can leave the range of its C type is wrapped
  explicitly with \<open>u32\<close>, \<open>i32\<close>, \<open>u64\<close> or \<open>i64\<close>.

  Faults. Undefined or aborting behaviour (a failed \<open>assert\<close>, a dereference of freed memory, a
  division by zero, a shift by the width of its operand or more, an access outside a buffer or mapping) is a value of type \<open>fault\<close>; a
  function that can meet one returns \<open>'a res\<close>, with \<open>Inl\<close> for the fault. Error returns of the
  code (\<open>-EINVAL\<close>, \<open>-1\<close>, \<open>NULL\<close>) are ordinary results.
\<close>

section \<open>C integers\<close>

named_theorems cint \<open>conversions that are the identity in range\<close>

definition u32 :: "int \<Rightarrow> int" where
  "u32 x = x mod 4294967296"

definition i32 :: "int \<Rightarrow> int" where
  "i32 x = (x + 2147483648) mod 4294967296 - 2147483648"

definition u16 :: "int \<Rightarrow> int" where
  "u16 x = x mod 65536"

definition u64 :: "int \<Rightarrow> int" where
  "u64 x = x mod 18446744073709551616"

definition i64 :: "int \<Rightarrow> int" where
  "i64 x = (x + 9223372036854775808) mod 18446744073709551616 - 9223372036854775808"

lemma u32_id [cint]: "0 \<le> x \<Longrightarrow> x < 4294967296 \<Longrightarrow> u32 x = x"
  by (simp add: u32_def)

lemma i32_id [cint]: "- 2147483648 \<le> x \<Longrightarrow> x < 2147483648 \<Longrightarrow> i32 x = x"
  by (simp add: i32_def)

lemma u64_id [cint]: "0 \<le> x \<Longrightarrow> x < 18446744073709551616 \<Longrightarrow> u64 x = x"
  by (simp add: u64_def)

lemma i64_id [cint]:
  "- 9223372036854775808 \<le> x \<Longrightarrow> x < 9223372036854775808 \<Longrightarrow> i64 x = x"
  by (simp add: i64_def)

lemma u32_range: "0 \<le> u32 x" "u32 x < 4294967296"
  by (simp_all add: u32_def)

lemma u32_u32 [simp]: "u32 (u32 x) = u32 x"
  by (simp add: u32_def)

lemma i32_range: "- 2147483648 \<le> i32 x" "i32 x < 2147483648"
  by (simp_all add: i32_def)

text \<open>\<open>DIV_ROUND_UP\<close>, \<open>ALIGN\<close> and \<open>ALIGN_DOWN\<close> of the sources, on \<open>unsigned int\<close> operands.\<close>

definition div_round_up_u32 :: "int \<Rightarrow> int \<Rightarrow> int" where
  "div_round_up_u32 x y = u32 (u32 (x + y) - 1) div y"

definition align_u32 :: "int \<Rightarrow> int \<Rightarrow> int" where
  "align_u32 x y = u32 (y * div_round_up_u32 x y)"

definition align_down_u32 :: "int \<Rightarrow> int \<Rightarrow> int" where
  "align_down_u32 x y = u32 (y * (x div y))"

text \<open>The mathematical round-up the macros compute when nothing wraps.\<close>

definition ceil_div :: "int \<Rightarrow> int \<Rightarrow> int" where
  "ceil_div x y = (x + y - 1) div y"

lemma ceil_div_bounds:
  assumes "0 < y"
  shows "x \<le> ceil_div x y * y" and "ceil_div x y * y < x + y"
proof -
  have "(x + y - 1) = ceil_div x y * y + (x + y - 1) mod y"
    unfolding ceil_div_def by (metis div_mult_mod_eq)
  moreover have "0 \<le> (x + y - 1) mod y" "(x + y - 1) mod y < y"
    using assms by simp_all
  ultimately show "x \<le> ceil_div x y * y" and "ceil_div x y * y < x + y"
    by linarith+
qed

lemma ceil_div_nonneg: "0 < y \<Longrightarrow> 0 \<le> x \<Longrightarrow> 0 \<le> ceil_div x y"
  by (simp add: ceil_div_def pos_imp_zdiv_nonneg_iff)

lemma ceil_div_pos: "0 < y \<Longrightarrow> 0 < x \<Longrightarrow> 0 < ceil_div x y"
  by (simp add: ceil_div_def pos_imp_zdiv_pos_iff)

lemma ceil_div_le_iff:
  assumes y: "0 < y"
  shows "ceil_div x y \<le> n \<longleftrightarrow> x \<le> n * y"
proof
  assume "ceil_div x y \<le> n"
  then have "ceil_div x y * y \<le> n * y" using y by simp
  then show "x \<le> n * y" using ceil_div_bounds(1) [OF y, of x] by linarith
next
  assume "x \<le> n * y"
  then have "ceil_div x y * y < (n + 1) * y"
    using ceil_div_bounds(2) [OF y, of x] by (simp add: algebra_simps)
  then show "ceil_div x y \<le> n" using y by (simp only: mult_less_cancel_right) auto
qed

lemma ceil_div_mult [simp]:
  assumes y: "0 < y"
  shows "ceil_div (n * y) y = n" "ceil_div (y * n) y = n"
proof -
  have "n * y \<le> ceil_div (n * y) y * y" "ceil_div (n * y) y * y < (n + 1) * y"
    using ceil_div_bounds [OF y, of "n * y"] by (auto simp: algebra_simps)
  then have "n \<le> ceil_div (n * y) y" "ceil_div (n * y) y < n + 1"
    using y by (simp_all only: mult_le_cancel_right mult_less_cancel_right)
  then show "ceil_div (n * y) y = n" by linarith
  then show "ceil_div (y * n) y = n" by (simp add: mult.commute)
qed

lemma ceil_div_dvd: "0 < y \<Longrightarrow> y dvd x \<Longrightarrow> ceil_div x y = x div y"
  by (auto simp: dvd_def)

lemma div_round_up_u32_eq:
  "0 < y \<Longrightarrow> 0 \<le> x \<Longrightarrow> x + y \<le> 4294967296 \<Longrightarrow> div_round_up_u32 x y = ceil_div x y"
proof -
  assume a: "0 < y" "0 \<le> x" "x + y \<le> 4294967296"
  have "u32 (u32 (x + y) - 1) = x + y - 1"
  proof (cases "x + y = 4294967296")
    case True
    then show ?thesis by (simp add: u32_def)
  next
    case False
    with a show ?thesis by (simp add: u32_def)
  qed
  then show ?thesis by (simp add: div_round_up_u32_def ceil_div_def)
qed

lemma align_u32_eq:
  assumes "0 < y" "0 \<le> x" "x + y \<le> 4294967296"
  shows "align_u32 x y = ceil_div x y * y"
proof -
  have "ceil_div x y * y < 4294967296" "0 \<le> ceil_div x y * y"
    using ceil_div_bounds [OF assms(1), of x] ceil_div_nonneg [OF assms(1,2)] assms by auto
  then show ?thesis
    unfolding align_u32_def using assms
    by (simp add: div_round_up_u32_eq u32_id mult.commute)
qed

lemma align_down_u32_eq:
  assumes "0 < y" "0 \<le> x" "x < 4294967296"
  shows "align_down_u32 x y = x - x mod y"
proof -
  have "y * (x div y) = x - x mod y"
    by (simp add: minus_mod_eq_mult_div)
  moreover have "0 \<le> x - x mod y" "x - x mod y \<le> x"
    using assms by (simp_all add: zmod_le_nonneg_dividend)
  ultimately have "0 \<le> y * (x div y)" "y * (x div y) < 4294967296"
    using assms by linarith+
  then show ?thesis
    using \<open>y * (x div y) = x - x mod y\<close> by (simp add: align_down_u32_def u32_id del: minus_mod_eq_mult_div)
qed

text \<open>Division of signed operands, which C truncates towards zero.\<close>

definition c_div :: "int \<Rightarrow> int \<Rightarrow> int" where
  "c_div x y = sgn x * sgn y * (\<bar>x\<bar> div \<bar>y\<bar>)"

lemma c_div_nonneg: "0 \<le> x \<Longrightarrow> 0 < y \<Longrightarrow> c_div x y = x div y"
  by (cases "x = 0") (simp_all add: c_div_def)

section \<open>Faults and results\<close>

datatype fault =
    Assert_failed
  | Use_after_free
  | Null_deref
  | Div_by_zero
  | Out_of_bounds
  | Bus_error
  | Bad_pointer
  | Bad_shift
  | Diverges

type_synonym 'a res = "fault + 'a"

definition rbind :: "'a res \<Rightarrow> ('a \<Rightarrow> 'b res) \<Rightarrow> 'b res" where
  "rbind m f = (case m of Inl e \<Rightarrow> Inl e | Inr x \<Rightarrow> f x)"

lemma rbind_simps [simp]: "rbind (Inl e) f = Inl e" "rbind (Inr x) f = f x"
  by (simp_all add: rbind_def)

lemma rbind_eq_Inr: "rbind m f = Inr y \<longleftrightarrow> (\<exists>x. m = Inr x \<and> f x = Inr y)"
  by (cases m) auto

lemma rbindE [elim!]:
  assumes "rbind m f = Inr y"
  obtains x where "m = Inr x" "f x = Inr y"
  using assms by (auto simp: rbind_eq_Inr)

text \<open>\<open>errno\<close> values the sources name.\<close>

definition EINVAL :: int where "EINVAL = 22"
definition ENOMEM :: int where "ENOMEM = 12"

lemma errno_pos [simp]: "0 < EINVAL" "0 < ENOMEM" "EINVAL \<noteq> 0" "ENOMEM \<noteq> 0"
  by (simp_all add: EINVAL_def ENOMEM_def)

end
