(* ===== verification/Platform.thy ===== *)
theory Platform
  imports Android_Prelude
begin

text \<open>
  Bytes, little-endian struct fields and the operating-system services the sources call.

  A file open for reading is an \<open>infile\<close>: its contents, the file position, and a schedule that
  decides how the coming \<open>read\<close> calls behave. The schedule makes short reads and failing reads
  explicit: each event bounds one transfer or makes it fail with an \<open>errno\<close>. With the schedule
  exhausted, a \<open>read\<close> transfers all it can. A file open for writing is an \<open>outfile\<close> with the same
  kind of schedule for \<open>write\<close>.

  The functions \<open>read_all\<close> (core/libsparse/output_file.c) and the platform calls are the only ones
  that look at a schedule: the lemmas \<open>read_all_ok\<close> and \<open>read_all_eof\<close> show that the code above them
  does not depend on how a read was split.
\<close>

section \<open>Bytes and little-endian fields\<close>

type_synonym byte = "8 word"

fun le_bytes :: "nat \<Rightarrow> int \<Rightarrow> byte list" where
  "le_bytes 0 x = []"
| "le_bytes (Suc n) x = word_of_int x # le_bytes n (x div 256)"

fun le_val :: "byte list \<Rightarrow> int" where
  "le_val [] = 0"
| "le_val (b # bs) = uint b + 256 * le_val bs"

lemma length_le_bytes [simp]: "length (le_bytes n x) = n"
  by (induction n arbitrary: x) auto

lemma le_val_le_bytes: "le_val (le_bytes n x) = x mod 256 ^ n"
proof (induction n arbitrary: x)
  case 0
  then show ?case by simp
next
  case (Suc n)
  have "x mod 256 + 256 * (x div 256 mod 256 ^ n) = x mod (256 * 256 ^ n)"
    by (simp add: zmod_zmult2_eq)
  with Suc.IH [of "x div 256"] show ?case
    by (simp add: uint_word_of_int)
qed

lemma le_val_range: "0 \<le> le_val bs \<and> le_val bs < 256 ^ length bs"
proof (induction bs)
  case Nil
  then show ?case by simp
next
  case (Cons b bs)
  have "uint b < 256" using uint_lt2p [of b] by simp
  moreover have "0 \<le> uint b" by simp
  ultimately show ?case using Cons by simp
qed

lemma le_bytes_le_val: "le_bytes (length bs) (le_val bs) = bs"
proof (induction bs)
  case Nil
  then show ?case by simp
next
  case (Cons b bs)
  have b: "0 \<le> uint b" "uint b < 256" using uint_lt2p [of b] by simp_all
  then have "(uint b + 256 * le_val bs) div 256 = le_val bs" by simp
  moreover have "(word_of_int (uint b + 256 * le_val bs) :: byte) = b"
  proof -
    have "(256 :: byte) = 0" by (simp add: word_uint_eq_iff)
    then show ?thesis by (simp only: of_int_add of_int_mult of_int_numeral word_of_int_uint) simp
  qed
  ultimately show ?case using Cons by simp
qed

text \<open>A run of \<open>n\<close> bytes that repeats the four bytes of a 32-bit value.\<close>

definition fill_bytes :: "nat \<Rightarrow> int \<Rightarrow> byte list" where
  "fill_bytes n v = take n (concat (replicate (n div 4 + 1) (le_bytes 4 v)))"

section \<open>Sequences of bytes in a file\<close>

definition bslice :: "nat \<Rightarrow> nat \<Rightarrow> 'a list \<Rightarrow> 'a list" where
  "bslice p n xs = take n (drop p xs)"

lemma length_bslice [simp]: "length (bslice p n xs) = min n (length xs - p)"
  by (simp add: bslice_def)

lemma bslice_eq_Nil [simp]: "bslice p n xs = [] \<longleftrightarrow> n = 0 \<or> length xs \<le> p"
  by (auto simp: bslice_def)

lemma bslice_0 [simp]: "bslice p 0 xs = []"
  by (simp add: bslice_def)

lemma bslice_append: "bslice p m xs @ bslice (p + m) n xs = bslice p (m + n) xs"
  by (simp add: bslice_def take_add add.commute)

lemma bslice_mid: "length xs = p \<Longrightarrow> length ys = n \<Longrightarrow> bslice p n (xs @ ys @ zs) = ys"
  by (simp add: bslice_def)

lemma bslice_bslice: "m + n \<le> k \<Longrightarrow> bslice m n (bslice p k xs) = bslice (p + m) n xs"
  by (simp add: bslice_def drop_take min_def add.commute)

text \<open>Writing a run of bytes at a position; a gap before it reads as zeros.\<close>

definition file_put :: "byte list \<Rightarrow> nat \<Rightarrow> byte list \<Rightarrow> byte list" where
  "file_put d p bs =
     (if bs = [] then d
      else take p (d @ replicate (p - length d) 0) @ bs @ drop (p + length bs) d)"

definition file_trunc :: "byte list \<Rightarrow> nat \<Rightarrow> byte list" where
  "file_trunc d n = take n d @ replicate (n - length d) 0"

lemma length_file_put [simp]:
  "length (file_put d p bs) = (if bs = [] then length d else max (length d) (p + length bs))"
  by (auto simp: file_put_def)

lemma file_put_end: "file_put d (length d) bs = d @ bs"
  by (simp add: file_put_def)

lemma length_file_trunc [simp]: "length (file_trunc d n) = n"
  by (simp add: file_trunc_def)

lemma file_trunc_put:
  "length d \<le> p \<Longrightarrow> file_trunc (file_put d p bs) (p + length bs) = file_trunc d p @ bs"
  by (simp add: file_put_def file_trunc_def)

lemma file_trunc_grow:
  "length d \<le> p \<Longrightarrow> file_trunc d (p + n) = file_trunc d p @ replicate n 0"
  by (simp add: file_trunc_def replicate_add [symmetric])

section \<open>POSIX input\<close>

datatype read_ev = Rd_max nat | Rd_err int

record infile =
  f_data :: "byte list"
  f_pos :: int
  f_sched :: "read_ev list"

text \<open>A single \<open>read\<close> moves at most \<open>0x7ffff000\<close> bytes, so its result fits an \<open>int\<close>.\<close>

definition max_rw_count :: nat where
  "max_rw_count = 2147479552"

definition read_deliver :: "infile \<Rightarrow> nat \<Rightarrow> byte list \<times> infile" where
  "read_deliver f n =
     (let bs = bslice (nat (f_pos f)) (min n max_rw_count) (f_data f)
      in (bs, f\<lparr>f_pos := f_pos f + int (length bs)\<rparr>))"

definition posix_read :: "infile \<Rightarrow> nat \<Rightarrow> (int + byte list) \<times> infile" where
  "posix_read f n =
     (case f_sched f of
        [] \<Rightarrow> (case read_deliver f n of (bs, f') \<Rightarrow> (Inr bs, f'))
      | Rd_err e # s \<Rightarrow> (Inl e, f\<lparr>f_sched := s\<rparr>)
      | Rd_max k # s \<Rightarrow>
          (case read_deliver (f\<lparr>f_sched := s\<rparr>) (min n (Suc k)) of (bs, f') \<Rightarrow> (Inr bs, f')))"

text \<open>\<open>lseek64\<close> relative to the position, the start or the end; a negative target is \<open>EINVAL\<close>.\<close>

definition lseek_to :: "infile \<Rightarrow> int \<Rightarrow> int \<times> infile" where
  "lseek_to f p = (if p < 0 then (-1, f) else (p, f\<lparr>f_pos := p\<rparr>))"

definition lseek_cur :: "infile \<Rightarrow> int \<Rightarrow> int \<times> infile" where
  "lseek_cur f off = lseek_to f (i64 (f_pos f + off))"

definition lseek_set :: "infile \<Rightarrow> int \<Rightarrow> int \<times> infile" where
  "lseek_set f off = lseek_to f off"

definition lseek_end :: "infile \<Rightarrow> int \<Rightarrow> int \<times> infile" where
  "lseek_end f off = lseek_to f (i64 (int (length (f_data f)) + off))"

text \<open>The loop of \<open>read_all\<close>: it repeats \<open>read\<close> until the request is complete.\<close>

function read_all :: "infile \<Rightarrow> nat \<Rightarrow> int \<times> byte list \<times> infile" where
  "read_all f len =
     (if len = 0 then (0, [], f)
      else (case posix_read f len of
              (Inl e, f') \<Rightarrow> (- e, [], f')
            | (Inr bs, f') \<Rightarrow>
                (if bs = [] then (- EINVAL, [], f')
                 else (case read_all f' (len - length bs) of
                         (ret, bs', f'') \<Rightarrow> (ret, bs @ bs', f'')))))"
  by pat_completeness auto
termination
  by (relation "measure (\<lambda>(f, len). len)") auto

declare read_all.simps [simp del]

text \<open>
  \<open>reading f p d\<close>: the file holds \<open>d\<close>, stands at position \<open>p\<close>, and no coming \<open>read\<close> fails
  (it may be as short as it likes).
\<close>

definition reading :: "infile \<Rightarrow> nat \<Rightarrow> byte list \<Rightarrow> bool" where
  "reading f p d \<longleftrightarrow>
     f_data f = d \<and> f_pos f = int p \<and> (\<forall>ev \<in> set (f_sched f). \<exists>k. ev = Rd_max k)"

lemma posix_read_reading:
  assumes "reading f p d" and "0 < n"
  obtains m f' where "posix_read f n = (Inr (bslice p m d), f')" "reading f' (p + length (bslice p m d)) d"
    "0 < m" "m \<le> n"
proof (cases "f_sched f")
  case Nil
  with assms show ?thesis
    by (intro that [of "min n max_rw_count"])
      (auto simp: posix_read_def read_deliver_def reading_def max_rw_count_def Let_def)
next
  case (Cons ev s)
  with assms obtain k where "ev = Rd_max k" by (auto simp: reading_def)
  with Cons assms show ?thesis
    by (intro that [of "min (min n (Suc k)) max_rw_count"])
      (auto simp: posix_read_def read_deliver_def reading_def max_rw_count_def Let_def)
qed

lemma read_all_ok:
  assumes "reading f p d" and "p + n \<le> length d"
  shows "\<exists>f'. read_all f n = (0, bslice p n d, f') \<and> reading f' (p + n) d"
  using assms
proof (induction n arbitrary: f p rule: less_induct)
  case (less n)
  show ?case
  proof (cases "n = 0")
    case True
    with less.prems show ?thesis by (simp add: read_all.simps)
  next
    case False
    then obtain m f' where m: "posix_read f n = (Inr (bslice p m d), f')"
      "reading f' (p + length (bslice p m d)) d" "0 < m" "m \<le> n"
      using posix_read_reading [OF less.prems(1)] by (metis neq0_conv)
    from less.prems(2) m(4) have len: "length (bslice p m d) = m" by simp
    from less.IH [of "n - m" f' "p + m"] m len less.prems(2) obtain f'' where
      "read_all f' (n - m) = (0, bslice (p + m) (n - m) d, f'')" "reading f'' (p + n) d"
      by auto
    moreover have "bslice p m d \<noteq> []" using len m(3) by auto
    ultimately show ?thesis
      using m len False bslice_append [of p m d "n - m"]
      by (subst read_all.simps) auto
  qed
qed

lemma read_all_eof:
  assumes "reading f p d" and "length d < p + n" and "0 < n"
  shows "\<exists>bs f'. read_all f n = (- EINVAL, bs, f')"
  using assms
proof (induction n arbitrary: f p rule: less_induct)
  case (less n)
  then obtain m f' where m: "posix_read f n = (Inr (bslice p m d), f')"
    "reading f' (p + length (bslice p m d)) d" "0 < m" "m \<le> n"
    using posix_read_reading [OF less.prems(1)] by metis
  show ?case
  proof (cases "bslice p m d = []")
    case True
    with m less.prems show ?thesis by (subst read_all.simps) auto
  next
    case False
    define k where "k = length (bslice p m d)"
    have k: "0 < k" "k \<le> n" "k = min m (length d - p)"
      using False m(4) by (auto simp: k_def)
    have "k < n" "length d < p + k + (n - k)"
      using k False less.prems(2) m(4) by auto
    then obtain bs f'' where "read_all f' (n - k) = (- EINVAL, bs, f'')"
      using less.IH [of "n - k" f' "p + k"] m(2) k by (auto simp: k_def)
    with False m less.prems(3) show ?thesis
      by (subst read_all.simps) (auto simp: k_def)
  qed
qed

section \<open>POSIX output\<close>

datatype write_ev = Wr_max nat | Wr_err int

record outfile =
  o_data :: "byte list"
  o_pos :: int
  o_sched :: "write_ev list"

definition write_deliver :: "outfile \<Rightarrow> byte list \<Rightarrow> nat \<times> outfile" where
  "write_deliver f bs =
     (length bs, f\<lparr>o_data := file_put (o_data f) (nat (o_pos f)) bs, o_pos := o_pos f + int (length bs)\<rparr>)"

definition posix_write :: "outfile \<Rightarrow> byte list \<Rightarrow> (int + nat) \<times> outfile" where
  "posix_write f bs =
     (case o_sched f of
        [] \<Rightarrow> (case write_deliver f (take max_rw_count bs) of (n, f') \<Rightarrow> (Inr n, f'))
      | Wr_err e # s \<Rightarrow> (Inl e, f\<lparr>o_sched := s\<rparr>)
      | Wr_max k # s \<Rightarrow>
          (case write_deliver (f\<lparr>o_sched := s\<rparr>) (take (min k max_rw_count) bs) of
             (n, f') \<Rightarrow> (Inr n, f')))"

definition out_lseek_to :: "outfile \<Rightarrow> int \<Rightarrow> int \<times> outfile" where
  "out_lseek_to f p = (if p < 0 then (-1, f) else (p, f\<lparr>o_pos := p\<rparr>))"

definition posix_ftruncate :: "outfile \<Rightarrow> int \<Rightarrow> int \<times> outfile" where
  "posix_ftruncate f n =
     (if n < 0 then (- EINVAL, f) else (0, f\<lparr>o_data := file_trunc (o_data f) (nat n)\<rparr>))"

section \<open>Mappings, files by name, allocation\<close>

text \<open>
  \<open>env_fd\<close> gives the contents a read-only shared mapping of a descriptor shows, or the \<open>errno\<close> with
  which mapping it fails; \<open>env_open\<close> the descriptor that opening a path for reading gives.
\<close>

record env =
  env_fd :: "int \<Rightarrow> int + byte list"
  env_open :: "string \<Rightarrow> int + int"

text \<open>
  Bytes \<open>off .. off + len\<close> of a mapping: the tail of the last page reads as zeros, a page wholly
  behind the end of the file raises \<open>SIGBUS\<close>.
\<close>

definition page_size :: nat where "page_size = 4096"

definition mapped_bytes :: "byte list \<Rightarrow> nat \<Rightarrow> nat \<Rightarrow> byte list res" where
  "mapped_bytes d off len =
     (let pages = (length d + page_size - 1) div page_size
      in if 0 < len \<and> pages * page_size < off + len then Inl Bus_error
         else Inr (bslice off len (d @ replicate (pages * page_size - length d) 0)))"

lemma mapped_bytes_in: "off + len \<le> length d \<Longrightarrow> mapped_bytes d off len = Inr (bslice off len d)"
proof -
  assume a: "off + len \<le> length d"
  have "length d \<le> (length d + page_size - 1) div page_size * page_size"
    unfolding page_size_def by simp
  with a show ?thesis
    by (auto simp: mapped_bytes_def bslice_def Let_def)
qed

text \<open>The allocator: every successful allocation returns an address never handed out before.\<close>

record mem =
  mem_next :: nat
  mem_fail :: "nat \<Rightarrow> bool"

definition malloc :: "'a mem_scheme \<Rightarrow> nat option \<times> 'a mem_scheme" where
  "malloc m =
     (if mem_fail m (mem_next m) then None else Some (mem_next m), m\<lparr>mem_next := Suc (mem_next m)\<rparr>)"

end
