(* ===== verification/Backed_Block.thy ===== *)
theory Backed_Block
  imports Platform
begin

text \<open>
  The list of backed blocks of core/libsparse/backed_block.c: which blocks of a sparse image have
  data, and where that data is (memory, a file by name, an open descriptor, a fill value).

  A \<open>struct backed_block\<close> is a record that keeps its address, so that the pointers the code stores
  (\<open>last_used\<close>) and passes around (\<open>start\<close>, \<open>end\<close>, \<open>bb\<close>) are addresses and the list's \<open>next\<close> links
  are the order of the HOL list. A block that \<open>merge_bb\<close> frees leaves the list; following a pointer to
  it is the fault \<open>Use_after_free\<close>. The \<open>data\<close> pointer of a memory block is the bytes from it on.

  \<open>bbl_view\<close> is the abstract meaning of a list: for every byte offset of the image, where its byte
  comes from, if from anywhere. \<open>bbl_wf\<close> is the invariant (blocks ascending and disjoint, addresses
  distinct, no wrap-around); the operations are proved to keep it and are specified by their effect on
  the view.
\<close>

section \<open>The data structure\<close>

datatype backed_block_type =
    BACKED_BLOCK_DATA
  | BACKED_BLOCK_FILE
  | BACKED_BLOCK_FD
  | BACKED_BLOCK_FILL

text \<open>
  The union: a memory block (bytes from its pointer on); a file (the \<open>strdup\<close>ed name with its address,
  or \<open>None\<close> for \<open>NULL\<close>, and the offset); a descriptor and offset; a fill value.
\<close>

datatype bb_payload =
    BB_Data "byte list"
  | BB_File "(nat \<times> string) option" int
  | BB_Fd int int
  | BB_Fill int

record backed_block =
  bb_addr :: nat
  bb_block :: int
  bb_len :: int
  bb_payload :: bb_payload

record backed_block_list =
  data_blocks :: "backed_block list"
  last_used :: "nat option"
  bbl_block_size :: int

definition backed_block_iter_new :: "backed_block_list \<Rightarrow> backed_block list" where
  "backed_block_iter_new bbl = data_blocks bbl"

definition backed_block_len :: "backed_block \<Rightarrow> int" where
  "backed_block_len bb = bb_len bb"

definition backed_block_block :: "backed_block \<Rightarrow> int" where
  "backed_block_block bb = bb_block bb"

fun payload_type :: "bb_payload \<Rightarrow> backed_block_type" where
  "payload_type (BB_Data _) = BACKED_BLOCK_DATA"
| "payload_type (BB_File _ _) = BACKED_BLOCK_FILE"
| "payload_type (BB_Fd _ _) = BACKED_BLOCK_FD"
| "payload_type (BB_Fill _) = BACKED_BLOCK_FILL"

definition bb_type :: "backed_block \<Rightarrow> backed_block_type" where
  "bb_type bb = payload_type (bb_payload bb)"

definition backed_block_data :: "backed_block \<Rightarrow> byte list res" where
  "backed_block_data bb = (case bb_payload bb of BB_Data d \<Rightarrow> Inr d | _ \<Rightarrow> Inl Assert_failed)"

definition backed_block_filename :: "backed_block \<Rightarrow> (nat \<times> string) option res" where
  "backed_block_filename bb = (case bb_payload bb of BB_File f _ \<Rightarrow> Inr f | _ \<Rightarrow> Inl Assert_failed)"

definition backed_block_fd :: "backed_block \<Rightarrow> int res" where
  "backed_block_fd bb = (case bb_payload bb of BB_Fd fd _ \<Rightarrow> Inr fd | _ \<Rightarrow> Inl Assert_failed)"

definition backed_block_file_offset :: "backed_block \<Rightarrow> int res" where
  "backed_block_file_offset bb =
     (case bb_payload bb of
        BB_File _ off \<Rightarrow> Inr off
      | BB_Fd _ off \<Rightarrow> Inr off
      | _ \<Rightarrow> Inl Assert_failed)"

definition backed_block_fill_val :: "backed_block \<Rightarrow> int res" where
  "backed_block_fill_val bb = (case bb_payload bb of BB_Fill v \<Rightarrow> Inr v | _ \<Rightarrow> Inl Assert_failed)"

section \<open>Creating, destroying, moving\<close>

text \<open>The addresses passed to \<open>free\<close>, in order; \<open>free(NULL)\<close> does nothing.\<close>

definition backed_block_destroy :: "backed_block \<Rightarrow> nat list" where
  "backed_block_destroy bb =
     (case bb_payload bb of BB_File (Some (a, _)) _ \<Rightarrow> [a] | _ \<Rightarrow> []) @ [bb_addr bb]"

text \<open>The result of \<open>calloc\<close> is dereferenced without a check.\<close>

definition backed_block_list_new :: "mem \<Rightarrow> int \<Rightarrow> backed_block_list res \<times> mem" where
  "backed_block_list_new m block_size =
     (case malloc m of
        (None, m') \<Rightarrow> (Inl Null_deref, m')
      | (Some _, m') \<Rightarrow>
          (Inr \<lparr>data_blocks = [], last_used = None, bbl_block_size = block_size\<rparr>, m'))"

definition backed_block_list_destroy :: "backed_block_list \<Rightarrow> nat list" where
  "backed_block_list_destroy bbl = concat (map backed_block_destroy (data_blocks bbl))"

text \<open>
  \<open>cut_segment start end xs\<close> takes the run from the block at \<open>start\<close> to the block at \<open>end\<close> (or to the
  last block, for \<open>NULL\<close>) out of the list.
\<close>

definition cut_segment ::
    "nat \<Rightarrow> nat option \<Rightarrow> backed_block list \<Rightarrow> (backed_block list \<times> backed_block list) res" where
  "cut_segment start endp xs =
     (let before = takeWhile (\<lambda>b. bb_addr b \<noteq> start) xs;
          from = dropWhile (\<lambda>b. bb_addr b \<noteq> start) xs
      in if from = [] then Inl Bad_pointer
         else (case endp of
                 None \<Rightarrow> Inr (from, before)
               | Some e \<Rightarrow>
                   (let inner = takeWhile (\<lambda>b. bb_addr b \<noteq> e) from;
                        rest = dropWhile (\<lambda>b. bb_addr b \<noteq> e) from
                    in (case rest of
                          [] \<Rightarrow> Inl Bad_pointer
                        | eb # after \<Rightarrow> Inr (inner @ [eb], before @ after)))))"

text \<open>
  The insertion loop: the run goes behind the first block that is the last one or whose successor has
  a higher block number. It never goes in front of the first block.
\<close>

fun splice_after :: "backed_block list \<Rightarrow> int \<Rightarrow> backed_block list \<Rightarrow> backed_block list" where
  "splice_after seg n [] = seg"
| "splice_after seg n [b] = b # seg"
| "splice_after seg n (b # c # rest) =
     (if n < bb_block c then b # seg @ c # rest else b # splice_after seg n (c # rest))"

definition backed_block_list_move ::
    "backed_block_list \<Rightarrow> backed_block_list \<Rightarrow> nat option \<Rightarrow> nat option
     \<Rightarrow> (backed_block_list \<times> backed_block_list) res" where
  "backed_block_list_move from to start endp =
     (case (case start of
              Some p \<Rightarrow> Some p
            | None \<Rightarrow> (case data_blocks from of [] \<Rightarrow> None | b # _ \<Rightarrow> Some (bb_addr b))) of
        None \<Rightarrow> Inr (from, to)
      | Some p \<Rightarrow>
          rbind (cut_segment p endp (data_blocks from)) (\<lambda>(seg, rest).
            Inr (from\<lparr>last_used := None, data_blocks := rest\<rparr>,
                 to\<lparr>last_used := None,
                    data_blocks := splice_after seg (bb_block (hd seg)) (data_blocks to)\<rparr>)))"

section \<open>Queueing blocks\<close>

text \<open>
  \<open>merge_bb\<close> returns its result code and the block \<open>a\<close> points to afterwards; on 0 the block \<open>b\<close> has
  been merged into it and freed.
\<close>

definition merge_compatible :: "backed_block \<Rightarrow> backed_block \<Rightarrow> bool" where
  "merge_compatible a b =
     (case (bb_payload a, bb_payload b) of
        (BB_Fill v, BB_Fill w) \<Rightarrow> v = w
      | (BB_File f off, BB_File g off') \<Rightarrow>
          map_option fst f = map_option fst g \<and> i64 (off + bb_len a) = off'
      | (BB_Fd fd off, BB_Fd fd' off') \<Rightarrow> fd = fd' \<and> i64 (off + bb_len a) = off'
      | _ \<Rightarrow> False)"

definition merge_bb ::
    "int \<Rightarrow> backed_block option \<Rightarrow> backed_block option \<Rightarrow> (int \<times> backed_block option) res" where
  "merge_bb block_size ao bo =
     (case (ao, bo) of
        (Some a, Some b) \<Rightarrow>
          if \<not> bb_block a < bb_block b then Inl Assert_failed
          else if bb_type a \<noteq> bb_type b then Inr (- EINVAL, ao)
          else if block_size = 0 then Inl Div_by_zero
          else if u32 (bb_block a + bb_len a div block_size) \<noteq> bb_block b then Inr (- EINVAL, ao)
          else if \<not> merge_compatible a b then Inr (- EINVAL, ao)
          else Inr (0, Some (a\<lparr>bb_len := u32 (bb_len a + bb_len b)\<rparr>))
      | _ \<Rightarrow> Inr (- EINVAL, ao))"

text \<open>Where the search starts: behind the blocks \<open>fst\<close>, at the head of \<open>snd\<close>.\<close>

definition queue_start ::
    "backed_block_list \<Rightarrow> backed_block \<Rightarrow> (backed_block list \<times> backed_block list) res" where
  "queue_start bbl new_bb =
     (let xs = data_blocks bbl
      in case last_used bbl of
           None \<Rightarrow> Inr ([], xs)
         | Some u \<Rightarrow>
             (case List.find (\<lambda>b. bb_addr b = u) xs of
                None \<Rightarrow> Inl Use_after_free
              | Some lu \<Rightarrow>
                  if bb_block lu < bb_block new_bb
                  then Inr (takeWhile (\<lambda>b. bb_addr b \<noteq> u) xs, dropWhile (\<lambda>b. bb_addr b \<noteq> u) xs)
                  else Inr ([], xs)))"

text \<open>The search loop: splits the list behind the block \<open>bb\<close> the new block is inserted after.\<close>

fun queue_walk :: "int \<Rightarrow> backed_block list \<Rightarrow> backed_block list \<times> backed_block list" where
  "queue_walk n [] = ([], [])"
| "queue_walk n [b] = ([b], [])"
| "queue_walk n (b # c # rest) =
     (if bb_block c < n then (case queue_walk n (c # rest) of (p, q) \<Rightarrow> (b # p, q))
      else ([b], c # rest))"

text \<open>Linking the new block in between \<open>bb\<close> and \<open>q\<close>, and the two merge attempts.\<close>

definition queue_link ::
    "int \<Rightarrow> backed_block \<Rightarrow> backed_block \<Rightarrow> backed_block list \<Rightarrow> backed_block list res" where
  "queue_link block_size bb new_bb q =
     rbind (merge_bb block_size (Some new_bb) (case q of [] \<Rightarrow> None | c # _ \<Rightarrow> Some c)) (\<lambda>(r1, n1).
       case n1 of
         None \<Rightarrow> Inl Null_deref
       | Some new1 \<Rightarrow>
           (let q1 = (if r1 = 0 then tl q else q)
            in rbind (merge_bb block_size (Some bb) (Some new1)) (\<lambda>(r2, b2).
                 case b2 of
                   None \<Rightarrow> Inl Null_deref
                 | Some bb1 \<Rightarrow> Inr (if r2 = 0 then bb1 # q1 else bb1 # new1 # q1))))"

definition queue_bb :: "backed_block_list \<Rightarrow> backed_block \<Rightarrow> (int \<times> backed_block_list) res" where
  "queue_bb bbl new_bb =
     (case data_blocks bbl of
        [] \<Rightarrow> Inr (0, bbl\<lparr>data_blocks := [new_bb]\<rparr>)
      | d # ds \<Rightarrow>
          if bb_block new_bb < bb_block d
          then Inr (0, bbl\<lparr>data_blocks := new_bb # d # ds\<rparr>)
          else rbind (queue_start bbl new_bb) (\<lambda>(pre, suf).
                 case queue_walk (bb_block new_bb) suf of (p, q) \<Rightarrow>
                   rbind (queue_link (bbl_block_size bbl) (last p) new_bb q) (\<lambda>tail.
                     Inr (0, bbl\<lparr>data_blocks := pre @ butlast p @ tail,
                                last_used := Some (bb_addr new_bb)\<rparr>))))"

definition backed_block_add_fill ::
    "mem \<Rightarrow> backed_block_list \<Rightarrow> int \<Rightarrow> int \<Rightarrow> int \<Rightarrow> (int \<times> backed_block_list) res \<times> mem" where
  "backed_block_add_fill m bbl fill_val len block =
     (case malloc m of
        (None, m') \<Rightarrow> (Inr (- ENOMEM, bbl), m')
      | (Some a, m') \<Rightarrow>
          (queue_bb bbl \<lparr>bb_addr = a, bb_block = block, bb_len = len, bb_payload = BB_Fill fill_val\<rparr>, m'))"

definition backed_block_add_data ::
    "mem \<Rightarrow> backed_block_list \<Rightarrow> byte list \<Rightarrow> int \<Rightarrow> int \<Rightarrow> (int \<times> backed_block_list) res \<times> mem" where
  "backed_block_add_data m bbl data len block =
     (case malloc m of
        (None, m') \<Rightarrow> (Inr (- ENOMEM, bbl), m')
      | (Some a, m') \<Rightarrow>
          (queue_bb bbl \<lparr>bb_addr = a, bb_block = block, bb_len = len, bb_payload = BB_Data data\<rparr>, m'))"

definition backed_block_add_file ::
    "mem \<Rightarrow> backed_block_list \<Rightarrow> string \<Rightarrow> int \<Rightarrow> int \<Rightarrow> int \<Rightarrow> (int \<times> backed_block_list) res \<times> mem" where
  "backed_block_add_file m bbl filename offset len block =
     (case malloc m of
        (None, m') \<Rightarrow> (Inr (- ENOMEM, bbl), m')
      | (Some a, m') \<Rightarrow>
          (case malloc m' of
             (name, m'') \<Rightarrow>
               (queue_bb bbl \<lparr>bb_addr = a, bb_block = block, bb_len = len,
                  bb_payload = BB_File (map_option (\<lambda>p. (p, filename)) name) offset\<rparr>, m'')))"

definition backed_block_add_fd ::
    "mem \<Rightarrow> backed_block_list \<Rightarrow> int \<Rightarrow> int \<Rightarrow> int \<Rightarrow> int \<Rightarrow> (int \<times> backed_block_list) res \<times> mem" where
  "backed_block_add_fd m bbl fd offset len block =
     (case malloc m of
        (None, m') \<Rightarrow> (Inr (- ENOMEM, bbl), m')
      | (Some a, m') \<Rightarrow>
          (queue_bb bbl \<lparr>bb_addr = a, bb_block = block, bb_len = len, bb_payload = BB_Fd fd offset\<rparr>, m'))"

section \<open>Splitting a block\<close>

definition payload_shift :: "int \<Rightarrow> bb_payload \<Rightarrow> bb_payload" where
  "payload_shift n p =
     (case p of
        BB_Data d \<Rightarrow> BB_Data (drop (nat n) d)
      | BB_File f off \<Rightarrow> BB_File f (i64 (off + n))
      | BB_Fd fd off \<Rightarrow> BB_Fd fd (i64 (off + n))
      | BB_Fill v \<Rightarrow> BB_Fill v)"

definition backed_block_split ::
    "mem \<Rightarrow> backed_block_list \<Rightarrow> nat \<Rightarrow> int \<Rightarrow> (int \<times> backed_block_list) res \<times> mem" where
  "backed_block_split m bbl p max_len0 =
     (let bs = bbl_block_size bbl;
          max_len = align_down_u32 max_len0 bs;
          before = takeWhile (\<lambda>b. bb_addr b \<noteq> p) (data_blocks bbl)
      in case dropWhile (\<lambda>b. bb_addr b \<noteq> p) (data_blocks bbl) of
           [] \<Rightarrow> (Inl Bad_pointer, m)
         | bb # after \<Rightarrow>
             if bs = 0 then (Inl Div_by_zero, m)
             else if bb_len bb \<le> max_len then (Inr (0, bbl), m)
             else (case malloc m of
                     (None, m') \<Rightarrow> (Inr (- ENOMEM, bbl), m')
                   | (Some a, m') \<Rightarrow>
                       (Inr (0, bbl\<lparr>data_blocks := before
                              @ bb\<lparr>bb_len := max_len\<rparr>
                              # \<lparr>bb_addr = a, bb_block = u32 (bb_block bb + max_len div bs),
                                 bb_len = bb_len bb - max_len,
                                 bb_payload = payload_shift max_len (bb_payload bb)\<rparr>
                              # after\<rparr>), m')))"

section \<open>The abstract view and the invariant\<close>

text \<open>Where a byte of the image comes from.\<close>

datatype origin = O_byte byte | O_none | O_file "string option" int | O_fd int int

fun payload_origin :: "bb_payload \<Rightarrow> int \<Rightarrow> origin" where
  "payload_origin (BB_Data d) j = (if nat j < length d then O_byte (d ! nat j) else O_none)"
| "payload_origin (BB_File f off) j = O_file (map_option snd f) (i64 (off + j))"
| "payload_origin (BB_Fd fd off) j = O_fd fd (i64 (off + j))"
| "payload_origin (BB_Fill v) j = O_byte (le_bytes 4 v ! nat (j mod 4))"

definition bb_covers :: "int \<Rightarrow> backed_block \<Rightarrow> int \<Rightarrow> bool" where
  "bb_covers bs b x \<longleftrightarrow> bb_block b * bs \<le> x \<and> x < bb_block b * bs + bb_len b"

definition bb_origin :: "int \<Rightarrow> backed_block \<Rightarrow> int \<Rightarrow> origin" where
  "bb_origin bs b x = payload_origin (bb_payload b) (x - bb_block b * bs)"

fun bbl_view :: "int \<Rightarrow> backed_block list \<Rightarrow> int \<Rightarrow> origin option" where
  "bbl_view bs [] x = None"
| "bbl_view bs (b # rest) x = (if bb_covers bs b x then Some (bb_origin bs b x) else bbl_view bs rest x)"

text \<open>The first block number behind a block, when the part-filled last block counts as used.\<close>

definition bb_last :: "int \<Rightarrow> backed_block \<Rightarrow> int" where
  "bb_last bs b = bb_block b + ceil_div (bb_len b) bs"

definition bb_ok :: "int \<Rightarrow> backed_block \<Rightarrow> bool" where
  "bb_ok bs b \<longleftrightarrow> 0 \<le> bb_block b \<and> 0 < bb_len b \<and> bb_len b + bs \<le> 4294967296 \<and> bb_last bs b < 4294967296"

text \<open>Two names stored at the same address are the same string.\<close>

definition names_ok :: "bb_payload set \<Rightarrow> bool" where
  "names_ok P \<longleftrightarrow>
     (\<forall>f off g off'. BB_File f off \<in> P \<longrightarrow> BB_File g off' \<in> P \<longrightarrow>
        map_option fst f = map_option fst g \<longrightarrow> f = g)"

definition bbl_sorted :: "int \<Rightarrow> backed_block list \<Rightarrow> bool" where
  "bbl_sorted bs = sorted_wrt (\<lambda>a b. bb_last bs a \<le> bb_block b)"

definition bbl_wf :: "int \<Rightarrow> backed_block list \<Rightarrow> bool" where
  "bbl_wf bs xs \<longleftrightarrow>
     bbl_sorted bs xs \<and> (\<forall>b \<in> set xs. bb_ok bs b) \<and> distinct (map bb_addr xs) \<and> names_ok (bb_payload ` set xs)"

definition block_size_ok :: "int \<Rightarrow> bool" where
  "block_size_ok bs \<longleftrightarrow> 0 < bs \<and> 4 dvd bs \<and> bs < 2147483648"

definition last_used_ok :: "backed_block_list \<Rightarrow> bool" where
  "last_used_ok bbl \<longleftrightarrow>
     (case last_used bbl of None \<Rightarrow> True | Some u \<Rightarrow> u \<in> bb_addr ` set (data_blocks bbl))"

text \<open>Disjointness of two blocks, and room for a merged length.\<close>

definition bb_disjoint :: "int \<Rightarrow> backed_block \<Rightarrow> backed_block \<Rightarrow> bool" where
  "bb_disjoint bs a b \<longleftrightarrow> bb_last bs a \<le> bb_block b \<or> bb_last bs b \<le> bb_block a"

definition merge_room :: "int \<Rightarrow> backed_block \<Rightarrow> backed_block list \<Rightarrow> bool" where
  "merge_room bs new xs \<longleftrightarrow>
     (\<forall>a \<in> set xs. bb_len a + bb_len new + bs \<le> 4294967296 \<and>
        (\<forall>b \<in> set xs. a \<noteq> b \<longrightarrow> bb_len a + bb_len new + bb_len b + bs \<le> 4294967296))"

subsection \<open>Views\<close>

lemma i64_i64_add [simp]: "i64 (i64 a + b) = i64 (a + b)"
proof -
  have "i64 a + b + 9223372036854775808 = (a + 9223372036854775808) mod 18446744073709551616 + b"
    by (simp add: i64_def)
  then have "(i64 a + b + 9223372036854775808) mod 18446744073709551616
      = (a + 9223372036854775808 + b) mod 18446744073709551616"
    by (simp only: mod_add_left_eq)
  then show ?thesis
    unfolding i64_def [of "i64 a + b"] i64_def [of "a + b"] by (simp add: ac_simps)
qed

lemma bbl_view_append:
  "bbl_view bs (xs @ ys) x = (case bbl_view bs xs x of None \<Rightarrow> bbl_view bs ys x | Some v \<Rightarrow> Some v)"
  by (induction xs) auto

lemma bbl_view_append_cong:
  "bbl_view bs ys = bbl_view bs zs \<Longrightarrow> bbl_view bs (xs @ ys) = bbl_view bs (xs @ zs)"
  by (simp add: fun_eq_iff bbl_view_append split: option.split)

lemma bbl_view_eq_None: "bbl_view bs xs x = None \<longleftrightarrow> (\<forall>b \<in> set xs. \<not> bb_covers bs b x)"
  by (induction xs) auto

lemma payload_shift_origin:
  assumes "0 \<le> n" "0 \<le> j" "4 dvd n"
  shows "payload_origin (payload_shift n p) j = payload_origin p (n + j)"
proof (cases p)
  case (BB_Data d)
  with assms show ?thesis
    by (auto simp: payload_shift_def nat_add_distrib add.commute)
next
  case (BB_Fill v)
  from assms(3) have "(n + j) mod 4 = j mod 4"
    by (metis dvd_imp_mod_0 mod_add_left_eq add_0)
  with BB_Fill show ?thesis by (simp add: payload_shift_def)
qed (simp_all add: payload_shift_def add.assoc)

lemma bb_okD:
  assumes "bb_ok bs b"
  shows "0 \<le> bb_block b" "0 < bb_len b" "bb_len b + bs \<le> 4294967296" "bb_last bs b < 4294967296"
  using assms by (auto simp: bb_ok_def)

lemma bb_last_gt: "0 < bs \<Longrightarrow> bb_ok bs b \<Longrightarrow> bb_block b < bb_last bs b"
  using ceil_div_pos by (simp add: bb_last_def bb_ok_def)

lemma bb_covers_lt_last:
  assumes "0 < bs" "bb_covers bs b x"
  shows "x < bb_last bs b * bs"
proof -
  have "bb_len b \<le> ceil_div (bb_len b) bs * bs" by (rule ceil_div_bounds) fact
  with assms(2) show ?thesis
    by (simp add: bb_covers_def bb_last_def algebra_simps)
qed

lemma bb_covers_disjoint:
  assumes "0 < bs" "bb_last bs a \<le> bb_block b" "bb_covers bs a x"
  shows "\<not> bb_covers bs b x"
proof -
  from assms have "bb_last bs a * bs \<le> bb_block b * bs" by simp
  with bb_covers_lt_last [OF assms(1,3)] show ?thesis by (simp add: bb_covers_def)
qed

text \<open>In a list of disjoint blocks the order does not matter to the view.\<close>

lemma bbl_view_insert:
  assumes "0 < bs" and "\<forall>b \<in> set xs. bb_disjoint bs new b"
  shows "bbl_view bs (xs @ new # ys) x = bbl_view bs (new # xs @ ys) x"
proof (cases "bb_covers bs new x")
  case True
  then have "\<forall>b \<in> set xs. \<not> bb_covers bs b x"
    using assms bb_covers_disjoint [OF assms(1)] unfolding bb_disjoint_def by blast
  then have "bbl_view bs xs x = None" by (simp add: bbl_view_eq_None)
  with True show ?thesis by (simp add: bbl_view_append)
qed (simp add: bbl_view_append split: option.split)

subsection \<open>Merging\<close>

lemma merge_bb_Some:
  assumes "merge_bb bs (Some a) (Some b) = Inr (0, c)"
  shows "bb_block a < bb_block b" "bs \<noteq> 0" "u32 (bb_block a + bb_len a div bs) = bb_block b"
    "merge_compatible a b" "c = Some (a\<lparr>bb_len := u32 (bb_len a + bb_len b)\<rparr>)"
  using assms by (auto simp: merge_bb_def split: if_splits)

lemma merge_bb_not_0:
  assumes "merge_bb bs (Some a) bo = Inr (r, c)" "r \<noteq> 0"
  shows "c = Some a"
  using assms by (auto simp: merge_bb_def split: if_splits option.splits)

lemma merge_bb_total:
  assumes "bs \<noteq> 0" "\<And>b. bo = Some b \<Longrightarrow> bb_block a < bb_block b"
  shows "\<exists>r c. merge_bb bs (Some a) bo = Inr (r, Some c)"
  using assms by (cases bo) (auto simp: merge_bb_def)

lemma merge_adjacent:
  assumes bs: "0 < bs" and ok: "bb_ok bs a" "bb_ok bs b" and le: "bb_last bs a \<le> bb_block b"
    and adj: "u32 (bb_block a + bb_len a div bs) = bb_block b"
  shows "bb_len a = (bb_block b - bb_block a) * bs"
proof -
  have fl: "0 \<le> bb_len a div bs" "bb_len a div bs \<le> ceil_div (bb_len a) bs"
    using bs bb_okD [OF ok(1)] by (auto simp: ceil_div_def pos_imp_zdiv_nonneg_iff intro!: zdiv_mono1)
  then have "bb_block a + bb_len a div bs = bb_block b"
    using adj le bb_okD [OF ok(1)] bb_okD [OF ok(2)] bb_last_gt [OF bs ok(2)]
    by (simp add: bb_last_def u32_id)
  with le fl have *: "bb_len a div bs = ceil_div (bb_len a) bs" "bb_len a div bs = bb_block b - bb_block a"
    by (auto simp: bb_last_def)
  have "bb_len a div bs * bs \<le> bb_len a" using bs
    by (metis div_mult_mod_eq le_add_same_cancel1 pos_mod_sign)
  moreover have "bb_len a \<le> ceil_div (bb_len a) bs * bs" by (rule ceil_div_bounds) fact
  ultimately show ?thesis using * by simp
qed

lemma merge_compatible_cases:
  assumes "merge_compatible a b"
  obtains (Fill) v where "bb_payload a = BB_Fill v" "bb_payload b = BB_Fill v"
  | (File) f g off where "bb_payload a = BB_File f off" "bb_payload b = BB_File g (i64 (off + bb_len a))"
      "map_option fst f = map_option fst g"
  | (Fd) fd off where "bb_payload a = BB_Fd fd off" "bb_payload b = BB_Fd fd (i64 (off + bb_len a))"
  using assms by (cases "bb_payload a"; cases "bb_payload b") (auto simp: merge_compatible_def)

lemma merge_origin:
  assumes "merge_compatible a b" "names_ok {bb_payload a, bb_payload b}" "4 dvd bb_len a" "0 \<le> j"
  shows "payload_origin (bb_payload a) (bb_len a + j) = payload_origin (bb_payload b) j"
  using assms(1)
proof (cases rule: merge_compatible_cases)
  case (Fill v)
  from assms(3) have "(bb_len a + j) mod 4 = j mod 4"
    by (metis dvd_imp_mod_0 mod_add_left_eq add_0)
  with Fill show ?thesis by simp
next
  case (File f g off)
  with assms(2) have "f = g" unfolding names_ok_def by simp
  with File show ?thesis by (simp add: add.assoc)
next
  case (Fd n off)
  then show ?thesis by (simp add: add.assoc)
qed

lemma merge_bb_ok:
  assumes bs: "block_size_ok bs" and ok: "bb_ok bs a" "bb_ok bs b" and le: "bb_last bs a \<le> bb_block b"
    and names: "names_ok {bb_payload a, bb_payload b}" and room: "bb_len a + bb_len b + bs \<le> 4294967296"
    and m: "merge_bb bs (Some a) (Some b) = Inr (0, Some c)"
  shows "bb_ok bs c" "bb_last bs c = bb_last bs b" "bb_block c = bb_block a" "bb_addr c = bb_addr a"
    "bb_payload c = bb_payload a" "bb_len c = bb_len a + bb_len b"
    "bbl_view bs (c # rest) = bbl_view bs (a # b # rest)"
proof -
  note c = merge_bb_Some [OF m]
  have pos: "0 < bs" and four: "4 dvd bs" using bs by (auto simp: block_size_ok_def)
  have la: "bb_len a = (bb_block b - bb_block a) * bs"
    by (rule merge_adjacent [OF pos ok le c(3)])
  have lc: "bb_len c = bb_len a + bb_len b"
    using c(5) room pos bb_okD [OF ok(1)] bb_okD [OF ok(2)] by (simp add: u32_id)
  show "bb_block c = bb_block a" "bb_addr c = bb_addr a" "bb_payload c = bb_payload a"
    "bb_len c = bb_len a + bb_len b"
    using c(5) lc by auto
  have "ceil_div (bb_len c) bs = (bb_block b - bb_block a) + ceil_div (bb_len b) bs"
  proof -
    have "bb_len c + bs - 1 = (bb_len b + bs - 1) + (bb_block b - bb_block a) * bs"
      using lc la by simp
    then show ?thesis unfolding ceil_div_def using pos by (simp only: div_mult_self1)
  qed
  then show last: "bb_last bs c = bb_last bs b"
    using c(5) by (simp add: bb_last_def)
  show "bb_ok bs c"
    using bb_okD [OF ok(1)] bb_okD [OF ok(2)] lc room last c(5) by (simp add: bb_ok_def)
  show "bbl_view bs (c # rest) = bbl_view bs (a # b # rest)"
  proof
    fix x
    have eq: "bb_origin bs a x = bb_origin bs b x" if "bb_covers bs b x"
    proof -
      have "x - bb_block a * bs = bb_len a + (x - bb_block b * bs)"
        using la by (simp add: algebra_simps)
      moreover have "0 \<le> x - bb_block b * bs" using that by (simp add: bb_covers_def)
      moreover have "4 dvd bb_len a" using la four by simp
      ultimately show ?thesis
        unfolding bb_origin_def using merge_origin [OF c(4) names] by metis
    qed
    have cov: "bb_covers bs c x \<longleftrightarrow> bb_covers bs a x \<or> bb_covers bs b x"
      using c(5) lc la bb_okD [OF ok(1)] bb_okD [OF ok(2)]
      by (auto simp: bb_covers_def algebra_simps)
    have "bb_origin bs c x = bb_origin bs a x" using c(5) by (simp add: bb_origin_def)
    with cov eq show "bbl_view bs (c # rest) x = bbl_view bs (a # b # rest) x"
      by auto
  qed
qed

subsection \<open>Where a block is queued\<close>

lemma names_ok_mono: "names_ok P \<Longrightarrow> Q \<subseteq> P \<Longrightarrow> names_ok Q"
  unfolding names_ok_def by blast

lemma bbl_sorted_append:
  "bbl_sorted bs (xs @ ys) \<longleftrightarrow>
     bbl_sorted bs xs \<and> bbl_sorted bs ys \<and> (\<forall>a \<in> set xs. \<forall>b \<in> set ys. bb_last bs a \<le> bb_block b)"
  by (simp add: bbl_sorted_def sorted_wrt_append)

lemma bbl_sorted_Cons:
  "bbl_sorted bs (x # ys) \<longleftrightarrow> bbl_sorted bs ys \<and> (\<forall>b \<in> set ys. bb_last bs x \<le> bb_block b)"
  by (auto simp: bbl_sorted_def)

lemma bbl_wf_blocks:
  assumes "0 < bs" "bbl_wf bs (xs @ b # ys)"
  shows "a \<in> set xs \<Longrightarrow> bb_block a < bb_block b" "c \<in> set ys \<Longrightarrow> bb_block b < bb_block c"
proof -
  have ok: "bb_ok bs e" if "e \<in> set (xs @ b # ys)" for e
    using assms(2) that unfolding bbl_wf_def by blast
  have le: "\<forall>a \<in> set xs. bb_last bs a \<le> bb_block b" "\<forall>c \<in> set ys. bb_last bs b \<le> bb_block c"
    using assms(2) by (simp_all add: bbl_wf_def bbl_sorted_append bbl_sorted_Cons)
  show "bb_block a < bb_block b" if "a \<in> set xs"
    using le(1) that bb_last_gt [OF assms(1) ok, of a] by force
  show "bb_block b < bb_block c" if "c \<in> set ys"
    using le(2) that bb_last_gt [OF assms(1) ok, of b] by force
qed

lemma bbl_wf_replace:
  assumes bs: "0 < bs" and wf: "bbl_wf bs (xs @ ys)" and wf': "bbl_wf bs zs" and ne: "zs \<noteq> []" "ys \<noteq> []"
    and hd: "bb_block (hd zs) = bb_block (hd ys)" and addr: "bb_addr ` set zs \<subseteq> bb_addr ` set ys"
    and pay: "bb_payload ` set zs \<subseteq> bb_payload ` set ys"
  shows "bbl_wf bs (xs @ zs)"
proof -
  obtain z zs' where z: "zs = z # zs'" using ne by (cases zs) auto
  have ge: "bb_block z \<le> bb_block t" if "t \<in> set zs" for t
    using that wf' bbl_wf_blocks(2) [OF bs, of "[]" z zs' t] z by force
  have "bb_last bs a \<le> bb_block t" if "a \<in> set xs" "t \<in> set zs" for a t
  proof -
    have "bb_last bs a \<le> bb_block (hd ys)"
      using wf ne that(1) by (auto simp: bbl_wf_def bbl_sorted_append)
    with ge [OF that(2)] hd z show ?thesis by simp
  qed
  moreover have "names_ok (bb_payload ` set (xs @ zs))"
    by (rule names_ok_mono [of "bb_payload ` set (xs @ ys)"]) (use wf pay in \<open>auto simp: bbl_wf_def\<close>)
  moreover have "bb_addr ` set xs \<inter> bb_addr ` set zs = {}"
    using wf addr unfolding bbl_wf_def by auto
  ultimately show ?thesis
    using wf wf' unfolding bbl_wf_def bbl_sorted_append by auto
qed

lemma queue_walk_eq:
  "queue_walk n (b # xs) =
     (b # takeWhile (\<lambda>c. bb_block c < n) xs, dropWhile (\<lambda>c. bb_block c < n) xs)"
proof (induction xs arbitrary: b)
  case (Cons c xs)
  then show ?case by simp
qed simp

lemma queue_start_total:
  "last_used_ok bbl \<Longrightarrow> \<exists>pre suf. queue_start bbl new = Inr (pre, suf)"
  by (auto simp: queue_start_def last_used_ok_def find_None_iff Let_def split: option.splits)

lemma find_split:
  "List.find P xs = Some y \<Longrightarrow>
     xs = takeWhile (\<lambda>x. \<not> P x) xs @ y # tl (dropWhile (\<lambda>x. \<not> P x) xs)
     \<and> dropWhile (\<lambda>x. \<not> P x) xs = y # tl (dropWhile (\<lambda>x. \<not> P x) xs)"
  by (induction xs) (auto split: if_splits)

text \<open>
  The optimisation: starting the search at \<open>last_used\<close> finds the same place as starting at the
  head. The new block goes behind the blocks with a lower number.
\<close>

lemma queue_position:
  assumes bs: "0 < bs" and wf: "bbl_wf bs (data_blocks bbl)" and xs: "data_blocks bbl = d # ds"
    and d: "bb_block d < bb_block new"
    and start: "queue_start bbl new = Inr (pre, suf)"
    and walk: "queue_walk (bb_block new) suf = (p, q)"
  shows "p \<noteq> []" "pre @ p = takeWhile (\<lambda>c. bb_block c < bb_block new) (d # ds)"
    "q = dropWhile (\<lambda>c. bb_block c < bb_block new) (d # ds)"
proof -
  let ?lt = "\<lambda>c. bb_block c < bb_block new"
  have "p \<noteq> [] \<and> pre @ p = takeWhile ?lt (d # ds) \<and> q = dropWhile ?lt (d # ds)"
  proof (cases "pre = [] \<and> suf = d # ds")
    case True
    with d walk show ?thesis by (auto simp: queue_walk_eq)
  next
    case False
    with start xs obtain u lu where lu: "last_used bbl = Some u" "List.find (\<lambda>b. bb_addr b = u) (d # ds) = Some lu"
      "bb_block lu < bb_block new" "pre = takeWhile (\<lambda>b. bb_addr b \<noteq> u) (d # ds)"
      "suf = dropWhile (\<lambda>b. bb_addr b \<noteq> u) (d # ds)"
      by (auto simp: queue_start_def Let_def split: option.splits if_splits)
    obtain rest where rest: "suf = lu # rest" "d # ds = pre @ lu # rest"
      using find_split [OF lu(2)] lu(4,5) by metis
    have "?lt a" if "a \<in> set pre" for a
      using bbl_wf_blocks(1) [OF bs, of pre lu rest a] wf xs rest(2) lu(3) that by simp
    then have "takeWhile ?lt (d # ds) = pre @ lu # takeWhile ?lt rest"
      "dropWhile ?lt (d # ds) = dropWhile ?lt rest"
      using rest(2) lu(3) by (simp_all add: takeWhile_append2 dropWhile_append2)
    with walk rest(1) show ?thesis by (auto simp: queue_walk_eq)
  qed
  then show "p \<noteq> []" "pre @ p = takeWhile ?lt (d # ds)" "q = dropWhile ?lt (d # ds)"
    by auto
qed

subsection \<open>Queueing\<close>

lemma merge_step:
  assumes bs: "block_size_ok bs" and wf: "bbl_wf bs (a # b # rest)"
    and room: "bb_len a + bb_len b + bs \<le> 4294967296"
    and m: "merge_bb bs (Some a) (Some b) = Inr (r, Some c)"
  defines "ys \<equiv> (if r = 0 then c # rest else c # b # rest)"
  shows "bbl_wf bs ys" "bbl_view bs ys = bbl_view bs (a # b # rest)" "ys \<noteq> []" "hd ys = c"
    "bb_block c = bb_block a" "bb_addr c = bb_addr a" "bb_payload c = bb_payload a"
    "bb_len c \<le> bb_len a + bb_len b"
    "bb_addr ` set ys \<subseteq> bb_addr ` set (a # b # rest)" "bb_payload ` set ys \<subseteq> bb_payload ` set (a # b # rest)"
proof -
  have ok: "bb_ok bs a" "bb_ok bs b" "bb_last bs a \<le> bb_block b" "names_ok {bb_payload a, bb_payload b}"
    using wf by (auto simp: bbl_wf_def bbl_sorted_Cons intro: names_ok_mono)
  have "bbl_wf bs ys \<and> bbl_view bs ys = bbl_view bs (a # b # rest) \<and> bb_block c = bb_block a
      \<and> bb_addr c = bb_addr a \<and> bb_payload c = bb_payload a \<and> bb_len c \<le> bb_len a + bb_len b"
  proof (cases "r = 0")
    case True
    note c = merge_bb_ok [OF bs ok room m [unfolded True]]
    have "bbl_wf bs (c # rest)"
      using wf c(1-5)
      by (auto simp: bbl_wf_def bbl_sorted_Cons intro: names_ok_mono)
    with True c show ?thesis by (simp add: ys_def)
  next
    case False
    then have "c = a" using merge_bb_not_0 [OF m] by simp
    with False wf bb_okD(2) [OF ok(2)] show ?thesis by (simp add: ys_def)
  qed
  then show "bbl_wf bs ys" "bbl_view bs ys = bbl_view bs (a # b # rest)" "bb_block c = bb_block a"
    "bb_addr c = bb_addr a" "bb_payload c = bb_payload a" "bb_len c \<le> bb_len a + bb_len b"
    by auto
  then show "bb_addr ` set ys \<subseteq> bb_addr ` set (a # b # rest)" "bb_payload ` set ys \<subseteq> bb_payload ` set (a # b # rest)"
    by (auto simp: ys_def)
  show "ys \<noteq> []" "hd ys = c" by (simp_all add: ys_def)
qed

lemma queue_link_ok:
  assumes bs: "block_size_ok bs" and wf: "bbl_wf bs (x # new # q)"
    and room: "bb_len x + bb_len new + bs \<le> 4294967296"
      "\<forall>c \<in> set q. bb_len new + bb_len c + bb_len x + bs \<le> 4294967296"
  shows "\<exists>t. queue_link bs x new q = Inr t \<and> bbl_wf bs t \<and> bbl_view bs t = bbl_view bs (x # new # q)
    \<and> t \<noteq> [] \<and> bb_block (hd t) = bb_block x \<and> bb_addr ` set t \<subseteq> bb_addr ` set (x # new # q)
    \<and> bb_payload ` set t \<subseteq> bb_payload ` set (x # new # q)"
proof -
  have pos: "0 < bs" using bs by (simp add: block_size_ok_def)
  have xok: "bb_ok bs x" using wf by (simp add: bbl_wf_def)
  have wf1: "bbl_wf bs (new # q)"
    using wf by (auto simp: bbl_wf_def bbl_sorted_Cons intro: names_ok_mono)
  have lt: "bb_block x < bb_block new"
    using bbl_wf_blocks(2) [OF pos, of "[]" x "new # q" new] wf by simp
  \<comment> \<open>the first merge, of the new block with its successor\<close>
  obtain r1 new1 q1 where m1: "merge_bb bs (Some new) (case q of [] \<Rightarrow> None | c # _ \<Rightarrow> Some c) = Inr (r1, Some new1)"
    and q1: "q1 = (if r1 = 0 then tl q else q)"
    and s1: "bbl_wf bs (new1 # q1)" "bbl_view bs (new1 # q1) = bbl_view bs (new # q)"
      "bb_block new1 = bb_block new" "bb_addr ` set (new1 # q1) \<subseteq> bb_addr ` set (new # q)"
      "bb_payload ` set (new1 # q1) \<subseteq> bb_payload ` set (new # q)"
      "bb_len x + bb_len new1 + bs \<le> 4294967296"
  proof (cases q)
    case Nil
    have "merge_bb bs (Some new) None = Inr (- EINVAL, Some new)" by (simp add: merge_bb_def)
    with Nil wf1 room show ?thesis by (intro that [of "- EINVAL" new "[]"]) auto
  next
    case (Cons c q')
    have "bb_block new < bb_block c"
      using bbl_wf_blocks(2) [OF pos, of "[]" new "c # q'" c] wf1 Cons by simp
    then obtain r n1 where m: "merge_bb bs (Some new) (Some c) = Inr (r, Some n1)"
      using merge_bb_total [of bs "Some c" new] pos by auto
    have room': "bb_len new + bb_len c + bs \<le> 4294967296"
      using room(2) Cons bb_okD(2) [OF xok] by auto
    note st = merge_step [OF bs wf1 [unfolded Cons] room' m]
    show ?thesis
    proof (rule that [of r n1 "if r = 0 then q' else c # q'"])
      show "merge_bb bs (Some new) (case q of [] \<Rightarrow> None | c # _ \<Rightarrow> Some c) = Inr (r, Some n1)"
        using m Cons by simp
      show "bb_len x + bb_len n1 + bs \<le> 4294967296"
        using st(8) room(2) Cons by auto
    qed (use st Cons in \<open>auto split: if_splits\<close>)
  qed
  \<comment> \<open>the second merge, of the predecessor with the new block\<close>
  have wf2: "bbl_wf bs (x # new1 # q1)"
    using bbl_wf_replace [OF pos, of "[x]" "new # q" "new1 # q1"] wf s1 by simp
  obtain r2 bb1 where m2: "merge_bb bs (Some x) (Some new1) = Inr (r2, Some bb1)"
    using merge_bb_total [of bs "Some new1" x] pos lt s1(3) by auto
  note st = merge_step [OF bs wf2 s1(6) m2]
  define t where "t = (if r2 = 0 then bb1 # q1 else bb1 # new1 # q1)"
  have "queue_link bs x new q = Inr t"
    using m1 m2 q1 by (simp add: queue_link_def t_def Let_def)
  moreover have "bbl_view bs (x # new1 # q1) = bbl_view bs (x # new # q)"
    using s1(2) by (simp add: fun_eq_iff)
  moreover have "bb_addr ` set (x # new1 # q1) \<subseteq> bb_addr ` set (x # new # q)"
    "bb_payload ` set (x # new1 # q1) \<subseteq> bb_payload ` set (x # new # q)"
    using s1(4,5) by auto
  ultimately show ?thesis
    using st(1-5,9,10) unfolding t_def [symmetric] by (intro exI [of _ t]) (metis subset_trans)
qed

text \<open>The place of a new block: behind the blocks with a lower number.\<close>

lemma bbl_wf_dropWhile:
  assumes "0 < bs" "bbl_wf bs xs" "b \<in> set (dropWhile (\<lambda>c. bb_block c < n) xs)"
  shows "n \<le> bb_block b"
proof (cases "dropWhile (\<lambda>c. bb_block c < n) xs")
  case (Cons c q)
  then have "n \<le> bb_block c" by (metis hd_dropWhile list.discI list.sel(1) not_less)
  moreover have "bbl_wf bs (takeWhile (\<lambda>c. bb_block c < n) xs @ c # q)"
    using Cons assms(2) by (metis takeWhile_dropWhile_id)
  then have "b = c \<or> bb_block c < bb_block b"
    using bbl_wf_blocks(2) [OF assms(1)] assms(3) Cons by (metis set_ConsD)
  ultimately show ?thesis by auto
next
  case Nil
  with assms(3) show ?thesis by (metis empty_iff empty_set)
qed

lemma bbl_wf_insert:
  assumes pos: "0 < bs" and wf: "bbl_wf bs xs" and new: "bb_ok bs new" "bb_addr new \<notin> bb_addr ` set xs"
    "\<forall>b \<in> set xs. bb_disjoint bs new b" "names_ok (bb_payload ` set (new # xs))"
  defines "P \<equiv> takeWhile (\<lambda>c. bb_block c < bb_block new) xs"
    and "Q \<equiv> dropWhile (\<lambda>c. bb_block c < bb_block new) xs"
  shows "bbl_wf bs (P @ new # Q)"
proof -
  have split: "P @ Q = xs" by (simp add: P_def Q_def)
  have wf': "bbl_wf bs (P @ Q)" using wf split by simp
  have disj: "bb_disjoint bs new b" if "b \<in> set P \<union> set Q" for b
    using new(3) that split by (metis set_append)
  have "\<forall>a \<in> set P. bb_last bs a \<le> bb_block new"
  proof
    fix a assume a: "a \<in> set P"
    then have "bb_block a < bb_block new" unfolding P_def by (metis set_takeWhileD)
    with disj [of a] a bb_last_gt [OF pos new(1)] show "bb_last bs a \<le> bb_block new"
      by (auto simp: bb_disjoint_def)
  qed
  moreover have "\<forall>b \<in> set Q. bb_last bs new \<le> bb_block b"
  proof
    fix b assume b: "b \<in> set Q"
    then have "bb_block new \<le> bb_block b" "bb_ok bs b"
      using bbl_wf_dropWhile [OF pos wf] wf' unfolding Q_def bbl_wf_def by auto
    with disj [of b] b bb_last_gt [OF pos, of b] show "bb_last bs new \<le> bb_block b"
      by (auto simp: bb_disjoint_def)
  qed
  moreover have "set (new # xs) = set (P @ new # Q)" "bb_addr new \<notin> bb_addr ` set (P @ Q)"
    using new(2) split by auto
  ultimately show ?thesis
    using wf' new(1,4) by (auto simp: bbl_wf_def bbl_sorted_append bbl_sorted_Cons)
qed

text \<open>
  C2: queueing a block that overlaps no block of the list never faults (as long as the search hint is
  valid and no merged length reaches 4 GiB), keeps the list sorted, disjoint and in range, and adds exactly the bytes of the new
  block to the view, whether it is inserted, merged with a neighbour or with both.
\<close>

theorem queue_bb_ok:
  assumes size: "bbl_block_size bbl = bs" and bs: "block_size_ok bs"
    and wf: "bbl_wf bs (data_blocks bbl)" and lu: "last_used_ok bbl"
    and new: "bb_ok bs new" "bb_addr new \<notin> bb_addr ` set (data_blocks bbl)"
      "\<forall>b \<in> set (data_blocks bbl). bb_disjoint bs new b"
      "names_ok (bb_payload ` set (new # data_blocks bbl))"
    and room: "merge_room bs new (data_blocks bbl)"
  shows "\<exists>bbl'. queue_bb bbl new = Inr (0, bbl') \<and> bbl_block_size bbl' = bs
    \<and> bbl_wf bs (data_blocks bbl')
    \<and> bbl_view bs (data_blocks bbl') = bbl_view bs (new # data_blocks bbl)"
proof (cases "data_blocks bbl")
  case Nil
  with size new(1,4) show ?thesis by (simp add: queue_bb_def bbl_wf_def bbl_sorted_def)
next
  case (Cons d ds)
  have pos: "0 < bs" using bs by (simp add: block_size_ok_def)
  let ?lt = "\<lambda>c. bb_block c < bb_block new"
  let ?P = "takeWhile ?lt (d # ds)" and ?Q = "dropWhile ?lt (d # ds)"
  have wfn: "bbl_wf bs (?P @ new # ?Q)"
    using bbl_wf_insert [OF pos wf new] Cons by metis
  show ?thesis
  proof (cases "bb_block new < bb_block d")
    case True
    then have "?P = []" "?Q = d # ds" by simp_all
    with wfn Cons size True show ?thesis by (simp add: queue_bb_def)
  next
    case False
    have "bb_disjoint bs new d" "bb_ok bs d" using new(3) wf Cons by (auto simp: bbl_wf_def)
    with False bb_last_gt [OF pos new(1)] bb_last_gt [OF pos, of d] have d: "?lt d"
      by (auto simp: bb_disjoint_def)
    obtain pre suf p q where start: "queue_start bbl new = Inr (pre, suf)" "queue_walk (bb_block new) suf = (p, q)"
      using queue_start_total [OF lu] by (metis surj_pair)
    have P: "?P = pre @ butlast p @ [last p]" "?Q = q"
      using queue_position [OF pos wf Cons d start] by auto
    have wfl: "bbl_wf bs ((pre @ butlast p) @ last p # new # q)" using wfn P by simp
    then have wfl': "bbl_wf bs (last p # new # q)"
      by (auto simp: bbl_wf_def bbl_sorted_append bbl_sorted_Cons intro: names_ok_mono)
    have "d # ds = (pre @ butlast p) @ last p # q"
      using P takeWhile_dropWhile_id [of ?lt "d # ds"] by (metis append_Cons append_Nil append_assoc)
    then have "set (last p # q) \<subseteq> set (d # ds)" by (simp only: set_append) blast
    moreover have "last p \<notin> set q" using wfl' by (auto simp: bbl_wf_def)
    ultimately have room': "bb_len (last p) + bb_len new + bs \<le> 4294967296"
      "\<forall>c \<in> set q. bb_len new + bb_len c + bb_len (last p) + bs \<le> 4294967296"
      using room Cons unfolding merge_room_def by fastforce+
    obtain t where t: "queue_link bs (last p) new q = Inr t" "bbl_wf bs t"
      "bbl_view bs t = bbl_view bs (last p # new # q)" "t \<noteq> []" "bb_block (hd t) = bb_block (last p)"
      "bb_addr ` set t \<subseteq> bb_addr ` set (last p # new # q)" "bb_payload ` set t \<subseteq> bb_payload ` set (last p # new # q)"
      using queue_link_ok [OF bs wfl' room'] by blast
    let ?xs = "pre @ butlast p"
    have "queue_bb bbl new = Inr (0, bbl\<lparr>data_blocks := ?xs @ t, last_used := Some (bb_addr new)\<rparr>)"
      using False Cons start t(1) size by (simp add: queue_bb_def)
    moreover have "bbl_wf bs (?xs @ t)"
      using bbl_wf_replace [OF pos wfl t(2,4)] t(5-7) by simp
    moreover have "bbl_view bs (?xs @ t) = bbl_view bs (new # d # ds)"
    proof
      fix x
      have "bbl_view bs (?xs @ t) x = bbl_view bs (?P @ new # ?Q) x"
        using bbl_view_append_cong [OF t(3), of ?xs] P by simp
      also have "\<dots> = bbl_view bs (new # ?P @ ?Q) x"
        by (rule bbl_view_insert [OF pos]) (use new(3) Cons in \<open>auto dest: set_takeWhileD\<close>)
      finally show "bbl_view bs (?xs @ t) x = bbl_view bs (new # d # ds) x" by simp
    qed
    ultimately show ?thesis using Cons size by simp
  qed
qed

text \<open>
  Appending: a block behind all others that does not merge with its predecessor becomes the last
  element and the search hint.
\<close>

definition mergeable :: "int \<Rightarrow> backed_block \<Rightarrow> backed_block \<Rightarrow> bool" where
  "mergeable bs a b \<longleftrightarrow>
     bb_type a = bb_type b \<and> u32 (bb_block a + bb_len a div bs) = bb_block b \<and> merge_compatible a b"

lemma merge_bb_unmergeable:
  assumes "bs \<noteq> 0" "bb_block a < bb_block b" "\<not> mergeable bs a b"
  shows "merge_bb bs (Some a) (Some b) = Inr (- EINVAL, Some a)"
  using assms by (auto simp: merge_bb_def mergeable_def)

lemma queue_bb_end:
  assumes size: "bbl_block_size bbl = bs" and pos: "0 < bs" and wf: "bbl_wf bs (data_blocks bbl)"
    and lu: "last_used_ok bbl" and above: "\<forall>b \<in> set (data_blocks bbl). bb_last bs b \<le> bb_block new" and ne: "data_blocks bbl \<noteq> []"
  shows "queue_bb bbl new = rbind (queue_link bs (last (data_blocks bbl)) new []) (\<lambda>tail.
      Inr (0, bbl\<lparr>data_blocks := butlast (data_blocks bbl) @ tail, last_used := Some (bb_addr new)\<rparr>))"
    "bb_block (last (data_blocks bbl)) < bb_block new"
proof -
  obtain d ds where Cons: "data_blocks bbl = d # ds" using ne by (cases "data_blocks bbl") auto
  let ?lt = "\<lambda>c. bb_block c < bb_block new"
  have lt: "?lt b" if "b \<in> set (d # ds)" for b
    using above that wf Cons bb_last_gt [OF pos, of b] unfolding bbl_wf_def by fastforce
  then have tw: "takeWhile ?lt (d # ds) = d # ds" "dropWhile ?lt (d # ds) = []"
    by (simp_all only: takeWhile_eq_all_conv dropWhile_eq_Nil_conv) auto
  obtain pre suf p q where start: "queue_start bbl new = Inr (pre, suf)" "queue_walk (bb_block new) suf = (p, q)"
    using queue_start_total [OF lu] by (metis surj_pair)
  have P: "p \<noteq> []" "pre @ p = d # ds" "q = []"
    using queue_position [OF pos wf Cons _ start] lt tw by auto
  have last: "last (d # ds) = last p" "butlast (d # ds) = pre @ butlast p"
    unfolding P(2) [symmetric] using P(1) by (simp_all add: butlast_append)
  have "last (d # ds) \<in> set (d # ds)" by (rule last_in_set) simp
  then show "bb_block (last (data_blocks bbl)) < bb_block new" unfolding Cons by (rule lt)
  have "queue_bb bbl new = rbind (queue_link bs (last p) new []) (\<lambda>tail.
      Inr (0, bbl\<lparr>data_blocks := (pre @ butlast p) @ tail, last_used := Some (bb_addr new)\<rparr>))"
    using Cons start P(3) lt [of d] size by (simp add: queue_bb_def)
  then show "queue_bb bbl new = rbind (queue_link bs (last (data_blocks bbl)) new []) (\<lambda>tail.
      Inr (0, bbl\<lparr>data_blocks := butlast (data_blocks bbl) @ tail, last_used := Some (bb_addr new)\<rparr>))"
    unfolding Cons last .
qed

lemma queue_bb_append:
  assumes size: "bbl_block_size bbl = bs" and pos: "0 < bs" and wf: "bbl_wf bs (data_blocks bbl)"
    and lu: "last_used_ok bbl" and above: "\<forall>b \<in> set (data_blocks bbl). bb_last bs b \<le> bb_block new"
    and unm: "data_blocks bbl \<noteq> [] \<Longrightarrow> \<not> mergeable bs (last (data_blocks bbl)) new"
  shows "queue_bb bbl new = Inr (0, bbl\<lparr>data_blocks := data_blocks bbl @ [new],
    last_used := (if data_blocks bbl = [] then last_used bbl else Some (bb_addr new))\<rparr>)"
proof (cases "data_blocks bbl = []")
  case True
  then show ?thesis by (simp add: queue_bb_def)
next
  case False
  note q = queue_bb_end [OF size pos wf lu above False]
  have "merge_bb bs (Some (last (data_blocks bbl))) (Some new) = Inr (- EINVAL, Some (last (data_blocks bbl)))"
    using pos q(2) unm [OF False] by (intro merge_bb_unmergeable) auto
  then have "queue_link bs (last (data_blocks bbl)) new [] = Inr [last (data_blocks bbl), new]"
    by (simp add: queue_link_def merge_bb_def [of _ _ None])
  moreover have "butlast (data_blocks bbl) @ [last (data_blocks bbl), new] = data_blocks bbl @ [new]"
    using append_butlast_last_id [OF False] by (metis append.assoc append_Cons append_Nil)
  ultimately show ?thesis using q(1) False by simp
qed

text \<open>A block that does merge with its predecessor is freed, but the search hint points to it.\<close>

lemma queue_bb_append_merge:
  assumes "bbl_block_size bbl = bs" "0 < bs" "bbl_wf bs (data_blocks bbl)" "last_used_ok bbl"
    "\<forall>b \<in> set (data_blocks bbl). bb_last bs b \<le> bb_block new" "data_blocks bbl \<noteq> []" "mergeable bs (last (data_blocks bbl)) new"
  shows "queue_bb bbl new = Inr (0, bbl\<lparr>last_used := Some (bb_addr new), data_blocks := butlast (data_blocks bbl) @
    [(last (data_blocks bbl))\<lparr>bb_len := u32 (bb_len (last (data_blocks bbl)) + bb_len new)\<rparr>]\<rparr>)"
  using queue_bb_end [OF assms(1-6)] assms(2,7)
  by (simp add: queue_link_def merge_bb_def mergeable_def)

lemma queue_bb_freed_hint:
  assumes "last_used bbl = Some u" "u \<notin> bb_addr ` set (data_blocks bbl)" "data_blocks bbl \<noteq> []" "bb_block (hd (data_blocks bbl)) \<le> bb_block new"
  shows "queue_bb bbl new = Inl Use_after_free"
proof -
  obtain e es where e: "data_blocks bbl = e # es" using assms(3) by (cases "data_blocks bbl") auto
  have "List.find (\<lambda>b. bb_addr b = u) (e # es) = None" using assms(2) e by (auto simp: find_None_iff image_iff)
  then have "queue_start bbl new = Inl Use_after_free" using assms(1) e by (simp add: queue_start_def)
  with assms(4) e show ?thesis by (simp add: queue_bb_def)
qed

section \<open>Splitting\<close>

lemma ceil_div_diff:
  "0 < y \<Longrightarrow> ceil_div (x - k * y) y = ceil_div x y - k"
proof -
  assume y: "0 < y"
  have "x - k * y + y - 1 = (x + y - 1) + (- k) * y" by (simp add: algebra_simps)
  then show ?thesis unfolding ceil_div_def using y by (simp only: div_mult_self1)
qed

lemma split_pair_ok:
  fixes p :: nat
  assumes bs: "block_size_ok bs" and ok: "bb_ok bs bb" and k: "0 < k" "k * bs < bb_len bb"
  defines "a \<equiv> bb\<lparr>bb_len := k * bs\<rparr>"
    and "b \<equiv> \<lparr>bb_addr = p, bb_block = u32 (bb_block bb + k), bb_len = bb_len bb - k * bs,
              bb_payload = payload_shift (k * bs) (bb_payload bb)\<rparr>"
  shows "bb_ok bs a" "bb_ok bs b" "bb_last bs a = bb_block b" "bb_last bs b = bb_last bs bb"
    "bbl_view bs (a # b # rest) = bbl_view bs (bb # rest)"
proof -
  have pos: "0 < bs" "4 dvd bs" using bs by (auto simp: block_size_ok_def)
  note d = bb_okD [OF ok]
  have kc: "k < ceil_div (bb_len bb) bs"
    using k(2) ceil_div_le_iff [OF pos(1), of "bb_len bb" k] by linarith
  then have blk: "u32 (bb_block bb + k) = bb_block bb + k"
    using d k by (simp add: bb_last_def u32_id)
  show la: "bb_last bs a = bb_block b" using pos blk by (simp add: a_def b_def bb_last_def)
  show lb: "bb_last bs b = bb_last bs bb"
    using pos blk by (simp add: b_def bb_last_def ceil_div_diff)
  show "bb_ok bs a" using d k la blk pos kc by (simp add: bb_ok_def a_def b_def bb_last_def)
  have "0 \<le> k * bs" using k pos by simp
  with d k lb blk show "bb_ok bs b" by (simp add: bb_ok_def b_def)
  show "bbl_view bs (a # b # rest) = bbl_view bs (bb # rest)"
  proof
    fix x
    have org: "bb_origin bs b x = bb_origin bs bb x" if "bb_covers bs b x"
    proof -
      have "0 \<le> x - (bb_block bb + k) * bs" using that blk by (simp add: bb_covers_def b_def)
      then have "bb_origin bs b x = payload_origin (bb_payload bb) (k * bs + (x - (bb_block bb + k) * bs))"
        unfolding bb_origin_def b_def using payload_shift_origin [of "k * bs"] pos k blk by simp
      also have "k * bs + (x - (bb_block bb + k) * bs) = x - bb_block bb * bs"
        by (simp add: algebra_simps)
      finally show ?thesis by (simp add: bb_origin_def)
    qed
    have cov: "bb_covers bs bb x \<longleftrightarrow> bb_covers bs a x \<or> bb_covers bs b x" "bb_origin bs a x = bb_origin bs bb x"
      using k blk \<open>0 \<le> k * bs\<close> by (auto simp: bb_covers_def bb_origin_def a_def b_def algebra_simps)
    then show "bbl_view bs (a # b # rest) x = bbl_view bs (bb # rest) x"
      using org by auto
  qed
qed

lemma payload_shift_names:
  "names_ok (insert p P) \<Longrightarrow> names_ok (insert (payload_shift n p) (insert p P))"
  by (cases p) (auto simp: names_ok_def payload_shift_def)

definition mem_fresh :: "mem \<Rightarrow> backed_block list \<Rightarrow> bool" where
  "mem_fresh m xs \<longleftrightarrow> (\<forall>b \<in> set xs. bb_addr b < mem_next m)"

text \<open>The two halves a block is split into, \<open>k\<close> whole blocks of it staying with the first.\<close>

definition split_first :: "int \<Rightarrow> int \<Rightarrow> backed_block \<Rightarrow> backed_block" where
  "split_first bs k bb = bb\<lparr>bb_len := k * bs\<rparr>"

definition split_second :: "int \<Rightarrow> int \<Rightarrow> nat \<Rightarrow> backed_block \<Rightarrow> backed_block" where
  "split_second bs k a bb = \<lparr>bb_addr = a, bb_block = u32 (bb_block bb + k), bb_len = bb_len bb - k * bs,
     bb_payload = payload_shift (k * bs) (bb_payload bb)\<rparr>"

lemma backed_block_split_eq:
  assumes "bbl_block_size bbl = bs" "0 < bs" "distinct (map bb_addr (data_blocks bbl))"
    "data_blocks bbl = xs @ bb # ys" "0 \<le> n" "n < 4294967296" "k = n div bs"
  shows "backed_block_split m bbl (bb_addr bb) n =
    (if bb_len bb \<le> k * bs then (Inr (0, bbl), m)
     else if mem_fail m (mem_next m) then (Inr (- ENOMEM, bbl), m\<lparr>mem_next := Suc (mem_next m)\<rparr>)
     else (Inr (0, bbl\<lparr>data_blocks := xs @ split_first bs k bb # split_second bs k (mem_next m) bb # ys\<rparr>),
           m\<lparr>mem_next := Suc (mem_next m)\<rparr>))"
proof -
  have "align_down_u32 n bs = k * bs"
    using assms by (simp add: align_down_u32_eq minus_mod_eq_div_mult)
  moreover have "bb_addr bb \<notin> bb_addr ` set xs" using assms(3,4) by simp
  then have "bb_addr b \<noteq> bb_addr bb" if "b \<in> set xs" for b
    using that by (metis imageI)
  then have "takeWhile (\<lambda>b. bb_addr b \<noteq> bb_addr bb) (data_blocks bbl) = xs"
    "dropWhile (\<lambda>b. bb_addr b \<noteq> bb_addr bb) (data_blocks bbl) = bb # ys"
    using assms(4) by (simp_all add: takeWhile_append2 dropWhile_append2)
  ultimately show ?thesis
    using assms(1,2) by (simp add: backed_block_split_def Let_def malloc_def split_first_def split_second_def)
qed

lemma split_list_ok:
  assumes bs: "block_size_ok bs" and wf: "bbl_wf bs (xs @ bb # ys)" and k: "0 < k" "k * bs < bb_len bb"
    and fresh: "\<forall>b \<in> set (xs @ bb # ys). bb_addr b < p"
  shows "bbl_wf bs (xs @ split_first bs k bb # split_second bs k p bb # ys)"
    "bbl_view bs (xs @ split_first bs k bb # split_second bs k p bb # ys) = bbl_view bs (xs @ bb # ys)"
    "bb_last bs (split_second bs k p bb) = bb_last bs bb"
proof -
  have pos: "0 < bs" using bs by (simp add: block_size_ok_def)
  have ok: "bb_ok bs bb" using wf by (simp add: bbl_wf_def)
  let ?a = "split_first bs k bb" and ?b = "split_second bs k p bb"
  note sp = split_pair_ok(1) [OF bs ok k, folded split_first_def]
    split_pair_ok(2-5) [OF bs ok k, where p = p, folded split_first_def split_second_def]
  show "bb_last bs ?b = bb_last bs bb" by (rule sp(4))
  have "bbl_sorted bs xs" "bbl_sorted bs ys" "\<forall>c \<in> set xs. bb_last bs c \<le> bb_block bb"
    "\<forall>c \<in> set xs. \<forall>d \<in> set ys. bb_last bs c \<le> bb_block d" "\<forall>d \<in> set ys. bb_last bs bb \<le> bb_block d"
    using wf by (auto simp: bbl_wf_def bbl_sorted_append bbl_sorted_Cons)
  moreover have "bb_block ?a = bb_block bb" by (simp add: split_first_def)
  moreover have "bb_block bb < bb_block ?b" "bb_block ?b < bb_last bs bb"
    using bb_last_gt [OF pos sp(1)] bb_last_gt [OF pos sp(2)] sp(3,4) by (simp_all add: split_first_def)
  ultimately have "bbl_sorted bs (xs @ ?a # ?b # ys)"
    unfolding bbl_sorted_append bbl_sorted_Cons using sp(3,4) by fastforce
  moreover have "names_ok (bb_payload ` set (xs @ ?a # ?b # ys))"
    using payload_shift_names [of "bb_payload bb" "bb_payload ` set (xs @ ys)"] wf
    by (simp add: bbl_wf_def insert_commute split_first_def split_second_def)
  moreover have "distinct (map bb_addr (xs @ ?a # ?b # ys))"
    using wf fresh by (auto simp: bbl_wf_def split_first_def split_second_def)
  ultimately show "bbl_wf bs (xs @ ?a # ?b # ys)"
    using wf sp(1,2) by (auto simp: bbl_wf_def)
  show "bbl_view bs (xs @ ?a # ?b # ys) = bbl_view bs (xs @ bb # ys)"
    by (rule bbl_view_append_cong) (rule sp(5))
qed

text \<open>
  C6: \<open>backed_block_split\<close> with a limit of at least one block never changes what the list describes:
  the view stays the same, the invariant is kept, the block that is split keeps at most the limit
  rounded down to whole blocks, and a failed allocation leaves the list as it was.
\<close>

theorem backed_block_split_ok:
  assumes size: "bbl_block_size bbl = bs" and bs: "block_size_ok bs"
    and wf: "bbl_wf bs (data_blocks bbl)" and xs: "data_blocks bbl = xs @ bb # ys"
    and n: "bs \<le> n" "n < 4294967296" and fresh: "mem_fresh m (data_blocks bbl)"
  shows "\<exists>r bbl' m'. backed_block_split m bbl (bb_addr bb) n = (Inr (r, bbl'), m')
    \<and> bbl_block_size bbl' = bs \<and> bbl_wf bs (data_blocks bbl')
    \<and> bbl_view bs (data_blocks bbl') = bbl_view bs (data_blocks bbl)
    \<and> (r \<noteq> 0 \<longrightarrow> r = - ENOMEM \<and> bbl' = bbl)
    \<and> (r = 0 \<longrightarrow> (\<exists>ys'. data_blocks bbl' = xs @ bb\<lparr>bb_len := min (bb_len bb) (n - n mod bs)\<rparr> # ys'))"
proof -
  have pos: "0 < bs" using bs by (simp add: block_size_ok_def)
  define k where "k = n div bs"
  have k: "0 < k" "n - n mod bs = k * bs"
    using n pos by (auto simp: k_def pos_imp_zdiv_pos_iff minus_mod_eq_div_mult)
  have eq: "backed_block_split m bbl (bb_addr bb) n =
    (if bb_len bb \<le> k * bs then (Inr (0, bbl), m)
     else if mem_fail m (mem_next m) then (Inr (- ENOMEM, bbl), m\<lparr>mem_next := Suc (mem_next m)\<rparr>)
     else (Inr (0, bbl\<lparr>data_blocks := xs @ split_first bs k bb # split_second bs k (mem_next m) bb # ys\<rparr>),
           m\<lparr>mem_next := Suc (mem_next m)\<rparr>))"
    using wf n pos by (intro backed_block_split_eq [OF size _ _ xs]) (auto simp: bbl_wf_def k_def)
  show ?thesis
  proof (cases "bb_len bb \<le> k * bs \<or> mem_fail m (mem_next m)")
    case True
    then show ?thesis using eq k(2) size wf xs by (auto simp: min_def)
  next
    case False
    then have f: "k * bs < bb_len bb" "\<not> mem_fail m (mem_next m)" by auto
    have "\<forall>b \<in> set (xs @ bb # ys). bb_addr b < mem_next m" using fresh xs by (simp add: mem_fresh_def)
    note sl = split_list_ok [OF bs wf [unfolded xs] k(1) f(1) this]
    show ?thesis
      unfolding eq using f k(2) size xs sl by (auto simp: split_first_def min_def)
  qed
qed

section \<open>Moving blocks between lists\<close>

lemma takeWhile_addr:
  assumes "distinct (map bb_addr (xs @ b # ys))"
  shows "takeWhile (\<lambda>c. bb_addr c \<noteq> bb_addr b) (xs @ b # ys) = xs"
    "dropWhile (\<lambda>c. bb_addr c \<noteq> bb_addr b) (xs @ b # ys) = b # ys"
proof -
  have "bb_addr b \<notin> bb_addr ` set xs" using assms by simp
  then have "bb_addr c \<noteq> bb_addr b" if "c \<in> set xs" for c using that by (metis imageI)
  then show "takeWhile (\<lambda>c. bb_addr c \<noteq> bb_addr b) (xs @ b # ys) = xs"
    "dropWhile (\<lambda>c. bb_addr c \<noteq> bb_addr b) (xs @ b # ys) = b # ys"
    by (simp_all add: takeWhile_append2 dropWhile_append2)
qed

lemma cut_segment_mid:
  assumes d: "distinct (map bb_addr (pre @ seg @ post))" and ne: "seg \<noteq> []"
  shows "cut_segment (bb_addr (hd seg)) (Some (bb_addr (last seg))) (pre @ seg @ post) = Inr (seg, pre @ post)"
    "cut_segment (bb_addr (hd seg)) None (pre @ seg) = Inr (seg, pre)"
proof -
  obtain b s where s: "seg = b # s" using ne by (cases seg) auto
  obtain s' e where e: "seg = s' @ [e]" using ne by (cases seg rule: rev_cases) auto
  have d1: "distinct (map bb_addr (pre @ b # s @ post))" "distinct (map bb_addr (pre @ b # s))"
    using d s by auto
  have d2: "distinct (map bb_addr (s' @ e # post))" using d e by auto
  have he: "hd seg = b" "last seg = e" "seg @ post \<noteq> []" using s e by (simp, metis last_snoc, simp)
  have tw: "takeWhile (\<lambda>c. bb_addr c \<noteq> bb_addr b) (pre @ seg @ post) = pre"
    "dropWhile (\<lambda>c. bb_addr c \<noteq> bb_addr b) (pre @ seg @ post) = seg @ post"
    using takeWhile_addr [OF d1(1)] s by simp_all
  have tw': "takeWhile (\<lambda>c. bb_addr c \<noteq> bb_addr e) (seg @ post) = s'"
    "dropWhile (\<lambda>c. bb_addr c \<noteq> bb_addr e) (seg @ post) = e # post"
    using takeWhile_addr [OF d2] e by simp_all
  show "cut_segment (bb_addr (hd seg)) (Some (bb_addr (last seg))) (pre @ seg @ post) = Inr (seg, pre @ post)"
    unfolding cut_segment_def Let_def he tw option.case tw' using he(3) e by simp
  show "cut_segment (bb_addr (hd seg)) None (pre @ seg) = Inr (seg, pre)"
    unfolding cut_segment_def Let_def using takeWhile_addr [OF d1(2)] s by simp
qed

lemma splice_after_mid:
  assumes "P \<noteq> []" "\<forall>b \<in> set (tl P). bb_block b \<le> n" "Q \<noteq> [] \<Longrightarrow> n < bb_block (hd Q)"
  shows "splice_after seg n (P @ Q) = P @ seg @ Q"
  using assms
proof (induction seg n "P @ Q" arbitrary: P rule: splice_after.induct)
  case (2 seg n b)
  then show ?case by (cases P) (auto simp: Cons_eq_append_conv)
next
  case (3 seg n b c rest)
  then obtain P' where P: "P = b # P'" "c # rest = P' @ Q" by (cases P) auto
  show ?case
  proof (cases P')
    case Nil
    with 3 P show ?thesis by auto
  next
    case (Cons c' P'')
    with P have "c' = c" by simp
    with 3(1) [of P'] 3(3-5) P Cons show ?thesis by (auto simp: not_less)
  qed
qed auto

lemma backed_block_list_move_seg:
  assumes "data_blocks from = pre @ seg @ post" "seg \<noteq> []" "distinct (map bb_addr (data_blocks from))"
    and to: "data_blocks to = P @ Q" "P = [] \<Longrightarrow> Q = []" "\<forall>b \<in> set (tl P). bb_block b \<le> bb_block (hd seg)"
      "Q \<noteq> [] \<Longrightarrow> bb_block (hd seg) < bb_block (hd Q)"
  shows "backed_block_list_move from to (Some (bb_addr (hd seg))) (Some (bb_addr (last seg))) =
    Inr (from\<lparr>last_used := None, data_blocks := pre @ post\<rparr>, to\<lparr>last_used := None, data_blocks := P @ seg @ Q\<rparr>)"
proof -
  have "splice_after seg (bb_block (hd seg)) (data_blocks to) = P @ seg @ Q"
    using splice_after_mid [of P "bb_block (hd seg)" Q seg] to by (cases "P = []") auto
  then show ?thesis
    using assms cut_segment_mid(1) [of pre seg post] by (simp add: backed_block_list_move_def)
qed

lemma backed_block_list_move_all:
  assumes "distinct (map bb_addr (data_blocks from))"
    and to: "data_blocks from \<noteq> [] \<Longrightarrow> data_blocks to \<noteq> [] \<Longrightarrow>
      \<forall>b \<in> set (data_blocks to). bb_block b \<le> bb_block (hd (data_blocks from))"
  shows "\<exists>from' to'. backed_block_list_move from to None None = Inr (from', to') \<and>
    data_blocks from' = [] \<and> data_blocks to' = data_blocks to @ data_blocks from \<and>
    bbl_block_size from' = bbl_block_size from \<and> bbl_block_size to' = bbl_block_size to"
proof (cases "data_blocks from")
  case Nil
  then show ?thesis by (simp add: backed_block_list_move_def)
next
  case (Cons b bs)
  let ?xs = "data_blocks from"
  have "cut_segment (bb_addr b) None ?xs = Inr (?xs, [])"
    using cut_segment_mid(2) [of "[]" ?xs "[]"] assms(1) Cons by simp
  moreover have "splice_after ?xs (bb_block (hd ?xs)) (data_blocks to) = data_blocks to @ ?xs"
  proof (cases "data_blocks to")
    case (Cons t ts)
    then have "\<forall>b \<in> set (tl (data_blocks to)). bb_block b \<le> bb_block (hd ?xs)"
      using to \<open>?xs = b # bs\<close> by simp
    then show ?thesis using splice_after_mid [of "data_blocks to" _ "[]" ?xs] Cons by simp
  qed simp
  ultimately show ?thesis using Cons by (simp add: backed_block_list_move_def)
qed

section \<open>Defects the model exhibits\<close>

text \<open>
  C8: when the second merge of \<open>queue_bb\<close> succeeds, \<open>new_bb\<close> has been freed but \<open>last_used\<close> still points
  to it: the next block queued at or behind the head dereferences it.
\<close>

theorem queue_bb_dangling:
  assumes q: "queue_bb bbl new = Inr (0, bbl')"
    and old: "data_blocks bbl \<noteq> []" "bb_block (hd (data_blocks bbl)) \<le> bb_block new"
    and merged: "bb_addr new \<notin> bb_addr ` set (data_blocks bbl')"
    and new2: "bb_block (hd (data_blocks bbl')) \<le> bb_block new2" "data_blocks bbl' \<noteq> []"
  shows "queue_bb bbl' new2 = Inl Use_after_free"
proof -
  obtain d ds where d: "data_blocks bbl = d # ds" using old(1) by (cases "data_blocks bbl") auto
  with q old(2) have lu: "last_used bbl' = Some (bb_addr new)"
    by (auto simp: queue_bb_def split: prod.splits)
  show ?thesis by (rule queue_bb_freed_hint [OF lu merged new2(2,1)])
qed

text \<open>
  The length of a merged block is a 32-bit sum without an overflow check: two adjacent compatible
  blocks of together 4 GiB or more are merged into one that is 4 GiB too short.
\<close>

theorem merge_bb_overflow:
  assumes "bs \<noteq> 0" "bb_block a < bb_block b" "mergeable bs a b"
    and "4294967296 \<le> bb_len a + bb_len b" "bb_len a < 4294967296" "bb_len b < 4294967296"
  shows "merge_bb bs (Some a) (Some b) = Inr (0, Some (a\<lparr>bb_len := bb_len a + bb_len b - 4294967296\<rparr>))"
proof -
  have "u32 (bb_len a + bb_len b) = u32 (bb_len a + bb_len b - 4294967296)"
    by (simp add: u32_def)
  also have "\<dots> = bb_len a + bb_len b - 4294967296" using assms(4-6) by (simp add: u32_id)
  finally show ?thesis using assms(1-3) by (simp add: merge_bb_def mergeable_def)
qed

text \<open>
  C23: the two halves of a split file block share one \<open>strdup\<close>ed name, which destroying the list frees
  twice.
\<close>

theorem split_file_double_free:
  assumes "0 < bbl_block_size bbl" "0 \<le> n" "n < 4294967296" "data_blocks bbl = [bb]" "bb_payload bb = BB_File (Some (p, name)) off"
    and "n - n mod bbl_block_size bbl < bb_len bb" "\<not> mem_fail m (mem_next m)"
    and "backed_block_split m bbl (bb_addr bb) n = (Inr (r, bbl'), m')"
  shows "\<not> distinct (backed_block_list_destroy bbl')"
proof -
  have "align_down_u32 n (bbl_block_size bbl) = n - n mod bbl_block_size bbl"
    using assms(1-3) by (rule align_down_u32_eq)
  then show ?thesis
    using assms by (auto simp: backed_block_split_def backed_block_list_destroy_def
        backed_block_destroy_def malloc_def payload_shift_def Let_def)
qed

section \<open>Witnesses\<close>

definition ex_fill :: "nat \<Rightarrow> int \<Rightarrow> int \<Rightarrow> backed_block" where
  "ex_fill a block len = \<lparr>bb_addr = a, bb_block = block, bb_len = len, bb_payload = BB_Fill 0\<rparr>"

definition ex_bbl :: "backed_block list \<Rightarrow> backed_block_list" where
  "ex_bbl xs = \<lparr>data_blocks = xs, last_used = None, bbl_block_size = 4096\<rparr>"

definition ex_mem :: mem where
  "ex_mem = \<lparr>mem_next = 10, mem_fail = (\<lambda>_. False)\<rparr>"

lemmas ex_defs = ex_fill_def ex_bbl_def ex_mem_def bbl_wf_def bbl_sorted_def bb_ok_def bb_last_def
  ceil_div_def block_size_ok_def last_used_ok_def bb_disjoint_def names_ok_def merge_room_def

theorem queue_bb_ok_witness:
  "\<exists>bbl'. queue_bb (ex_bbl [ex_fill 0 0 4096]) (ex_fill 1 1 8192) = Inr (0, bbl') \<and> bbl_block_size bbl' = 4096
    \<and> bbl_wf 4096 (data_blocks bbl')
    \<and> bbl_view 4096 (data_blocks bbl') = bbl_view 4096 (ex_fill 1 1 8192 # [ex_fill 0 0 4096])"
  using queue_bb_ok [of "ex_bbl [ex_fill 0 0 4096]" 4096 "ex_fill 1 1 8192"] by (simp add: ex_defs)

theorem backed_block_split_ok_witness:
  "\<exists>r bbl' m'. backed_block_split ex_mem (ex_bbl [ex_fill 0 0 12288]) 0 5000 = (Inr (r, bbl'), m')
    \<and> bbl_wf 4096 (data_blocks bbl')
    \<and> bbl_view 4096 (data_blocks bbl') = bbl_view 4096 [ex_fill 0 0 12288]"
  using backed_block_split_ok [of "ex_bbl [ex_fill 0 0 12288]" 4096 "[]" "ex_fill 0 0 12288" "[]" 5000 ex_mem]
  by (auto simp: ex_defs mem_fresh_def)

theorem queue_bb_dangling_witness:
  "queue_bb (\<lparr>data_blocks = [ex_fill 0 0 8192], last_used = Some 1, bbl_block_size = 4096\<rparr>) (ex_fill 2 2 4096)
    = Inl Use_after_free"
proof -
  have "queue_bb (ex_bbl [ex_fill 0 0 4096]) (ex_fill 1 1 4096) =
      Inr (0, \<lparr>data_blocks = [ex_fill 0 0 8192], last_used = Some 1, bbl_block_size = 4096\<rparr>)"
    by (simp add: ex_fill_def ex_bbl_def queue_bb_def queue_start_def queue_link_def merge_bb_def
        bb_type_def merge_compatible_def u32_def)
  from queue_bb_dangling [OF this] show ?thesis by (simp add: ex_fill_def ex_bbl_def)
qed

theorem merge_bb_overflow_witness:
  "merge_bb 4096 (Some (ex_fill 0 0 2147483648)) (Some (ex_fill 1 524288 2147483648)) =
     Inr (0, Some (ex_fill 0 0 0))"
  using merge_bb_overflow [of 4096 "ex_fill 0 0 2147483648" "ex_fill 1 524288 2147483648"]
  by (simp add: ex_fill_def mergeable_def bb_type_def merge_compatible_def u32_def)

definition ex_file_bb :: backed_block where
  "ex_file_bb = \<lparr>bb_addr = 0, bb_block = 0, bb_len = 8192, bb_payload = BB_File (Some (1, ''system.img'')) 0\<rparr>"

theorem split_file_double_free_witness:
  "\<exists>bbl' m'. backed_block_split ex_mem (ex_bbl [ex_file_bb]) 0 4096 = (Inr (0, bbl'), m')
     \<and> \<not> distinct (backed_block_list_destroy bbl')"
proof -
  obtain bbl' m' where "backed_block_split ex_mem (ex_bbl [ex_file_bb]) 0 4096 = (Inr (0, bbl'), m')"
    by (simp add: ex_file_bb_def ex_bbl_def ex_mem_def backed_block_split_def malloc_def
        align_down_u32_def u32_def)
  with split_file_double_free [of "ex_bbl [ex_file_bb]" 4096 ex_file_bb 1 "''system.img''" 0 ex_mem 0 bbl' m']
  show ?thesis by (simp add: ex_file_bb_def ex_bbl_def ex_mem_def)
qed

end
