(* ===== verification/Sparse_Format.thy ===== *)
theory Sparse_Format
  imports Platform
begin

text \<open>
  The on-disk structures of core/libsparse/sparse_format.h: the file header and the chunk header, as
  records, with the bytes the little-endian packed structs occupy. Reading back what was written
  gives the same fields (\<open>parse_sparse_header_bytes\<close>, \<open>parse_chunk_header_bytes\<close>).
\<close>

record sparse_header =
  magic :: int
  major_version :: int
  minor_version :: int
  file_hdr_sz :: int
  chunk_hdr_sz :: int
  blk_sz :: int
  total_blks :: int
  total_chunks :: int
  image_checksum :: int

record chunk_header =
  chunk_type :: int
  reserved1 :: int
  chunk_sz :: int
  total_sz :: int

definition SPARSE_HEADER_MAGIC :: int where "SPARSE_HEADER_MAGIC = 0xed26ff3a"
definition CHUNK_TYPE_RAW :: int where "CHUNK_TYPE_RAW = 0xCAC1"
definition CHUNK_TYPE_FILL :: int where "CHUNK_TYPE_FILL = 0xCAC2"
definition CHUNK_TYPE_DONT_CARE :: int where "CHUNK_TYPE_DONT_CARE = 0xCAC3"
definition CHUNK_TYPE_CRC32 :: int where "CHUNK_TYPE_CRC32 = 0xCAC4"

definition SPARSE_HEADER_LEN :: int where "SPARSE_HEADER_LEN = 28"
definition CHUNK_HEADER_LEN :: int where "CHUNK_HEADER_LEN = 12"
definition SPARSE_HEADER_MAJOR_VER :: int where "SPARSE_HEADER_MAJOR_VER = 1"
definition SPARSE_HEADER_MINOR_VER :: int where "SPARSE_HEADER_MINOR_VER = 0"

lemmas format_defs = SPARSE_HEADER_MAGIC_def CHUNK_TYPE_RAW_def CHUNK_TYPE_FILL_def
  CHUNK_TYPE_DONT_CARE_def CHUNK_TYPE_CRC32_def SPARSE_HEADER_LEN_def CHUNK_HEADER_LEN_def
  SPARSE_HEADER_MAJOR_VER_def SPARSE_HEADER_MINOR_VER_def

definition sparse_header_bytes :: "sparse_header \<Rightarrow> byte list" where
  "sparse_header_bytes h =
     le_bytes 4 (magic h) @ le_bytes 2 (major_version h) @ le_bytes 2 (minor_version h)
     @ le_bytes 2 (file_hdr_sz h) @ le_bytes 2 (chunk_hdr_sz h) @ le_bytes 4 (blk_sz h)
     @ le_bytes 4 (total_blks h) @ le_bytes 4 (total_chunks h) @ le_bytes 4 (image_checksum h)"

definition chunk_header_bytes :: "chunk_header \<Rightarrow> byte list" where
  "chunk_header_bytes h =
     le_bytes 2 (chunk_type h) @ le_bytes 2 (reserved1 h) @ le_bytes 4 (chunk_sz h)
     @ le_bytes 4 (total_sz h)"

definition parse_sparse_header :: "byte list \<Rightarrow> sparse_header" where
  "parse_sparse_header b =
     \<lparr>magic = le_val (bslice 0 4 b), major_version = le_val (bslice 4 2 b),
      minor_version = le_val (bslice 6 2 b), file_hdr_sz = le_val (bslice 8 2 b),
      chunk_hdr_sz = le_val (bslice 10 2 b), blk_sz = le_val (bslice 12 4 b),
      total_blks = le_val (bslice 16 4 b), total_chunks = le_val (bslice 20 4 b),
      image_checksum = le_val (bslice 24 4 b)\<rparr>"

definition parse_chunk_header :: "byte list \<Rightarrow> chunk_header" where
  "parse_chunk_header b =
     \<lparr>chunk_type = le_val (bslice 0 2 b), reserved1 = le_val (bslice 2 2 b),
      chunk_sz = le_val (bslice 4 4 b), total_sz = le_val (bslice 8 4 b)\<rparr>"

lemma length_sparse_header_bytes [simp]: "length (sparse_header_bytes h) = 28"
  by (simp add: sparse_header_bytes_def)

lemma length_chunk_header_bytes [simp]: "length (chunk_header_bytes h) = 12"
  by (simp add: chunk_header_bytes_def)

lemma parse_chunk_header_bytes:
  "parse_chunk_header (chunk_header_bytes h) =
     \<lparr>chunk_type = u16 (chunk_type h), reserved1 = u16 (reserved1 h),
      chunk_sz = u32 (chunk_sz h), total_sz = u32 (total_sz h)\<rparr>"
  by (simp add: parse_chunk_header_def chunk_header_bytes_def bslice_def le_val_le_bytes u16_def u32_def)

lemma parse_sparse_header_bytes:
  "parse_sparse_header (sparse_header_bytes h) =
     \<lparr>magic = u32 (magic h), major_version = u16 (major_version h), minor_version = u16 (minor_version h),
      file_hdr_sz = u16 (file_hdr_sz h), chunk_hdr_sz = u16 (chunk_hdr_sz h), blk_sz = u32 (blk_sz h),
      total_blks = u32 (total_blks h), total_chunks = u32 (total_chunks h),
      image_checksum = u32 (image_checksum h)\<rparr>"
  by (simp add: parse_sparse_header_def sparse_header_bytes_def bslice_def le_val_le_bytes u16_def u32_def)

end
