(* ===== verification/Output_File.thy ===== *)
theory Output_File
  imports Sparse_Format Sparse_Crc32
begin

text \<open>
  The writer of core/libsparse/output_file.c. A \<open>struct output_file\<close> holds a table of sink operations
  (\<open>struct output_file_ops\<close>: plain descriptor, zlib stream, callback) and selects one of two tables of
  chunk operations (\<open>struct sparse_file_ops\<close>: Android sparse format, plain image). The record
  \<open>output_file\<close> is polymorphic in the state of its sink; the sink tables are records of functions on
  that state, as in the code.

  zlib is not part of the sources: its functions are the fields of the record \<open>zlib\<close>, a parameter of
  the gz sink. Messages to \<open>stderr\<close> are not modelled.

  The locales \<open>byte_writer\<close> and \<open>byte_sink\<close> are the contract between the chunk writers and the sinks:
  what a sink has taken after a successful write, and after a skip. The chunk writers' lemmas are
  proved in them once; the descriptor sink interprets them here, the counting callback in \<open>Sparse_File\<close>.
\<close>

section \<open>Sinks\<close>

record 's output_file_ops =
  op_skip :: "'s \<Rightarrow> int \<Rightarrow> int \<times> 's"
  op_pad :: "'s \<Rightarrow> int \<Rightarrow> int \<times> 's"
  op_write :: "'s \<Rightarrow> byte list \<Rightarrow> int \<Rightarrow> int \<times> 's"
  op_close :: "'s \<Rightarrow> 's"

text \<open>A descriptor. \<open>write\<close> with a length above \<open>INT_MAX\<close> reaches the kernel as a huge count and fails.\<close>

definition file_skip :: "outfile \<Rightarrow> int \<Rightarrow> int \<times> outfile" where
  "file_skip s cnt =
     (case out_lseek_to s (i64 (o_pos s + cnt)) of
        (ret, s') \<Rightarrow> if ret < 0 then (-1, s') else (0, s'))"

definition file_pad :: "outfile \<Rightarrow> int \<Rightarrow> int \<times> outfile" where
  "file_pad s len =
     (case posix_ftruncate s len of (ret, s') \<Rightarrow> if ret < 0 then (ret, s') else (0, s'))"

definition file_write :: "outfile \<Rightarrow> byte list \<Rightarrow> int \<Rightarrow> int \<times> outfile" where
  "file_write s data len =
     (if len < 0 then (-1, s)
      else (case posix_write s (take (nat len) data) of
              (Inl e, s') \<Rightarrow> (-1, s')
            | (Inr n, s') \<Rightarrow> if int n < len then (-1, s') else (0, s')))"

definition file_close :: "outfile \<Rightarrow> outfile" where
  "file_close s = s"

definition file_ops :: "outfile output_file_ops" where
  "file_ops = \<lparr>op_skip = file_skip, op_pad = file_pad, op_write = file_write, op_close = file_close\<rparr>"

text \<open>
  A zlib stream. The state is the \<open>gzFile\<close>, \<open>None\<close> when \<open>gzdopen\<close> failed; the code ignores that failure
  and passes the null stream on.
\<close>

record 'z zlib =
  gzdopen :: "int \<Rightarrow> 'z option"
  gzseek_cur :: "'z option \<Rightarrow> int \<Rightarrow> int \<times> 'z option"
  gzseek_set :: "'z option \<Rightarrow> int \<Rightarrow> int \<times> 'z option"
  gztell :: "'z option \<Rightarrow> int"
  gzwrite :: "'z option \<Rightarrow> byte list \<Rightarrow> int \<times> 'z option"
  gzclose :: "'z option \<Rightarrow> 'z option"

definition gz_file_open :: "'z zlib \<Rightarrow> int \<Rightarrow> int \<Rightarrow> int \<times> 'z option" where
  "gz_file_open z errno fd =
     (case gzdopen z fd of None \<Rightarrow> (- errno, None) | Some g \<Rightarrow> (0, Some g))"

definition gz_file_skip :: "'z zlib \<Rightarrow> 'z option \<Rightarrow> int \<Rightarrow> int \<times> 'z option" where
  "gz_file_skip z s cnt =
     (case gzseek_cur z s cnt of (ret, s') \<Rightarrow> if ret < 0 then (-1, s') else (0, s'))"

definition gz_file_pad :: "'z zlib \<Rightarrow> 'z option \<Rightarrow> int \<Rightarrow> int \<times> 'z option" where
  "gz_file_pad z s len =
     (let ret = gztell z s
      in if ret < 0 then (-1, s)
         else if len \<le> ret then (0, s)
         else (case gzseek_set z s (len - 1) of
                 (ret, s') \<Rightarrow>
                   if ret < 0 then (-1, s') else (0, snd (gzwrite z s' [0]))))"

definition gz_file_write :: "'z zlib \<Rightarrow> 'z option \<Rightarrow> byte list \<Rightarrow> int \<Rightarrow> int \<times> 'z option" where
  "gz_file_write z s data len =
     (case gzwrite z s (take (nat len) data) of
        (ret, s') \<Rightarrow> if ret < 0 then (-1, s') else if ret < len then (-1, s') else (0, s'))"

definition gz_file_close :: "'z zlib \<Rightarrow> 'z option \<Rightarrow> 'z option" where
  "gz_file_close z s = gzclose z s"

definition gz_file_ops :: "'z zlib \<Rightarrow> 'z option output_file_ops" where
  "gz_file_ops z = \<lparr>op_skip = gz_file_skip z, op_pad = gz_file_pad z, op_write = gz_file_write z,
     op_close = gz_file_close z\<rparr>"

text \<open>A callback, called with the data and its length, or with \<open>NULL\<close> (\<open>None\<close>) to skip a length.\<close>

type_synonym 'p callback = "'p \<Rightarrow> byte list option \<Rightarrow> int \<Rightarrow> int \<times> 'p"

definition int_max :: int where "int_max = 2147483647"

function callback_file_skip :: "'p callback \<Rightarrow> 'p \<Rightarrow> int \<Rightarrow> int \<times> 'p" where
  "callback_file_skip cb priv off =
     (if off > 0
      then (let to_write = min off int_max
            in case cb priv None to_write of
                 (ret, priv') \<Rightarrow>
                   if ret < 0 then (ret, priv') else callback_file_skip cb priv' (off - to_write))
      else (0, priv))"
  by pat_completeness auto
termination
  by (relation "measure (\<lambda>(cb, priv, off). nat off)") (auto simp: int_max_def)

declare callback_file_skip.simps [simp del]

definition callback_file_pad :: "'p \<Rightarrow> int \<Rightarrow> int \<times> 'p" where
  "callback_file_pad priv len = (-1, priv)"

definition callback_file_write :: "'p callback \<Rightarrow> 'p \<Rightarrow> byte list \<Rightarrow> int \<Rightarrow> int \<times> 'p" where
  "callback_file_write cb priv data len = cb priv (Some (take (nat len) data)) len"

definition callback_file_ops :: "'p callback \<Rightarrow> 'p output_file_ops" where
  "callback_file_ops cb = \<lparr>op_skip = callback_file_skip cb, op_pad = callback_file_pad,
     op_write = callback_file_write cb, op_close = (\<lambda>priv. priv)\<rparr>"

section \<open>The output file\<close>

record 's output_file =
  cur_out_ptr :: int
  chunk_cnt :: int
  crc32 :: "32 word"
  ops :: "'s output_file_ops"
  is_sparse :: bool
  use_crc :: bool
  block_size :: int
  out_len :: int
  fill_buf :: "byte list"
  sink :: 's

definition out_write :: "'s output_file \<Rightarrow> byte list \<Rightarrow> int \<Rightarrow> int \<times> 's output_file" where
  "out_write out data len =
     (case op_write (ops out) (sink out) data len of (ret, s) \<Rightarrow> (ret, out\<lparr>sink := s\<rparr>))"

definition out_skip :: "'s output_file \<Rightarrow> int \<Rightarrow> int \<times> 's output_file" where
  "out_skip out cnt =
     (case op_skip (ops out) (sink out) cnt of (ret, s) \<Rightarrow> (ret, out\<lparr>sink := s\<rparr>))"

text \<open>The buffer of \<open>block_size\<close> zeros allocated by \<open>output_file_init\<close>.\<close>

definition zero_buf :: "'s output_file \<Rightarrow> byte list" where
  "zero_buf out = replicate (nat (block_size out)) 0"

section \<open>The sparse format\<close>

definition write_sparse_skip_chunk :: "'s output_file \<Rightarrow> int \<Rightarrow> (int \<times> 's output_file) res" where
  "write_sparse_skip_chunk out skip_len =
     (if block_size out = 0 then Inl Div_by_zero
      else if skip_len mod block_size out \<noteq> 0 then Inr (-1, out)
      else (case out_write out (chunk_header_bytes
                   \<lparr>chunk_type = CHUNK_TYPE_DONT_CARE, reserved1 = 0,
                    chunk_sz = c_div skip_len (block_size out), total_sz = CHUNK_HEADER_LEN\<rparr>)
                   CHUNK_HEADER_LEN of
              (ret, out') \<Rightarrow>
                if ret < 0 then Inr (-1, out')
                else Inr (0, out'\<lparr>cur_out_ptr := i64 (cur_out_ptr out' + skip_len),
                                 chunk_cnt := u32 (chunk_cnt out' + 1)\<rparr>)))"

definition write_sparse_fill_chunk ::
    "'s output_file \<Rightarrow> int \<Rightarrow> int \<Rightarrow> (int \<times> 's output_file) res" where
  "write_sparse_fill_chunk out len fill_val =
     (if block_size out = 0 then Inl Div_by_zero
      else
        let rnd_up_len = i32 (align_u32 len (block_size out))
        in case out_write out (chunk_header_bytes
                  \<lparr>chunk_type = CHUNK_TYPE_FILL, reserved1 = 0,
                   chunk_sz = u32 rnd_up_len div block_size out, total_sz = CHUNK_HEADER_LEN + 4\<rparr>)
                  CHUNK_HEADER_LEN of
             (ret, out1) \<Rightarrow>
               if ret < 0 then Inr (-1, out1)
               else (case out_write out1 (le_bytes 4 fill_val) 4 of
                       (ret, out2) \<Rightarrow>
                         if ret < 0 then Inr (-1, out2)
                         else Inr (0, out2\<lparr>
                           crc32 := (if use_crc out2
                                     then ((\<lambda>c. sparse_crc32 c (le_bytes 4 fill_val))
                                             ^^ nat (block_size out2 div 4)) (crc32 out2)
                                     else crc32 out2),
                           cur_out_ptr := i64 (cur_out_ptr out2 + rnd_up_len),
                           chunk_cnt := u32 (chunk_cnt out2 + 1)\<rparr>)))"

text \<open>
  \<open>data\<close> are the bytes from the data pointer on; the callers provide at least \<open>len\<close> of them. The
  checksum loop runs over \<open>(int) len\<close> bytes, so a length above \<open>INT_MAX\<close> runs out of the buffer.
\<close>

definition write_sparse_data_chunk ::
    "'s output_file \<Rightarrow> int \<Rightarrow> byte list \<Rightarrow> (int \<times> 's output_file) res" where
  "write_sparse_data_chunk out len data =
     (if block_size out = 0 then Inl Div_by_zero
      else
        let rnd_up_len = i32 (align_u32 len (block_size out));
            zero_len = i32 (rnd_up_len - len)
        in case out_write out (chunk_header_bytes
                  \<lparr>chunk_type = CHUNK_TYPE_RAW, reserved1 = 0,
                   chunk_sz = u32 rnd_up_len div block_size out,
                   total_sz = u32 (CHUNK_HEADER_LEN + rnd_up_len)\<rparr>)
                  CHUNK_HEADER_LEN of
             (ret, out1) \<Rightarrow>
               if ret < 0 then Inr (-1, out1)
               else (case out_write out1 data (i32 len) of
                       (ret, out2) \<Rightarrow>
                         if ret < 0 then Inr (-1, out2)
                         else (case (if zero_len \<noteq> 0 then out_write out2 (zero_buf out2) zero_len
                                     else (0, out2)) of
                                 (ret, out3) \<Rightarrow>
                                   if ret < 0 then Inr (-1, out3)
                                   else if use_crc out3 \<and> i32 len < 0 then Inl Out_of_bounds
                                   else Inr (0, out3\<lparr>
                                     crc32 := (if use_crc out3
                                               then sparse_crc32 (sparse_crc32 (crc32 out3) (take (nat len) data))
                                                      (take (nat zero_len) (zero_buf out3))
                                               else crc32 out3),
                                     cur_out_ptr := i64 (cur_out_ptr out3 + rnd_up_len),
                                     chunk_cnt := u32 (chunk_cnt out3 + 1)\<rparr>))))"

text \<open>The result of the second write is not looked at.\<close>

definition write_sparse_end_chunk :: "'s output_file \<Rightarrow> int \<times> 's output_file" where
  "write_sparse_end_chunk out =
     (if use_crc out
      then (case out_write out (chunk_header_bytes
                   \<lparr>chunk_type = CHUNK_TYPE_CRC32, reserved1 = 0, chunk_sz = 0,
                    total_sz = CHUNK_HEADER_LEN + 4\<rparr>) CHUNK_HEADER_LEN of
              (ret, out1) \<Rightarrow>
                if ret < 0 then (ret, out1)
                else (case out_write out1 (le_bytes 4 (uint (crc32 out1))) 4 of
                        (_, out2) \<Rightarrow> (0, out2\<lparr>chunk_cnt := u32 (chunk_cnt out2 + 1)\<rparr>)))
      else (0, out))"

section \<open>The plain image\<close>

definition write_normal_data_chunk ::
    "'s output_file \<Rightarrow> int \<Rightarrow> byte list \<Rightarrow> (int \<times> 's output_file) res" where
  "write_normal_data_chunk out len data =
     (if block_size out = 0 then Inl Div_by_zero
      else
        let rnd_up_len = align_u32 len (block_size out)
        in case out_write out data (i32 len) of
             (ret, out1) \<Rightarrow>
               if ret < 0 then Inr (ret, out1)
               else if len < rnd_up_len then Inr (out_skip out1 (rnd_up_len - len))
               else Inr (ret, out1))"

text \<open>The fill loop; with a block size of 0 it would write nothing for ever.\<close>

function write_fill_loop :: "'s output_file \<Rightarrow> int \<Rightarrow> (int \<times> 's output_file) res" where
  "write_fill_loop out len =
     (if len \<le> 0 then Inr (0, out)
      else if block_size out \<le> 0 then Inl Diverges
      else
        let write_len = min len (block_size out)
        in case out_write out (fill_buf out) (i32 write_len) of
             (ret, out1) \<Rightarrow>
               if ret < 0 then Inr (ret, out1) else write_fill_loop out1 (len - write_len))"
  by pat_completeness auto
termination
  by (relation "measure (\<lambda>(out, len). nat len)") auto

declare write_fill_loop.simps [simp del]

definition write_normal_fill_chunk ::
    "'s output_file \<Rightarrow> int \<Rightarrow> int \<Rightarrow> (int \<times> 's output_file) res" where
  "write_normal_fill_chunk out len fill_val =
     (let n = nat (block_size out div 4)
      in write_fill_loop
           (out\<lparr>fill_buf := concat (replicate n (le_bytes 4 fill_val)) @ drop (4 * n) (fill_buf out)\<rparr>) len)"

definition write_normal_skip_chunk :: "'s output_file \<Rightarrow> int \<Rightarrow> int \<times> 's output_file" where
  "write_normal_skip_chunk out len = out_skip out len"

definition write_normal_end_chunk :: "'s output_file \<Rightarrow> int \<times> 's output_file" where
  "write_normal_end_chunk out =
     (case op_pad (ops out) (sink out) (out_len out) of (ret, s) \<Rightarrow> (ret, out\<lparr>sink := s\<rparr>))"

section \<open>Opening, closing and the dispatch\<close>

text \<open>Closing writes the end chunk, ignores its result and hands the sink back.\<close>

definition output_file_close :: "'s output_file \<Rightarrow> 's" where
  "output_file_close out =
     (case (if is_sparse out then write_sparse_end_chunk out else write_normal_end_chunk out) of
        (_, out') \<Rightarrow> op_close (ops out') (sink out'))"

definition calloc_buf :: "mem \<Rightarrow> int \<Rightarrow> bool \<times> mem" where
  "calloc_buf m n =
     (if n < 0 then (False, m) else (case malloc m of (None, m') \<Rightarrow> (False, m') | (Some _, m') \<Rightarrow> (True, m')))"

definition sparse_file_header :: "'s output_file \<Rightarrow> int \<Rightarrow> sparse_header" where
  "sparse_file_header out chunks =
     \<lparr>magic = SPARSE_HEADER_MAGIC, major_version = SPARSE_HEADER_MAJOR_VER,
      minor_version = SPARSE_HEADER_MINOR_VER, file_hdr_sz = SPARSE_HEADER_LEN,
      chunk_hdr_sz = CHUNK_HEADER_LEN, blk_sz = block_size out,
      total_blks = c_div (out_len out) (block_size out),
      total_chunks = (if use_crc out then chunks + 1 else chunks), image_checksum = 0\<rparr>"

definition output_file_init ::
    "mem \<Rightarrow> 's output_file_ops \<Rightarrow> 's \<Rightarrow> int \<Rightarrow> int \<Rightarrow> bool \<Rightarrow> int \<Rightarrow> bool \<Rightarrow> (int \<times> 's output_file) res \<times> mem" where
  "output_file_init m os s bsize len sparse chunks crc =
     (let out = \<lparr>cur_out_ptr = 0, chunk_cnt = 0, crc32 = 0, ops = os, is_sparse = sparse, use_crc = crc,
                 block_size = u32 bsize, out_len = len, fill_buf = replicate (nat (u32 bsize)) 0, sink = s\<rparr>
      in case calloc_buf m (i32 bsize) of
           (False, m1) \<Rightarrow> (Inr (- ENOMEM, out), m1)
         | (True, m1) \<Rightarrow>
             (case calloc_buf m1 (i32 bsize) of
                (False, m2) \<Rightarrow> (Inr (- ENOMEM, out), m2)
              | (True, m2) \<Rightarrow>
                  (if \<not> sparse then Inr (0, out)
                   else if block_size out = 0 then Inl Div_by_zero
                   else (case out_write out (sparse_header_bytes (sparse_file_header out chunks))
                                SPARSE_HEADER_LEN of
                           (ret, out') \<Rightarrow> if ret < 0 then Inr (ret, out') else Inr (0, out')), m2)))"

text \<open>
  The result of an open function: the output file, or the sink alone when the code returns \<open>NULL\<close>.
\<close>

definition output_file_open ::
    "mem \<Rightarrow> 's output_file_ops \<Rightarrow> 's \<Rightarrow> int \<Rightarrow> int \<Rightarrow> bool \<Rightarrow> int \<Rightarrow> bool \<Rightarrow> ('s + 's output_file) res \<times> mem" where
  "output_file_open m os s bsize len sparse chunks crc =
     (case malloc m of
        (None, m1) \<Rightarrow> (Inr (Inl s), m1)
      | (Some _, m1) \<Rightarrow>
          (case output_file_init m1 os s bsize len sparse chunks crc of
             (r, m2) \<Rightarrow>
               (rbind r (\<lambda>(ret, out). Inr (if ret < 0 then Inl (sink out) else Inr out)), m2)))"

definition output_file_open_callback ::
    "mem \<Rightarrow> 'p callback \<Rightarrow> 'p \<Rightarrow> int \<Rightarrow> int \<Rightarrow> bool \<Rightarrow> int \<Rightarrow> bool \<Rightarrow> ('p + 'p output_file) res \<times> mem" where
  "output_file_open_callback m cb priv = output_file_open m (callback_file_ops cb) priv"

definition output_file_open_fd ::
    "mem \<Rightarrow> outfile \<Rightarrow> int \<Rightarrow> int \<Rightarrow> bool \<Rightarrow> int \<Rightarrow> bool \<Rightarrow> (outfile + outfile output_file) res \<times> mem" where
  "output_file_open_fd m f = output_file_open m file_ops f"

text \<open>The same entry point with \<open>gz\<close> set; the result of \<open>open\<close> is ignored.\<close>

definition output_file_open_fd_gz ::
    "'z zlib \<Rightarrow> int \<Rightarrow> mem \<Rightarrow> int \<Rightarrow> int \<Rightarrow> int \<Rightarrow> bool \<Rightarrow> int \<Rightarrow> bool
     \<Rightarrow> ('z option + 'z option output_file) res \<times> mem" where
  "output_file_open_fd_gz z errno m fd =
     output_file_open m (gz_file_ops z) (snd (gz_file_open z errno fd))"

definition write_data_chunk :: "'s output_file \<Rightarrow> int \<Rightarrow> byte list \<Rightarrow> (int \<times> 's output_file) res" where
  "write_data_chunk out len data =
     (if is_sparse out then write_sparse_data_chunk out len data
      else write_normal_data_chunk out len data)"

definition write_fill_chunk :: "'s output_file \<Rightarrow> int \<Rightarrow> int \<Rightarrow> (int \<times> 's output_file) res" where
  "write_fill_chunk out len fill_val =
     (if is_sparse out then write_sparse_fill_chunk out len fill_val
      else write_normal_fill_chunk out len fill_val)"

definition write_skip_chunk :: "'s output_file \<Rightarrow> int \<Rightarrow> (int \<times> 's output_file) res" where
  "write_skip_chunk out len =
     (if is_sparse out then write_sparse_skip_chunk out len
      else Inr (write_normal_skip_chunk out len))"

text \<open>
  Mapping a descriptor: the offset is rounded down to a page, the length is a C \<open>int\<close>. A length that
  wraps maps less than the write then reads.
\<close>

definition write_fd_chunk ::
    "env \<Rightarrow> 's output_file \<Rightarrow> int \<Rightarrow> int \<Rightarrow> int \<Rightarrow> (int \<times> 's output_file) res" where
  "write_fd_chunk E out len fd offset =
     (let aligned_offset = offset - offset mod 4096;
          aligned_diff = offset - aligned_offset;
          buffer_size = i32 (u32 (len + aligned_diff))
      in if buffer_size < 0 then Inr (- ENOMEM, out)
         else if buffer_size = 0 \<or> aligned_offset < 0 then Inr (- EINVAL, out)
         else (case env_fd E fd of
                 Inl e \<Rightarrow> Inr (- e, out)
               | Inr d \<Rightarrow>
                   if buffer_size < len + aligned_diff then Inl Out_of_bounds
                   else rbind (mapped_bytes d (nat offset) (nat len)) (\<lambda>data.
                          write_data_chunk out len data)))"

definition EFAULT :: int where "EFAULT = 14"

definition write_file_chunk ::
    "env \<Rightarrow> 's output_file \<Rightarrow> int \<Rightarrow> string option \<Rightarrow> int \<Rightarrow> (int \<times> 's output_file) res" where
  "write_file_chunk E out len file offset =
     (case file of
        None \<Rightarrow> Inr (- EFAULT, out)
      | Some name \<Rightarrow>
          (case env_open E name of
             Inl e \<Rightarrow> Inr (- e, out)
           | Inr fd \<Rightarrow> write_fd_chunk E out len fd offset))"

section \<open>Chunks\<close>

text \<open>
  What the writers emit, abstractly: whole blocks of data, a number of blocks filled with a 32-bit
  value, or a number of blocks of no interest; with its encoding in the sparse format and the bytes
  it stands for in a plain image.
\<close>

datatype chunk = C_raw "byte list" | C_fill int int | C_skip int

definition pad_block :: "int \<Rightarrow> byte list \<Rightarrow> byte list" where
  "pad_block bs d = d @ replicate (nat (ceil_div (int (length d)) bs * bs) - length d) 0"

fun encode_chunk :: "int \<Rightarrow> chunk \<Rightarrow> byte list" where
  "encode_chunk bs (C_raw d) = chunk_header_bytes
     \<lparr>chunk_type = CHUNK_TYPE_RAW, reserved1 = 0, chunk_sz = int (length d) div bs,
      total_sz = CHUNK_HEADER_LEN + int (length d)\<rparr> @ d"
| "encode_chunk bs (C_fill n v) = chunk_header_bytes
     \<lparr>chunk_type = CHUNK_TYPE_FILL, reserved1 = 0, chunk_sz = n, total_sz = CHUNK_HEADER_LEN + 4\<rparr> @ le_bytes 4 v"
| "encode_chunk bs (C_skip n) = chunk_header_bytes
     \<lparr>chunk_type = CHUNK_TYPE_DONT_CARE, reserved1 = 0, chunk_sz = n, total_sz = CHUNK_HEADER_LEN\<rparr>"

fun expand_chunk :: "int \<Rightarrow> chunk \<Rightarrow> byte list" where
  "expand_chunk bs (C_raw d) = d"
| "expand_chunk bs (C_fill n v) = fill_bytes (nat (n * bs)) v"
| "expand_chunk bs (C_skip n) = replicate (nat (n * bs)) 0"

lemma pad_block_dvd: "0 < bs \<Longrightarrow> bs dvd int (length d) \<Longrightarrow> pad_block bs d = d"
  by (simp add: pad_block_def ceil_div_dvd)

lemma length_pad_block: "0 < bs \<Longrightarrow> int (length (pad_block bs d)) = ceil_div (int (length d)) bs * bs"
  using ceil_div_bounds(1) [of bs "int (length d)"] by (auto simp: pad_block_def)

lemma length_fill_bytes [simp]: "length (fill_bytes n v) = n"
proof -
  have "n \<le> 4 + n div 4 * 4" by arith
  then show ?thesis by (simp add: fill_bytes_def length_concat sum_list_replicate)
qed

lemma concat_replicate_fill: "concat (replicate n (le_bytes 4 v)) = fill_bytes (4 * n) v"
proof -
  have "replicate (n + 1) (le_bytes 4 v) = replicate n (le_bytes 4 v) @ [le_bytes 4 v]"
    by (simp only: replicate_add) simp
  then show ?thesis by (simp add: fill_bytes_def length_concat sum_list_replicate del: le_bytes.simps)
qed

lemma fill_bytes_blocks:
  assumes "4 dvd b"
  shows "concat (replicate n (concat (replicate (b div 4) (le_bytes 4 v)))) = fill_bytes (n * b) v"
proof -
  have "concat (replicate n (concat (replicate k x))) = concat (replicate (n * k) x)" for k and x :: "byte list"
    by (induction n) (simp_all add: replicate_add)
  then have "concat (replicate n (concat (replicate (b div 4) (le_bytes 4 v)))) = fill_bytes (4 * (n * (b div 4))) v"
    by (simp only: concat_replicate_fill [symmetric])
  moreover have "4 * (n * (b div 4)) = n * b" using assms by auto
  ultimately show ?thesis by simp
qed

text \<open>No call of \<open>write\<close> moves more than this.\<close>

definition max_chunk :: int where "max_chunk = int max_rw_count"

text \<open>What no write changes of an output file.\<close>

definition out_cfg :: "'s output_file \<Rightarrow> 's output_file_ops \<times> bool \<times> bool \<times> int \<times> int \<times> nat" where
  "out_cfg out = (ops out, is_sparse out, use_crc out, block_size out, out_len out, length (fill_buf out))"

section \<open>The contract of a sink\<close>

lemma write_fill_loop_step:
  assumes "0 < L" "min L bs = bs" "0 < bs" "i32 bs = bs" "block_size out = bs"
    "out_write out (fill_buf out) bs = (0, out')"
  shows "write_fill_loop out L = write_fill_loop out' (L - bs)"
  using assms by (subst write_fill_loop.simps) (simp add: Let_def)

locale byte_writer =
  fixes os :: "'s output_file_ops" and good :: "'s \<Rightarrow> bool" and taken :: "'s \<Rightarrow> 'a"
    and app :: "'a \<Rightarrow> byte list \<Rightarrow> 'a" and size_of :: "'a \<Rightarrow> int"
  assumes app_app: "app (app a xs) ys = app a (xs @ ys)"
    and size_app: "size_of (app a xs) = size_of a + int (length xs)"
    and write_ok: "good s \<Longrightarrow> 0 \<le> n \<Longrightarrow> n \<le> max_chunk \<Longrightarrow> n \<le> int (length d) \<Longrightarrow>
      size_of (taken s) + n < 9223372036854775808 \<Longrightarrow>
      \<exists>s'. op_write os s d n = (0, s') \<and> good s' \<and> taken s' = app (taken s) (take (nat n) d)"
begin

lemma out_write_ok:
  assumes "ops out = os" "good (sink out)" "0 \<le> n" "n \<le> max_chunk" "n \<le> int (length d)"
    "size_of (taken (sink out)) + n < 9223372036854775808"
  shows "\<exists>s'. out_write out d n = (0, out\<lparr>sink := s'\<rparr>) \<and> good s'
    \<and> taken s' = app (taken (sink out)) (take (nat n) d)"
  using write_ok [OF assms(2-6)] assms(1) by (auto simp: out_write_def)

lemma write_sparse_skip_chunk_ok:
  assumes out: "ops out = os" "good (sink out)" "block_size out = bs" and n: "0 < bs" "0 \<le> n"
    and size: "size_of (taken (sink out)) + 12 < 9223372036854775808"
  shows "\<exists>out'. write_sparse_skip_chunk out (n * bs) = Inr (0, out') \<and> out_cfg out' = out_cfg out
    \<and> good (sink out') \<and> taken (sink out') = app (taken (sink out)) (encode_chunk bs (C_skip n))"
proof -
  let ?h = "chunk_header_bytes \<lparr>chunk_type = CHUNK_TYPE_DONT_CARE, reserved1 = 0, chunk_sz = n,
    total_sz = CHUNK_HEADER_LEN\<rparr>"
  obtain s' where s': "out_write out ?h 12 = (0, out\<lparr>sink := s'\<rparr>)" "good s'"
    "taken s' = app (taken (sink out)) (take 12 ?h)"
    using out_write_ok [OF out(1,2), of 12 ?h] size by (auto simp: max_chunk_def max_rw_count_def)
  have "c_div (n * bs) bs = n" using n by (simp add: c_div_nonneg)
  with s' n out show ?thesis
    by (simp add: write_sparse_skip_chunk_def CHUNK_HEADER_LEN_def out_cfg_def)
qed

lemma write_sparse_fill_chunk_ok:
  assumes out: "ops out = os" "good (sink out)" "block_size out = bs"
    and n: "0 < bs" "0 < n" "n * bs \<le> max_chunk"
    and size: "size_of (taken (sink out)) + 16 < 9223372036854775808"
  shows "\<exists>out'. write_sparse_fill_chunk out (n * bs) v = Inr (0, out') \<and> out_cfg out' = out_cfg out
    \<and> good (sink out') \<and> taken (sink out') = app (taken (sink out)) (encode_chunk bs (C_fill n v))"
proof -
  let ?h = "chunk_header_bytes \<lparr>chunk_type = CHUNK_TYPE_FILL, reserved1 = 0, chunk_sz = n,
    total_sz = CHUNK_HEADER_LEN + 4\<rparr>"
  obtain s1 where s1: "out_write out ?h 12 = (0, out\<lparr>sink := s1\<rparr>)" "good s1"
    "taken s1 = app (taken (sink out)) (take 12 ?h)"
    using out_write_ok [OF out(1,2), of 12 ?h] size by (auto simp: max_chunk_def max_rw_count_def)
  obtain s2 where s2: "out_write (out\<lparr>sink := s1\<rparr>) (le_bytes 4 v) 4 = (0, out\<lparr>sink := s2\<rparr>)" "good s2"
    "taken s2 = app (taken s1) (le_bytes 4 v)"
    using out_write_ok [of "out\<lparr>sink := s1\<rparr>" 4 "le_bytes 4 v"] out s1 size
    by (auto simp: max_chunk_def max_rw_count_def size_app)
  have "1 * bs \<le> n * bs" using n by (intro mult_right_mono) auto
  have b: "0 \<le> n * bs" "n * bs \<le> 2147479552" using n by (simp_all add: max_chunk_def max_rw_count_def)
  then have "i32 (n * bs) = n * bs" "u32 (n * bs) = n * bs"
    by (intro i32_id u32_id; linarith)+
  moreover have "align_u32 (n * bs) bs = n * bs"
  proof -
    have "n * bs + bs \<le> 4294967296" using b \<open>1 * bs \<le> n * bs\<close> by linarith
    then show ?thesis using n b by (simp add: align_u32_eq)
  qed
  ultimately show ?thesis
    using s1 s2 n out
    by (simp add: write_sparse_fill_chunk_def CHUNK_HEADER_LEN_def app_app out_cfg_def)
qed

lemma write_sparse_data_chunk_ok:
  assumes out: "ops out = os" "good (sink out)" "block_size out = bs"
    and n: "0 < bs" "0 < n" "ceil_div n bs * bs \<le> max_chunk" "nat n \<le> length d"
    and size: "size_of (taken (sink out)) + 12 + ceil_div n bs * bs < 9223372036854775808"
  shows "\<exists>out'. write_sparse_data_chunk out n d = Inr (0, out') \<and> out_cfg out' = out_cfg out
    \<and> good (sink out') \<and> taken (sink out') = app (taken (sink out)) (encode_chunk bs (C_raw (pad_block bs (take (nat n) d))))"
proof -
  define r where "r = ceil_div n bs * bs"
  have r: "n \<le> r" "r < n + bs" using ceil_div_bounds [OF n(1), of n] by (simp_all add: r_def)
  note size = size [folded r_def]
  have "1 * bs \<le> ceil_div n bs * bs" using n ceil_div_pos [of bs n] by (intro mult_right_mono) auto
  then have r': "bs \<le> r" "r \<le> max_chunk" using n(3) by (simp_all add: r_def)
  have nl: "n \<le> int (length d)" using n by simp
  have mc: "max_chunk = 2147479552" by (simp add: max_chunk_def max_rw_count_def)
  have "n + bs \<le> 4294967296" using r r' mc by linarith
  then have al: "align_u32 n bs = r" using n by (simp add: align_u32_eq r_def)
  have conv: "i32 r = r" "u32 r = r" "i32 (r - n) = r - n" "i32 n = n" "u32 (12 + r) = 12 + r"
    using r r' n mc by (simp_all add: i32_id u32_id)
  have pad: "pad_block bs (take (nat n) d) = take (nat n) d @ replicate (nat (r - n)) 0"
    "int (length (pad_block bs (take (nat n) d))) = r"
    using n r by (simp_all add: pad_block_def r_def nat_diff_distrib)
  let ?h = "chunk_header_bytes \<lparr>chunk_type = CHUNK_TYPE_RAW, reserved1 = 0, chunk_sz = r div bs,
    total_sz = CHUNK_HEADER_LEN + r\<rparr>"
  obtain s1 where s1: "out_write out ?h 12 = (0, out\<lparr>sink := s1\<rparr>)" "good s1"
    "taken s1 = app (taken (sink out)) ?h"
    using out_write_ok [OF out(1,2), of 12 ?h] size n r r' mc by auto
  obtain s2 where s2: "out_write (out\<lparr>sink := s1\<rparr>) d n = (0, out\<lparr>sink := s2\<rparr>)" "good s2"
    "taken s2 = app (taken s1) (take (nat n) d)"
    using out_write_ok [of "out\<lparr>sink := s1\<rparr>" n d] out s1 size n nl r r' mc by (auto simp: size_app)
  obtain s3 where s3: "(if r - n \<noteq> 0 then out_write (out\<lparr>sink := s2\<rparr>) (zero_buf out) (r - n) else (0, out\<lparr>sink := s2\<rparr>))
      = (0, out\<lparr>sink := s3\<rparr>)" "good s3" "taken s3 = app (taken s2) (replicate (nat (r - n)) 0)"
  proof (cases "r = n")
    case True
    have "app (taken s2) [] = taken s2" using app_app [of "taken s1" "take (nat n) d" "[]"] s2(3) by simp
    with True s2 that [of s2] show ?thesis by simp
  next
    case False
    have "take (nat (r - n)) (zero_buf out) = replicate (nat (r - n)) 0"
      using r out by (simp add: zero_buf_def)
    moreover have "size_of (taken s2) + (r - n) < 9223372036854775808"
      using s1(3) s2(3) size r n by (simp add: size_app)
    ultimately obtain s3 where "out_write (out\<lparr>sink := s2\<rparr>) (zero_buf out) (r - n) = (0, out\<lparr>sink := s3\<rparr>)"
      "good s3" "taken s3 = app (taken s2) (replicate (nat (r - n)) 0)"
      using out_write_ok [of "out\<lparr>sink := s2\<rparr>" "r - n" "zero_buf out"] out s2 r r' n mc
      by (auto simp: zero_buf_def)
    with False that show ?thesis by auto
  qed
  have "zero_buf (out\<lparr>sink := s2\<rparr>) = zero_buf out" by (simp add: zero_buf_def)
  then have "\<exists>out'. write_sparse_data_chunk out n d = Inr (0, out') \<and> out_cfg out' = out_cfg out \<and> sink out' = s3"
    using s1(1) s2(1) s3(1) n out(3)
    unfolding write_sparse_data_chunk_def Let_def out(3) al CHUNK_HEADER_LEN_def conv
    by (cases "r = n") (simp_all add: out_cfg_def)
  moreover have "taken s3 = app (taken (sink out)) (encode_chunk bs (C_raw (pad_block bs (take (nat n) d))))"
    using s1(3) s2(3) s3(3) pad by (simp add: app_app)
  ultimately show ?thesis using s3(2) by auto
qed

end

text \<open>A sink that can also skip, which leaves zeros.\<close>

locale byte_sink = byte_writer +
  assumes skip_ok: "good s \<Longrightarrow> 0 \<le> n \<Longrightarrow> size_of (taken s) + n < 9223372036854775808 \<Longrightarrow>
      \<exists>s'. op_skip os s n = (0, s') \<and> good s' \<and> taken s' = app (taken s) (replicate (nat n) 0)"
begin

lemma out_skip_ok:
  assumes "ops out = os" "good (sink out)" "0 \<le> n" "size_of (taken (sink out)) + n < 9223372036854775808"
  shows "\<exists>s'. out_skip out n = (0, out\<lparr>sink := s'\<rparr>) \<and> good s'
    \<and> taken s' = app (taken (sink out)) (replicate (nat n) 0)"
  using skip_ok [OF assms(2-4)] assms(1) by (auto simp: out_skip_def)

lemma write_normal_data_chunk_ok:
  assumes out: "ops out = os" "good (sink out)" "block_size out = bs"
    and n: "0 < bs" "0 < n" "ceil_div n bs * bs \<le> max_chunk" "nat n \<le> length d"
    and size: "size_of (taken (sink out)) + ceil_div n bs * bs < 9223372036854775808"
  shows "\<exists>out'. write_normal_data_chunk out n d = Inr (0, out') \<and> out_cfg out' = out_cfg out
    \<and> good (sink out') \<and> taken (sink out') = app (taken (sink out)) (pad_block bs (take (nat n) d))"
proof -
  define r where "r = ceil_div n bs * bs"
  have r: "n \<le> r" "r < n + bs" using ceil_div_bounds [OF n(1), of n] by (simp_all add: r_def)
  note size = size [folded r_def]
  have "1 * bs \<le> ceil_div n bs * bs" using n ceil_div_pos [of bs n] by (intro mult_right_mono) auto
  then have r': "bs \<le> r" "r \<le> max_chunk" using n(3) by (simp_all add: r_def)
  have nl: "n \<le> int (length d)" using n by simp
  have mc: "max_chunk = 2147479552" by (simp add: max_chunk_def max_rw_count_def)
  have "n + bs \<le> 4294967296" "n < 2147483648" using r r' mc by linarith+
  then have al: "align_u32 n bs = r" "i32 n = n" using n by (simp_all add: align_u32_eq r_def i32_id)
  have pad: "pad_block bs (take (nat n) d) = take (nat n) d @ replicate (nat (r - n)) 0"
    using n r by (simp add: pad_block_def r_def nat_diff_distrib)
  obtain s1 where s1: "out_write out d n = (0, out\<lparr>sink := s1\<rparr>)" "good s1" "taken s1 = app (taken (sink out)) (take (nat n) d)"
    using out_write_ok [OF out(1,2), of n d] size n nl r r' mc by auto
  show ?thesis
  proof (cases "r = n")
    case True
    then show ?thesis
      using s1 out n al pad by (simp add: write_normal_data_chunk_def out_cfg_def)
  next
    case False
    obtain s2 where "out_skip (out\<lparr>sink := s1\<rparr>) (r - n) = (0, out\<lparr>sink := s2\<rparr>)" "good s2"
      "taken s2 = app (taken s1) (replicate (nat (r - n)) 0)"
      using out_skip_ok [of "out\<lparr>sink := s1\<rparr>" "r - n"] out s1 r n size by (auto simp: size_app)
    with False r s1 out n al pad show ?thesis
      by (simp add: write_normal_data_chunk_def out_cfg_def app_app)
  qed
qed

lemma write_normal_skip_chunk_ok:
  assumes out: "ops out = os" "good (sink out)" and n: "0 \<le> n"
    and size: "size_of (taken (sink out)) + n < 9223372036854775808"
  shows "\<exists>out'. write_normal_skip_chunk out n = (0, out') \<and> out_cfg out' = out_cfg out
    \<and> good (sink out') \<and> taken (sink out') = app (taken (sink out)) (replicate (nat n) 0)"
  using out_skip_ok [OF out n size] by (auto simp: write_normal_skip_chunk_def out_cfg_def)

lemma write_fill_loop_ok:
  assumes "ops out = os" "good (sink out)" "block_size out = bs" "0 < bs" "bs \<le> max_chunk"
    "length (fill_buf out) = nat bs" "size_of (taken (sink out)) + int n * bs < 9223372036854775808"
  shows "\<exists>out'. write_fill_loop out (int n * bs) = Inr (0, out') \<and> out_cfg out' = out_cfg out
    \<and> good (sink out') \<and> (n = 0 \<longrightarrow> out' = out)
    \<and> (0 < n \<longrightarrow> taken (sink out') = app (taken (sink out)) (concat (replicate n (fill_buf out))))"
  using assms
proof (induction n arbitrary: out)
  case 0
  then show ?case by (simp add: write_fill_loop.simps)
next
  case (Suc n)
  have "0 \<le> int n * bs" using Suc.prems(4) by simp
  moreover have "int (Suc n) * bs > 0" using Suc.prems(4) by (intro mult_pos_pos) auto
  ultimately have len: "int (Suc n) * bs > 0" "min (int (Suc n) * bs) bs = bs" "int (Suc n) * bs - bs = int n * bs"
    using Suc.prems(4) by (auto simp: algebra_simps)
  have i: "i32 bs = bs" using Suc.prems(4,5) by (simp add: i32_id max_chunk_def max_rw_count_def)
  have sz: "size_of (taken (sink out)) + bs < 9223372036854775808"
    using Suc.prems(7) \<open>0 \<le> int n * bs\<close> by (simp add: algebra_simps)
  obtain s1 where s1: "out_write out (fill_buf out) bs = (0, out\<lparr>sink := s1\<rparr>)" "good s1"
    "taken s1 = app (taken (sink out)) (fill_buf out)"
    using out_write_ok [OF Suc.prems(1,2), of bs "fill_buf out"] Suc.prems sz by auto
  have step: "write_fill_loop out (int (Suc n) * bs) = write_fill_loop (out\<lparr>sink := s1\<rparr>) (int n * bs)"
    using write_fill_loop_step [OF len(1,2), of out "out\<lparr>sink := s1\<rparr>"] s1(1) i Suc.prems(3,4) len(3) by (simp only:)
  have "size_of (taken s1) + int n * bs < 9223372036854775808"
    using Suc.prems(4,6,7) s1(3) by (simp add: size_app algebra_simps)
  then obtain out' where "write_fill_loop (out\<lparr>sink := s1\<rparr>) (int n * bs) = Inr (0, out')"
    "out_cfg out' = out_cfg (out\<lparr>sink := s1\<rparr>)" "good (sink out')" "n = 0 \<longrightarrow> out' = out\<lparr>sink := s1\<rparr>"
    "0 < n \<longrightarrow> taken (sink out') = app (taken s1) (concat (replicate n (fill_buf out)))"
    using Suc.IH [of "out\<lparr>sink := s1\<rparr>"] Suc.prems s1 by auto
  with step s1 show ?case
    by (cases "n = 0") (auto simp: out_cfg_def app_app)
qed

lemma write_normal_fill_chunk_ok:
  assumes out: "ops out = os" "good (sink out)" "block_size out = bs"
    and n: "0 < bs" "4 dvd bs" "length (fill_buf out) = nat bs" "0 < n" "n * bs \<le> max_chunk"
    and size: "size_of (taken (sink out)) + n * bs < 9223372036854775808"
  shows "\<exists>out'. write_normal_fill_chunk out (n * bs) v = Inr (0, out') \<and> out_cfg out' = out_cfg out
    \<and> good (sink out') \<and> taken (sink out') = app (taken (sink out)) (fill_bytes (nat (n * bs)) v)"
proof -
  let ?fb = "concat (replicate (nat bs div 4) (le_bytes 4 v))"
  have four: "4 dvd nat bs" using n(1,2) by (simp flip: int_dvd_int_iff)
  then have len: "4 * (nat bs div 4) = nat bs" by simp
  then have fb: "length ?fb = nat bs"
    by (simp only: concat_replicate_fill length_fill_bytes)
  have "nat (bs div 4) = nat bs div 4" by (simp add: nat_div_distrib)
  then have eq: "write_normal_fill_chunk out (n * bs) v = write_fill_loop (out\<lparr>fill_buf := ?fb\<rparr>) (n * bs)"
    using out(3) n(3) len by (simp add: write_normal_fill_chunk_def Let_def)
  have "1 * bs \<le> n * bs" using n by (intro mult_right_mono) auto
  then have "bs \<le> max_chunk" using n(5) by linarith
  then obtain out' where "write_fill_loop (out\<lparr>fill_buf := ?fb\<rparr>) (int (nat n) * bs) = Inr (0, out')"
    "out_cfg out' = out_cfg (out\<lparr>fill_buf := ?fb\<rparr>)" "good (sink out')"
    "taken (sink out') = app (taken (sink out)) (concat (replicate (nat n) ?fb))"
    using write_fill_loop_ok [of "out\<lparr>fill_buf := ?fb\<rparr>" bs "nat n"] out n fb size by auto
  moreover have "concat (replicate (nat n) ?fb) = fill_bytes (nat (n * bs)) v"
    using fill_bytes_blocks [OF four, of "nat n" v] n by (simp add: nat_mult_distrib)
  ultimately show ?thesis using eq n(3,4) fb by (auto simp: out_cfg_def)
qed

end

text \<open>A descriptor at its end, as the sparse format writes it.\<close>

interpretation file_end: byte_writer file_ops "\<lambda>s. o_sched s = [] \<and> o_pos s = int (length (o_data s))"
  o_data "(@)" "\<lambda>xs. int (length xs)"
proof unfold_locales
  fix s :: outfile and n :: int and d :: "byte list"
  assume good: "o_sched s = [] \<and> o_pos s = int (length (o_data s))"
    and n: "0 \<le> n" "n \<le> max_chunk" "n \<le> int (length d)"
  have "take max_rw_count (take (nat n) d) = take (nat n) d" "length (take (nat n) d) = nat n"
    using n by (simp_all add: max_chunk_def)
  then show "\<exists>s'. op_write file_ops s d n = (0, s') \<and> (o_sched s' = [] \<and> o_pos s' = int (length (o_data s'))) \<and>
      o_data s' = o_data s @ take (nat n) d"
    using good n by (simp add: file_ops_def file_write_def posix_write_def write_deliver_def file_put_end)
qed auto

text \<open>A descriptor that may be behind its end, as the plain format leaves it after a skip.\<close>

interpretation file_sink: byte_sink file_ops
  "\<lambda>s. o_sched s = [] \<and> 0 \<le> o_pos s \<and> int (length (o_data s)) \<le> o_pos s"
  "\<lambda>s. file_trunc (o_data s) (nat (o_pos s))" "(@)" "\<lambda>xs. int (length xs)"
proof unfold_locales
  fix s :: outfile and n :: int and d :: "byte list"
  assume good: "o_sched s = [] \<and> 0 \<le> o_pos s \<and> int (length (o_data s)) \<le> o_pos s" and n: "0 \<le> n"
  show "\<exists>s'. op_write file_ops s d n = (0, s') \<and>
      (o_sched s' = [] \<and> 0 \<le> o_pos s' \<and> int (length (o_data s')) \<le> o_pos s') \<and>
      file_trunc (o_data s') (nat (o_pos s')) = file_trunc (o_data s) (nat (o_pos s)) @ take (nat n) d"
    if "n \<le> max_chunk" "n \<le> int (length d)"
  proof -
    have "take max_rw_count (take (nat n) d) = take (nat n) d" "length (take (nat n) d) = nat n"
      using that by (simp_all add: max_chunk_def)
    then have "op_write file_ops s d n = (0, s\<lparr>o_data := file_put (o_data s) (nat (o_pos s)) (take (nat n) d),
        o_pos := o_pos s + n\<rparr>)"
      using good n by (simp add: file_ops_def file_write_def posix_write_def write_deliver_def)
    moreover have "nat (o_pos s + n) = nat (o_pos s) + length (take (nat n) d)"
      using good n \<open>length (take (nat n) d) = nat n\<close> by (simp add: nat_add_distrib)
    ultimately show ?thesis
      using good n \<open>length (take (nat n) d) = nat n\<close>
        file_trunc_put [of "o_data s" "nat (o_pos s)" "take (nat n) d"] by (auto simp del: length_take)
  qed
  show "\<exists>s'. op_skip file_ops s n = (0, s') \<and>
      (o_sched s' = [] \<and> 0 \<le> o_pos s' \<and> int (length (o_data s')) \<le> o_pos s') \<and>
      file_trunc (o_data s') (nat (o_pos s')) = file_trunc (o_data s) (nat (o_pos s)) @ replicate (nat n) 0"
    if "int (length (file_trunc (o_data s) (nat (o_pos s)))) + n < 9223372036854775808"
    using good n that file_trunc_grow [of "o_data s" "nat (o_pos s)" "nat n"]
    by (auto simp: file_ops_def file_skip_def out_lseek_to_def i64_id nat_add_distrib)
qed auto

end
