(* ===== verification/Sparse_File.thy ===== *)
theory Sparse_File
  imports Backed_Block Output_File
begin

text \<open>
  The sparse file of core/libsparse/sparse.c: a list of backed blocks with a block size and an image
  length; writing it out in either format through \<open>Output_File\<close>, counting what that would take, and
  cutting it into pieces of bounded size.
\<close>

section \<open>Sparse files\<close>

record sparse_file =
  sf_block_size :: int
  sf_len :: int
  sf_verbose :: bool
  backed_block_list :: backed_block_list

text \<open>The result is \<open>None\<close> where the code returns \<open>NULL\<close>.\<close>

definition sparse_file_new :: "mem \<Rightarrow> int \<Rightarrow> int \<Rightarrow> sparse_file option res \<times> mem" where
  "sparse_file_new m bsize len =
     (case malloc m of
        (None, m1) \<Rightarrow> (Inr None, m1)
      | (Some _, m1) \<Rightarrow>
          (case backed_block_list_new m1 bsize of
             (r, m2) \<Rightarrow>
               (rbind r (\<lambda>bbl. Inr (Some \<lparr>sf_block_size = bsize, sf_len = len, sf_verbose = False,
                                          backed_block_list = bbl\<rparr>)), m2)))"

text \<open>The blocks and names it frees; the structures of the file itself are freed after them.\<close>

definition sparse_file_destroy :: "sparse_file \<Rightarrow> nat list" where
  "sparse_file_destroy s = backed_block_list_destroy (backed_block_list s)"

definition with_bbl ::
    "sparse_file \<Rightarrow> (int \<times> backed_block_list) res \<times> mem \<Rightarrow> (int \<times> sparse_file) res \<times> mem" where
  "with_bbl s r = (rbind (fst r) (\<lambda>(ret, bbl). Inr (ret, s\<lparr>backed_block_list := bbl\<rparr>)), snd r)"

definition sparse_file_add_data ::
    "mem \<Rightarrow> sparse_file \<Rightarrow> byte list \<Rightarrow> int \<Rightarrow> int \<Rightarrow> (int \<times> sparse_file) res \<times> mem" where
  "sparse_file_add_data m s data len block =
     with_bbl s (backed_block_add_data m (backed_block_list s) data len block)"

definition sparse_file_add_fill ::
    "mem \<Rightarrow> sparse_file \<Rightarrow> int \<Rightarrow> int \<Rightarrow> int \<Rightarrow> (int \<times> sparse_file) res \<times> mem" where
  "sparse_file_add_fill m s fill_val len block =
     with_bbl s (backed_block_add_fill m (backed_block_list s) fill_val len block)"

definition sparse_file_add_file ::
    "mem \<Rightarrow> sparse_file \<Rightarrow> string \<Rightarrow> int \<Rightarrow> int \<Rightarrow> int \<Rightarrow> (int \<times> sparse_file) res \<times> mem" where
  "sparse_file_add_file m s filename file_offset len block =
     with_bbl s (backed_block_add_file m (backed_block_list s) filename file_offset len block)"

definition sparse_file_add_fd ::
    "mem \<Rightarrow> sparse_file \<Rightarrow> int \<Rightarrow> int \<Rightarrow> int \<Rightarrow> int \<Rightarrow> (int \<times> sparse_file) res \<times> mem" where
  "sparse_file_add_fd m s fd file_offset len block =
     with_bbl s (backed_block_add_fd m (backed_block_list s) fd file_offset len block)"

definition sparse_file_set_verbose :: "sparse_file \<Rightarrow> sparse_file" where
  "sparse_file_set_verbose s = s\<lparr>sf_verbose := True\<rparr>"

section \<open>Counting chunks\<close>

text \<open>The block number behind a block, as the loops compute it.\<close>

definition block_end :: "int \<Rightarrow> backed_block \<Rightarrow> int" where
  "block_end bs bb = u32 (backed_block_block bb + div_round_up_u32 (backed_block_len bb) bs)"

fun count_chunks_loop :: "int \<Rightarrow> int \<Rightarrow> int \<Rightarrow> backed_block list \<Rightarrow> int \<times> int" where
  "count_chunks_loop bs last_block chunks [] = (last_block, chunks)"
| "count_chunks_loop bs last_block chunks (bb # rest) =
     (let chunks1 = (if backed_block_block bb > last_block then u32 (chunks + 1) else chunks)
      in count_chunks_loop bs (block_end bs bb) (u32 (chunks1 + 1)) rest)"

definition sparse_count_chunks :: "sparse_file \<Rightarrow> int res" where
  "sparse_count_chunks s =
     (if sf_block_size s = 0 then Inl Div_by_zero
      else (case count_chunks_loop (sf_block_size s) 0 0 (backed_block_iter_new (backed_block_list s)) of
              (last_block, chunks) \<Rightarrow>
                Inr (if last_block < c_div (i64 (sf_len s + sf_block_size s - 1)) (sf_block_size s)
                     then u32 (chunks + 1) else chunks)))"

section \<open>Writing the blocks\<close>

text \<open>
  The API asks for \<open>len\<close> readable bytes at the pointer of a data block; handing over fewer is an
  out-of-bounds read.
\<close>

definition sparse_file_write_block ::
    "env \<Rightarrow> 's output_file \<Rightarrow> backed_block \<Rightarrow> (int \<times> 's output_file) res" where
  "sparse_file_write_block E out bb =
     (case bb_type bb of
        BACKED_BLOCK_DATA \<Rightarrow>
          rbind (backed_block_data bb) (\<lambda>d.
            if int (length d) < backed_block_len bb then Inl Out_of_bounds
            else write_data_chunk out (backed_block_len bb) d)
      | BACKED_BLOCK_FILE \<Rightarrow>
          rbind (backed_block_filename bb) (\<lambda>f.
          rbind (backed_block_file_offset bb) (\<lambda>off.
            write_file_chunk E out (backed_block_len bb) (map_option snd f) off))
      | BACKED_BLOCK_FD \<Rightarrow>
          rbind (backed_block_fd bb) (\<lambda>fd.
          rbind (backed_block_file_offset bb) (\<lambda>off.
            write_fd_chunk E out (backed_block_len bb) fd off))
      | BACKED_BLOCK_FILL \<Rightarrow>
          rbind (backed_block_fill_val bb) (\<lambda>v. write_fill_chunk out (backed_block_len bb) v))"

text \<open>The loop; it returns the code, the block number it got to and the output file.\<close>

fun write_blocks ::
    "env \<Rightarrow> int \<Rightarrow> int \<Rightarrow> 's output_file \<Rightarrow> backed_block list \<Rightarrow> (int \<times> int \<times> 's output_file) res" where
  "write_blocks E bs last_block out [] = Inr (0, last_block, out)"
| "write_blocks E bs last_block out (bb # rest) =
     rbind (if backed_block_block bb > last_block
            then write_skip_chunk out (i64 (u32 (backed_block_block bb - last_block) * bs))
            else Inr (0, out)) (\<lambda>(_, out1).
     rbind (sparse_file_write_block E out1 bb) (\<lambda>(ret, out2).
       if ret \<noteq> 0 then Inr (ret, last_block, out2)
       else write_blocks E bs (block_end bs bb) out2 rest))"

definition write_all_blocks ::
    "env \<Rightarrow> sparse_file \<Rightarrow> 's output_file \<Rightarrow> (int \<times> 's output_file) res" where
  "write_all_blocks E s out =
     rbind (write_blocks E (sf_block_size s) 0 out (backed_block_iter_new (backed_block_list s)))
       (\<lambda>(ret, last_block, out1).
         if ret \<noteq> 0 then Inr (ret, out1)
         else
           let pad = i64 (sf_len s - i64 (last_block * sf_block_size s))
           in if pad < 0 then Inl Assert_failed
              else if pad > 0
              then rbind (write_skip_chunk out1 pad) (\<lambda>(_, out2). Inr (0, out2))
              else Inr (0, out1))"

text \<open>
  The body the three entry points share: open, write, close. \<open>opn\<close> is the open function with its sink;
  the result is the return code and what became of the sink.
\<close>

definition write_through ::
    "(mem \<Rightarrow> int \<Rightarrow> int \<Rightarrow> bool \<Rightarrow> int \<Rightarrow> bool \<Rightarrow> ('s + 's output_file) res \<times> mem)
     \<Rightarrow> mem \<Rightarrow> env \<Rightarrow> sparse_file \<Rightarrow> bool \<Rightarrow> bool \<Rightarrow> (int \<times> 's) res \<times> mem" where
  "write_through opn m E s sparse crc =
     (case sparse_count_chunks s of
        Inl e \<Rightarrow> (Inl e, m)
      | Inr chunks \<Rightarrow>
          (case opn m (sf_block_size s) (sf_len s) sparse (i32 chunks) crc of
             (Inl e, m1) \<Rightarrow> (Inl e, m1)
           | (Inr (Inl k), m1) \<Rightarrow> (Inr (- ENOMEM, k), m1)
           | (Inr (Inr out), m1) \<Rightarrow>
               (rbind (write_all_blocks E s out) (\<lambda>(ret, out1). Inr (ret, output_file_close out1)), m1)))"

definition sparse_file_write ::
    "mem \<Rightarrow> env \<Rightarrow> sparse_file \<Rightarrow> outfile \<Rightarrow> bool \<Rightarrow> bool \<Rightarrow> (int \<times> outfile) res \<times> mem" where
  "sparse_file_write m E s f = write_through (\<lambda>m. output_file_open_fd m f) m E s"

text \<open>The same entry point with \<open>gz\<close> set.\<close>

definition sparse_file_write_gz ::
    "'z zlib \<Rightarrow> int \<Rightarrow> mem \<Rightarrow> env \<Rightarrow> sparse_file \<Rightarrow> int \<Rightarrow> bool \<Rightarrow> bool \<Rightarrow> (int \<times> 'z option) res \<times> mem" where
  "sparse_file_write_gz z errno m E s fd = write_through (\<lambda>m. output_file_open_fd_gz z errno m fd) m E s"

definition sparse_file_callback ::
    "mem \<Rightarrow> env \<Rightarrow> sparse_file \<Rightarrow> bool \<Rightarrow> bool \<Rightarrow> 'p callback \<Rightarrow> 'p \<Rightarrow> (int \<times> 'p) res \<times> mem" where
  "sparse_file_callback m E s sparse crc write priv =
     write_through (\<lambda>m. output_file_open_callback m write priv) m E s sparse crc"

section \<open>The length of the output\<close>

definition out_counter_write :: "int callback" where
  "out_counter_write count data len = (0, i64 (count + len))"

definition sparse_file_len :: "mem \<Rightarrow> env \<Rightarrow> sparse_file \<Rightarrow> bool \<Rightarrow> bool \<Rightarrow> int res \<times> mem" where
  "sparse_file_len m E s sparse crc =
     (case sparse_count_chunks s of
        Inl e \<Rightarrow> (Inl e, m)
      | Inr chunks \<Rightarrow>
          (case output_file_open_callback m out_counter_write 0 (sf_block_size s) (sf_len s) sparse
                  (i32 chunks) crc of
             (Inl e, m1) \<Rightarrow> (Inl e, m1)
           | (Inr (Inl _), m1) \<Rightarrow> (Inr (-1), m1)
           | (Inr (Inr out), m1) \<Rightarrow>
               (rbind (write_all_blocks E s out) (\<lambda>(ret, out1).
                  let count = output_file_close out1 in Inr (if ret < 0 then -1 else count)), m1)))"

section \<open>Cutting into pieces\<close>

text \<open>
  How the scan of \<open>move_chunks_up_to_len\<close> ends: a block could not be written; every block fits, the
  last one given; or a block at an address does not fit behind the given last one, with the room
  \<open>len - file_len\<close> left for it.
\<close>

datatype scan_end = Scan_error | Scan_all "nat option" | Scan_stop nat "nat option" int

fun move_scan ::
    "env \<Rightarrow> int \<Rightarrow> int \<Rightarrow> int output_file \<Rightarrow> int \<Rightarrow> int \<Rightarrow> nat option \<Rightarrow> backed_block list \<Rightarrow> scan_end res" where
  "move_scan E bs len out last_block file_len last_bb [] = Inr (Scan_all last_bb)"
| "move_scan E bs len out last_block file_len last_bb (bb # rest) =
     (if bs = 0 then Inl Div_by_zero
      else rbind (sparse_file_write_block E
             (out\<lparr>sink := (if backed_block_block bb > last_block then CHUNK_HEADER_LEN else 0)\<rparr>) bb)
           (\<lambda>(ret, out1).
             let count = sink out1
             in if ret \<noteq> 0 then Inr Scan_error
                else if i64 (file_len + count) > len
                then Inr (Scan_stop (bb_addr bb) last_bb (len - (file_len + CHUNK_HEADER_LEN)))
                else move_scan E bs len out1 (block_end bs bb) (i64 (file_len + count))
                       (Some (bb_addr bb)) rest))"

definition overhead :: int where
  "overhead = SPARSE_HEADER_LEN + 2 * CHUNK_HEADER_LEN + 4"

text \<open>
  The result: \<open>from\<close> and \<open>to\<close> afterwards, and the block returned (\<open>None\<close> for \<open>NULL\<close>).
\<close>

definition move_lists ::
    "sparse_file \<Rightarrow> sparse_file \<Rightarrow> nat option \<Rightarrow> nat option \<Rightarrow> nat option
     \<Rightarrow> (sparse_file \<times> sparse_file \<times> nat option) res" where
  "move_lists from to start last_bb bb =
     rbind (backed_block_list_move (backed_block_list from) (backed_block_list to) start last_bb) (\<lambda>(f, t).
       Inr (from\<lparr>backed_block_list := f\<rparr>, to\<lparr>backed_block_list := t\<rparr>, bb))"

definition move_chunks_up_to_len ::
    "mem \<Rightarrow> env \<Rightarrow> sparse_file \<Rightarrow> sparse_file \<Rightarrow> int
     \<Rightarrow> (sparse_file \<times> sparse_file \<times> nat option) res \<times> mem" where
  "move_chunks_up_to_len m E from to len0 =
     (let len = u32 (len0 - overhead);
          blocks = backed_block_iter_new (backed_block_list from);
          start = (case blocks of [] \<Rightarrow> None | b # _ \<Rightarrow> Some (bb_addr b))
      in case output_file_open_callback m out_counter_write 0 (sf_block_size to) (sf_len to) True 0 False of
           (Inl e, m1) \<Rightarrow> (Inl e, m1)
         | (Inr (Inl _), m1) \<Rightarrow> (Inr (from, to, None), m1)
         | (Inr (Inr out_counter), m1) \<Rightarrow>
             (case move_scan E (sf_block_size to) len out_counter 0 0 None blocks of
                Inl e \<Rightarrow> (Inl e, m1)
              | Inr Scan_error \<Rightarrow> (Inr (from, to, None), m1)
              | Inr (Scan_all last_bb) \<Rightarrow> (move_lists from to start last_bb None, m1)
              | Inr (Scan_stop bb last_bb room) \<Rightarrow>
                  if last_bb = None \<or> room > len div 8
                  then (case backed_block_split m1 (backed_block_list from) bb (u32 room) of
                          (r, m2) \<Rightarrow>
                            (rbind r (\<lambda>(_, bbl).
                               move_lists (from\<lparr>backed_block_list := bbl\<rparr>) to start (Some bb) (Some bb)), m2))
                  else (move_lists from to start last_bb (Some bb), m1)))"

text \<open>
  The loop of \<open>sparse_file_resparse\<close> may not end; then its value is \<open>None\<close>. \<open>out_s\<close> is the list of the
  pieces stored so far.
\<close>

partial_function (option) resparse_loop ::
    "env \<Rightarrow> int \<Rightarrow> int \<Rightarrow> mem \<Rightarrow> sparse_file \<Rightarrow> sparse_file \<Rightarrow> sparse_file list \<Rightarrow> int
     \<Rightarrow> ((sparse_file \<times> sparse_file \<times> sparse_file list \<times> int) res \<times> mem) option" where
  "resparse_loop E max_len out_s_count m in_s tmp out_s c =
     (case sparse_file_new m (sf_block_size in_s) (sf_len in_s) of
        (Inl e, m1) \<Rightarrow> Some (Inl e, m1)
      | (Inr None, m1) \<Rightarrow> Some (Inl Null_deref, m1)
      | (Inr (Some s), m1) \<Rightarrow>
          (case move_chunks_up_to_len m1 E in_s s max_len of
             (Inl e, m2) \<Rightarrow> Some (Inl e, m2)
           | (Inr (in_s1, s1, bb), m2) \<Rightarrow>
               (case (if c < out_s_count then Inr (tmp, out_s @ [s1])
                      else rbind (backed_block_list_move (backed_block_list s1) (backed_block_list tmp) None None)
                             (\<lambda>(_, t). Inr (tmp\<lparr>backed_block_list := t\<rparr>, out_s))) of
                  Inl e \<Rightarrow> Some (Inl e, m2)
                | Inr (tmp1, out_s1) \<Rightarrow>
                    if bb = None then Some (Inr (in_s1, tmp1, out_s1, i32 (c + 1)), m2)
                    else resparse_loop E max_len out_s_count m2 in_s1 tmp1 out_s1 (i32 (c + 1)))))"

definition sparse_file_resparse ::
    "mem \<Rightarrow> env \<Rightarrow> sparse_file \<Rightarrow> int \<Rightarrow> int
     \<Rightarrow> ((int \<times> sparse_file \<times> sparse_file list) res \<times> mem) option" where
  "sparse_file_resparse m E in_s max_len out_s_count =
     (case sparse_file_new m (sf_block_size in_s) (sf_len in_s) of
        (Inl e, m1) \<Rightarrow> Some (Inl e, m1)
      | (Inr None, m1) \<Rightarrow> Some (Inr (- ENOMEM, in_s, []), m1)
      | (Inr (Some tmp), m1) \<Rightarrow>
          (case resparse_loop E max_len out_s_count m1 in_s tmp [] 0 of
             None \<Rightarrow> None
           | Some (Inl e, m2) \<Rightarrow> Some (Inl e, m2)
           | Some (Inr (in_s1, tmp1, out_s, c), m2) \<Rightarrow>
               Some (rbind (backed_block_list_move (backed_block_list tmp1) (backed_block_list in_s1) None None)
                       (\<lambda>(_, l). Inr (c, in_s1\<lparr>backed_block_list := l\<rparr>, out_s)), m2)))"

end
