(* ===== verification/Sparse_Write.thy ===== *)
theory Sparse_Write
  imports Sparse_File
begin

text \<open>
  What writing a sparse file produces. \<open>image_chunks\<close> lists the chunks a sparse file is written as,
  \<open>image_byte\<close> is the byte of the image at an offset, \<open>image_crc\<close> the checksum, and \<open>image_ok\<close> the condition
  under which every block can be written.

  The locale \<open>chunk_writer\<close> is the contract of an output file as \<open>write_all_blocks\<close> uses it. Every sink
  provides it, in the sparse format (a sublocale of \<open>byte_writer\<close>) and as a plain image (a sublocale of
  \<open>byte_sink\<close>), so that \<open>write_all_blocks\<close> is proved correct once and the descriptor and the counting
  callback of \<open>sparse_file_len\<close> get it by interpretation.
\<close>

section \<open>What is written, abstractly\<close>

text \<open>
  The bytes a backed block stands for, when its source has them all, and the chunk it is written as.
\<close>

definition fd_bytes :: "env \<Rightarrow> int \<Rightarrow> int \<Rightarrow> int \<Rightarrow> byte list option" where
  "fd_bytes E fd off n =
     (case env_fd E fd of
        Inl _ \<Rightarrow> None
      | Inr d \<Rightarrow> if 0 \<le> off \<and> off + n \<le> int (length d) \<and> off + n < 9223372036854775808
              then Some (bslice (nat off) (nat n) d) else None)"

fun payload_bytes :: "env \<Rightarrow> bb_payload \<Rightarrow> int \<Rightarrow> byte list option" where
  "payload_bytes E (BB_Data d) n = (if n \<le> int (length d) then Some (take (nat n) d) else None)"
| "payload_bytes E (BB_File f off) n =
     (case f of
        None \<Rightarrow> None
      | Some (_, name) \<Rightarrow>
          (case env_open E name of
             Inl _ \<Rightarrow> None
           | Inr fd \<Rightarrow> fd_bytes E fd off n))"
| "payload_bytes E (BB_Fd fd off) n = fd_bytes E fd off n"
| "payload_bytes E (BB_Fill v) n = Some (fill_bytes (nat n) v)"

definition bb_chunk :: "env \<Rightarrow> int \<Rightarrow> backed_block \<Rightarrow> chunk" where
  "bb_chunk E bs b =
     (case bb_payload b of
        BB_Fill v \<Rightarrow> C_fill (bb_len b div bs) v
      | p \<Rightarrow> C_raw (pad_block bs (the (payload_bytes E p (bb_len b)))))"

definition skip_to :: "int \<Rightarrow> int \<Rightarrow> chunk list" where
  "skip_to a b = (if a < b then [C_skip (b - a)] else [])"

fun blocks_chunks :: "env \<Rightarrow> int \<Rightarrow> int \<Rightarrow> backed_block list \<Rightarrow> chunk list" where
  "blocks_chunks E bs last_block [] = []"
| "blocks_chunks E bs last_block (b # rest) =
     skip_to last_block (bb_block b) @ bb_chunk E bs b # blocks_chunks E bs (bb_last bs b) rest"

fun blocks_end :: "int \<Rightarrow> int \<Rightarrow> backed_block list \<Rightarrow> int" where
  "blocks_end bs last_block [] = last_block"
| "blocks_end bs last_block (b # rest) = blocks_end bs (bb_last bs b) rest"

abbreviation sf_blocks :: "sparse_file \<Rightarrow> backed_block list" where
  "sf_blocks s \<equiv> data_blocks (backed_block_list s)"

definition image_chunks :: "env \<Rightarrow> sparse_file \<Rightarrow> chunk list" where
  "image_chunks E s =
     blocks_chunks E (sf_block_size s) 0 (sf_blocks s)
     @ skip_to (blocks_end (sf_block_size s) 0 (sf_blocks s)) (sf_len s div sf_block_size s)"

text \<open>
  A block that can be written: its bytes can be had, one \<open>write\<close> and one mapping are enough for them,
  and a fill covers whole blocks.
\<close>

definition bb_writable :: "env \<Rightarrow> int \<Rightarrow> backed_block \<Rightarrow> bool" where
  "bb_writable E bs b \<longleftrightarrow>
     payload_bytes E (bb_payload b) (bb_len b) \<noteq> None \<and> ceil_div (bb_len b) bs * bs + 4096 \<le> max_chunk \<and>
     (case bb_payload b of BB_Fill v \<Rightarrow> bs dvd bb_len b \<and> 0 \<le> v \<and> v < 4294967296 | _ \<Rightarrow> True)"

definition image_ok :: "env \<Rightarrow> sparse_file \<Rightarrow> bool" where
  "image_ok E s \<longleftrightarrow>
     block_size_ok (sf_block_size s) \<and> sf_block_size s dvd sf_len s \<and> sf_len s div sf_block_size s < 2147483648 \<and>
     bbl_wf (sf_block_size s) (sf_blocks s) \<and> (\<forall>b \<in> set (sf_blocks s). bb_writable E (sf_block_size s) b) \<and>
     blocks_end (sf_block_size s) 0 (sf_blocks s) * sf_block_size s \<le> sf_len s"

lemma image_okD:
  assumes "image_ok E s" "sf_block_size s = bs"
  shows "0 < bs" "4 dvd bs" "bs < 2147483648" "bs dvd sf_len s" "sf_len s div bs < 2147483648"
    "bbl_wf bs (sf_blocks s)" "bbl_sorted bs (sf_blocks s)"
    "\<forall>b \<in> set (sf_blocks s). bb_ok bs b \<and> bb_writable E bs b \<and> 0 \<le> bb_block b"
    "blocks_end bs 0 (sf_blocks s) * bs \<le> sf_len s" "sf_len s < 4611686018427387904"
proof -
  show "0 < bs" "4 dvd bs" "bs < 2147483648" "bs dvd sf_len s" "sf_len s div bs < 2147483648"
    "bbl_wf bs (sf_blocks s)" "bbl_sorted bs (sf_blocks s)"
    "\<forall>b \<in> set (sf_blocks s). bb_ok bs b \<and> bb_writable E bs b \<and> 0 \<le> bb_block b"
    "blocks_end bs 0 (sf_blocks s) * bs \<le> sf_len s"
    using assms by (auto simp: image_ok_def block_size_ok_def bbl_wf_def bb_ok_def)
  then have "sf_len s div bs * bs \<le> 2147483647 * 2147483647" by (intro mult_mono) auto
  with \<open>bs dvd sf_len s\<close> show "sf_len s < 4611686018427387904" by simp
qed

lemma block_end_eq: "0 < bs \<Longrightarrow> bb_ok bs b \<Longrightarrow> block_end bs b = bb_last bs b"
  using bb_okD [of bs b] bb_last_gt [of bs b]
  by (simp add: block_end_def backed_block_block_def backed_block_len_def div_round_up_u32_eq bb_last_def u32_id)

lemma blocks_end_ge:
  assumes "0 < bs" "bbl_sorted bs xs" "\<forall>b \<in> set xs. bb_ok bs b \<and> last_block \<le> bb_block b"
  shows "last_block \<le> blocks_end bs last_block xs"
  using assms
proof (induction xs arbitrary: last_block)
  case (Cons b xs)
  then have "bb_last bs b \<le> blocks_end bs (bb_last bs b) xs"
    by (intro Cons.IH) (auto simp: bbl_sorted_Cons)
  with Cons.prems bb_last_gt [of bs b] show ?case by (auto intro: order_trans)
qed simp

lemma payload_bytes_length:
  assumes "payload_bytes E p n = Some d" "0 \<le> n"
  shows "length d = nat n"
proof -
  have fd: "length d = nat n" if "fd_bytes E fd off n = Some d" for fd off d
    using that assms(2) by (auto simp: fd_bytes_def nat_diff_distrib split: sum.splits if_splits)
  show ?thesis
    using assms fd by (cases p) (auto split: option.splits sum.splits if_splits)
qed

text \<open>The contract of an output file. \<open>put\<close> is what a chunk adds to what has been written.\<close>

locale chunk_writer =
  fixes ok :: "'s output_file \<Rightarrow> bool" and rep :: "'s output_file \<Rightarrow> 'a"
    and put :: "int \<Rightarrow> 'a \<Rightarrow> chunk \<Rightarrow> 'a" and total :: "'a \<Rightarrow> int" and cost :: "int \<Rightarrow> chunk \<Rightarrow> int"
  assumes ok_bs: "ok out \<Longrightarrow> 0 < block_size out"
    and total_put: "total (put bs a c) = total a + cost bs c"
    and cost_nonneg: "0 \<le> cost bs c"
    and data_ok: "ok out \<Longrightarrow> bs = block_size out \<Longrightarrow> 0 < n \<Longrightarrow> ceil_div n bs * bs \<le> max_chunk \<Longrightarrow> nat n \<le> length d \<Longrightarrow>
      c = C_raw (pad_block bs (take (nat n) d)) \<Longrightarrow> total (rep out) + cost bs c < 9223372036854775808 \<Longrightarrow>
      \<exists>out'. write_data_chunk out n d = Inr (0, out') \<and> ok out' \<and> out_cfg out' = out_cfg out \<and>
        rep out' = put bs (rep out) c"
    and fill_ok: "ok out \<Longrightarrow> bs = block_size out \<Longrightarrow> 0 < k \<Longrightarrow> k * bs \<le> max_chunk \<Longrightarrow>
      total (rep out) + cost bs (C_fill k v) < 9223372036854775808 \<Longrightarrow>
      \<exists>out'. write_fill_chunk out (k * bs) v = Inr (0, out') \<and> ok out' \<and> out_cfg out' = out_cfg out \<and>
        rep out' = put bs (rep out) (C_fill k v)"
    and skip_chunk_ok: "ok out \<Longrightarrow> bs = block_size out \<Longrightarrow> 0 < k \<Longrightarrow>
      total (rep out) + cost bs (C_skip k) < 9223372036854775808 \<Longrightarrow>
      \<exists>out'. write_skip_chunk out (k * bs) = Inr (0, out') \<and> ok out' \<and> out_cfg out' = out_cfg out \<and>
        rep out' = put bs (rep out) (C_skip k)"
begin

text \<open>One block.\<close>

lemma write_fd_chunk_ok:
  assumes "ok out" "bs = block_size out" "0 < n" "ceil_div n bs * bs + 4096 \<le> max_chunk"
    "fd_bytes E fd off n = Some d" "c = C_raw (pad_block bs d)"
    "total (rep out) + cost bs c < 9223372036854775808"
  shows "\<exists>out'. write_fd_chunk E out n fd off = Inr (0, out') \<and> ok out' \<and> out_cfg out' = out_cfg out \<and>
    rep out' = put bs (rep out) c"
proof -
  obtain x where x: "env_fd E fd = Inr x" "0 \<le> off" "off + n \<le> int (length x)" "d = bslice (nat off) (nat n) x"
    using assms(5) by (auto simp: fd_bytes_def split: sum.splits if_splits)
  have mc: "max_chunk = 2147479552" by (simp add: max_chunk_def max_rw_count_def)
  have bs: "0 < bs" using ok_bs assms(1,2) by simp
  have diff: "off - (off - off mod 4096) = off mod 4096" "0 \<le> off mod 4096" "off mod 4096 < 4096"
    "off - off mod 4096 \<ge> 0"
    using x(2) zmod_le_nonneg_dividend [of off 4096] by (simp_all del: minus_mod_eq_mult_div)
  have bsz: "i32 (u32 (n + off mod 4096)) = n + off mod 4096"
    using assms(3,4) diff(2,3) ceil_div_bounds(1) [OF bs, of n] mc by (simp add: u32_id i32_id)
  have "nat off + nat n \<le> length x" using x(2,3) assms(3) by (simp add: nat_add_distrib [symmetric])
  then have "mapped_bytes x (nat off) (nat n) = Inr d" using x(4) by (simp add: mapped_bytes_in)
  moreover have "\<not> n + off mod 4096 \<le> 0" "n + off mod 4096 \<noteq> 0" using diff(2) assms(3) by linarith+
  ultimately have "write_fd_chunk E out n fd off = write_data_chunk out n d"
    using x(1) diff bsz by (simp add: write_fd_chunk_def Let_def)
  moreover have "length d = nat n" using payload_bytes_length [of E "BB_Fd fd off" n d] assms(3,5) by simp
  ultimately show ?thesis
    using data_ok [OF assms(1,2,3), of d c] assms(4,6,7) by simp
qed

lemma write_block_ok:
  assumes "ok out" "bs = block_size out" "bb_ok bs b" "bb_writable E bs b"
    "total (rep out) + cost bs (bb_chunk E bs b) < 9223372036854775808"
  shows "\<exists>out'. sparse_file_write_block E out b = Inr (0, out') \<and> ok out' \<and> out_cfg out' = out_cfg out \<and>
    rep out' = put bs (rep out) (bb_chunk E bs b)"
proof -
  obtain d where d: "payload_bytes E (bb_payload b) (bb_len b) = Some d"
    using assms(4) by (auto simp: bb_writable_def)
  have len: "0 < bb_len b" "ceil_div (bb_len b) bs * bs + 4096 \<le> max_chunk"
    using assms(3,4) by (auto simp: bb_ok_def bb_writable_def)
  show ?thesis
  proof (cases "bb_payload b")
    case (BB_Data x)
    then show ?thesis
      using data_ok [OF assms(1,2) len(1), of x "bb_chunk E bs b"] len d assms(5)
      by (auto simp: sparse_file_write_block_def bb_type_def backed_block_data_def backed_block_len_def
          bb_chunk_def split: if_splits)
  next
    case (BB_File f off)
    then obtain a name fd where f: "f = Some (a, name)" "env_open E name = Inr fd"
      "fd_bytes E fd off (bb_len b) = Some d"
      using d by (auto split: option.splits sum.splits)
    have "bb_chunk E bs b = C_raw (pad_block bs d)" using BB_File d by (simp add: bb_chunk_def)
    then show ?thesis
      using write_fd_chunk_ok [OF assms(1,2) len f(3) refl] assms(5) BB_File f(1,2)
      by (simp add: sparse_file_write_block_def bb_type_def backed_block_filename_def backed_block_len_def
          backed_block_file_offset_def write_file_chunk_def)
  next
    case (BB_Fd fd off)
    have "bb_chunk E bs b = C_raw (pad_block bs d)" using BB_Fd d by (simp add: bb_chunk_def)
    then show ?thesis
      using write_fd_chunk_ok [OF assms(1,2) len _ refl, of E fd off d] assms(5) BB_Fd d
      by (simp add: sparse_file_write_block_def bb_type_def backed_block_fd_def backed_block_len_def
          backed_block_file_offset_def)
  next
    case (BB_Fill v)
    then have dvd: "bs dvd bb_len b" using assms(4) by (simp add: bb_writable_def)
    then have k: "bb_len b div bs * bs = bb_len b" by simp
    moreover have "0 < bb_len b div bs"
      using len(1) ok_bs [OF assms(1)] assms(2) dvd by (simp add: pos_imp_zdiv_pos_iff zdvd_imp_le)
    ultimately show ?thesis
      using fill_ok [OF assms(1,2), of "bb_len b div bs" v] len assms(2,5) BB_Fill
        ok_bs [OF assms(1)] ceil_div_dvd [OF _ dvd]
      by (simp add: sparse_file_write_block_def bb_type_def backed_block_fill_val_def backed_block_len_def
          bb_chunk_def)
  qed
qed

lemma total_foldl: "total (foldl (put bs) a cs) = total a + sum_list (map (cost bs) cs)"
  by (induction cs arbitrary: a) (simp_all add: total_put)

lemma costs_nonneg: "0 \<le> sum_list (map (cost bs) cs)"
  by (induction cs) (simp_all add: cost_nonneg)

lemma skip_to_ok:
  assumes "ok out" "bs = block_size out" "0 \<le> a" "b < 4294967296" "bs < 2147483648"
    "total (rep out) + sum_list (map (cost bs) (skip_to a b)) < 9223372036854775808"
  shows "\<exists>out'. (if a < b then write_skip_chunk out (i64 (u32 (b - a) * bs)) else Inr (0, out)) = Inr (0, out')
    \<and> ok out' \<and> out_cfg out' = out_cfg out \<and> rep out' = foldl (put bs) (rep out) (skip_to a b)"
proof (cases "a < b")
  case True
  have "(b - a) * bs \<le> 4294967296 * 2147483647"
    using assms ok_bs [OF assms(1)] by (intro mult_mono) auto
  moreover have "0 \<le> (b - a) * bs" using True ok_bs [OF assms(1)] assms(2) by simp
  moreover have "u32 (b - a) = b - a" using assms(3,4) True by (simp add: u32_id)
  ultimately have "i64 (u32 (b - a) * bs) = (b - a) * bs"
    using assms(4) by (simp add: i64_id)
  then show ?thesis
    using skip_chunk_ok [OF assms(1,2), of "b - a"] True assms(6) by (simp add: skip_to_def)
qed (use assms in \<open>simp add: skip_to_def\<close>)

lemma write_blocks_ok:
  assumes "ok out" "bs = block_size out" "bs < 2147483648" "bbl_sorted bs xs" "0 \<le> last_block"
    "\<forall>b \<in> set xs. bb_ok bs b \<and> bb_writable E bs b \<and> last_block \<le> bb_block b"
    "total (rep out) + sum_list (map (cost bs) (blocks_chunks E bs last_block xs)) < 9223372036854775808"
  shows "\<exists>out'. write_blocks E bs last_block out xs = Inr (0, blocks_end bs last_block xs, out')
    \<and> ok out' \<and> out_cfg out' = out_cfg out
    \<and> rep out' = foldl (put bs) (rep out) (blocks_chunks E bs last_block xs)"
  using assms
proof (induction xs arbitrary: out last_block)
  case (Cons b xs)
  let ?sk = "skip_to last_block (bb_block b)" and ?c = "bb_chunk E bs b"
  let ?cs = "blocks_chunks E bs (bb_last bs b) xs"
  have b: "bb_ok bs b" "bb_writable E bs b" and bs: "0 < bs" using Cons.prems ok_bs by auto
  have cost: "total (rep out) + sum_list (map (cost bs) ?sk) + cost bs ?c + sum_list (map (cost bs) ?cs)
      < 9223372036854775808"
    using Cons.prems(7) by (simp add: add.assoc)
  obtain o1 where o1: "(if last_block < bb_block b then write_skip_chunk out (i64 (u32 (bb_block b - last_block) * bs))
        else Inr (0, out)) = Inr (0, o1)" "ok o1" "out_cfg o1 = out_cfg out"
      "rep o1 = foldl (put bs) (rep out) ?sk"
    using skip_to_ok [OF Cons.prems(1,2,5), of "bb_block b"] Cons.prems(3) cost cost_nonneg [of bs ?c]
      costs_nonneg [of bs ?cs] bb_okD [OF b(1)] bb_last_gt [OF bs b(1)] by auto
  have bs1: "bs = block_size o1" using o1(3) Cons.prems(2) by (simp add: out_cfg_def)
  obtain o2 where o2: "sparse_file_write_block E o1 b = Inr (0, o2)" "ok o2" "out_cfg o2 = out_cfg o1"
      "rep o2 = put bs (rep o1) ?c"
    using write_block_ok [OF o1(2) bs1 b] o1(4) cost costs_nonneg [of bs ?cs] by (auto simp: total_foldl)
  have bs2: "bs = block_size o2" using o2(3) bs1 by (simp add: out_cfg_def)
  obtain o3 where "write_blocks E bs (bb_last bs b) o2 xs = Inr (0, blocks_end bs (bb_last bs b) xs, o3)"
      "ok o3" "out_cfg o3 = out_cfg o2" "rep o3 = foldl (put bs) (rep o2) ?cs"
    using Cons.IH [OF o2(2) bs2 Cons.prems(3), of "bb_last bs b"] Cons.prems(4,6) o1(4) o2(4) cost
      bb_okD [OF b(1)] bb_last_gt [OF bs b(1)]
    by (auto simp: bbl_sorted_Cons total_foldl total_put)
  with o1 o2 show ?case
    unfolding write_blocks.simps backed_block_block_def o1(1) block_end_eq [OF bs b(1)] by simp
qed simp

lemma write_all_ok:
  assumes "ok out" "sf_block_size s = block_size out" "image_ok E s"
    "total (rep out) + sum_list (map (cost (block_size out)) (image_chunks E s)) < 9223372036854775808"
  shows "\<exists>out'. write_all_blocks E s out = Inr (0, out') \<and> ok out' \<and> out_cfg out' = out_cfg out
    \<and> rep out' = foldl (put (block_size out)) (rep out) (image_chunks E s)"
proof -
  let ?bs = "block_size out" and ?xs = "sf_blocks s"
  let ?e = "blocks_end ?bs 0 ?xs"
  let ?cs = "blocks_chunks E ?bs 0 ?xs" and ?sk = "skip_to ?e (sf_len s div ?bs)"
  note im = image_okD [OF assms(3,2)]
  have cs: "image_chunks E s = ?cs @ ?sk" using assms(2) by (simp add: image_chunks_def)
  have e0: "0 \<le> ?e" using blocks_end_ge [OF im(1,7)] im(8) by simp
  have cost: "total (rep out) + sum_list (map (cost ?bs) ?cs) + sum_list (map (cost ?bs) ?sk) < 9223372036854775808"
    using assms(4) cs by (simp add: add.assoc)
  obtain o1 where o1: "write_blocks E ?bs 0 out ?xs = Inr (0, ?e, o1)" "ok o1" "out_cfg o1 = out_cfg out"
      "rep o1 = foldl (put ?bs) (rep out) ?cs"
    using write_blocks_ok [OF assms(1) refl im(3,7), of 0 E] im(8) cost costs_nonneg [of ?bs ?sk] by auto
  have bs1: "block_size o1 = ?bs" using o1(3) by (simp add: out_cfg_def)
  have "0 \<le> ?e * ?bs" using e0 im(1) by simp
  then have i: "i64 (?e * ?bs) = ?e * ?bs" "i64 (sf_len s - ?e * ?bs) = sf_len s - ?e * ?bs"
    using im(9,10) by (simp_all add: i64_id)
  have k: "sf_len s - ?e * ?bs = (sf_len s div ?bs - ?e) * ?bs" using im(4) by (simp add: left_diff_distrib)
  show ?thesis
  proof (cases "?e < sf_len s div ?bs")
    case True
    then have pos: "0 < (sf_len s div ?bs - ?e) * ?bs" using im(1) by simp
    obtain o2 where "write_skip_chunk o1 ((sf_len s div ?bs - ?e) * ?bs) = Inr (0, o2)" "ok o2"
        "out_cfg o2 = out_cfg o1" "rep o2 = put ?bs (rep o1) (C_skip (sf_len s div ?bs - ?e))"
      using skip_chunk_ok [OF o1(2) bs1 [symmetric], of "sf_len s div ?bs - ?e"] True cost o1(4)
      by (auto simp: skip_to_def total_foldl)
    with True pos o1 i k im(9) cs assms(2) show ?thesis
      by (simp add: write_all_blocks_def backed_block_iter_new_def Let_def skip_to_def)
  next
    case False
    then have "(sf_len s div ?bs - ?e) * ?bs \<le> 0" using im(1) by (intro mult_nonpos_nonneg) auto
    then have "sf_len s - ?e * ?bs = 0" using k im(9) by linarith
    with False o1 i cs assms(2) show ?thesis
      by (simp add: write_all_blocks_def backed_block_iter_new_def Let_def skip_to_def)
  qed
qed

end

lemma length_pad_block_less: "0 < bs \<Longrightarrow> int (length (pad_block bs d)) < int (length d) + bs"
  using ceil_div_bounds(2) [of bs "int (length d)"] by (simp add: length_pad_block)

text \<open>
  The checksum of the sparse format. \<open>summed_bytes\<close> are the bytes a chunk adds to it: the data of a raw chunk with its padding,
  one block of a fill, whatever its length, and nothing of a gap.
\<close>

fun summed_bytes :: "int \<Rightarrow> chunk \<Rightarrow> byte list" where
  "summed_bytes bs (C_raw d) = d"
| "summed_bytes bs (C_fill n v) = fill_bytes (nat bs) v"
| "summed_bytes bs (C_skip n) = []"

definition crc_state :: "'s output_file \<Rightarrow> 32 word option" where
  "crc_state out = (if use_crc out then Some (crc32 out) else None)"

lemma funpow_crc: "((\<lambda>c. sparse_crc32 c xs) ^^ n) c = sparse_crc32 c (concat (replicate n xs))"
proof (induction n arbitrary: c)
  case (Suc n)
  have "((\<lambda>c. sparse_crc32 c xs) ^^ Suc n) c = ((\<lambda>c. sparse_crc32 c xs) ^^ n) (sparse_crc32 c xs)"
    by (simp only: funpow_Suc_right comp_apply)
  with Suc show ?case by (simp add: sparse_crc32_append)
qed (simp add: sparse_crc32_Nil)

lemma out_write_fields: "out_write out d n = (r, out') \<Longrightarrow> crc32 out' = crc32 out \<and> use_crc out' = use_crc out \<and> block_size out' = block_size out"
  by (auto simp: out_write_def split: prod.splits)

lemma sparse_skip_crc: "write_sparse_skip_chunk out n = Inr (0, out') \<Longrightarrow> crc_state out' = crc_state out"
  by (auto simp: write_sparse_skip_chunk_def crc_state_def dest!: out_write_fields split: prod.splits if_splits)

lemma sparse_fill_crc:
  assumes "write_sparse_fill_chunk out len v = Inr (0, out')" "4 dvd block_size out" "0 \<le> block_size out"
  shows "crc_state out' = map_option (\<lambda>c. sparse_crc32 c (fill_bytes (nat (block_size out)) v)) (crc_state out)"
proof -
  have four: "4 * nat (block_size out div 4) = nat (block_size out)"
    using assms(2,3) by (simp add: nat_mult_distrib [symmetric, of 4, simplified])
  have "crc_state out' = map_option ((\<lambda>c. sparse_crc32 c (le_bytes 4 v)) ^^ nat (block_size out div 4)) (crc_state out)"
    using assms(1) by (auto simp: write_sparse_fill_chunk_def crc_state_def Let_def dest!: out_write_fields split: prod.splits if_splits)
  also have "(\<lambda>c. sparse_crc32 c (le_bytes 4 v)) ^^ nat (block_size out div 4) = (\<lambda>c. sparse_crc32 c (fill_bytes (nat (block_size out)) v))"
    by (rule ext) (simp only: funpow_crc concat_replicate_fill four)
  finally show ?thesis .
qed

lemma sparse_data_crc:
  assumes "write_sparse_data_chunk out n d = Inr (0, out')" "bs = block_size out" "0 < bs" "0 < n" "ceil_div n bs * bs \<le> max_chunk" "nat n \<le> length d"
  shows "crc_state out' = map_option (\<lambda>c. sparse_crc32 c (pad_block bs (take (nat n) d))) (crc_state out)"
proof -
  define r where "r = ceil_div n bs * bs"
  have r: "n \<le> r" "r < n + bs" using ceil_div_bounds [OF assms(3), of n] by (simp_all add: r_def)
  have "1 * bs \<le> ceil_div n bs * bs" using assms(3,4) ceil_div_pos [of bs n] by (intro mult_right_mono) auto
  then have r': "bs \<le> r" "r \<le> 2147479552" using assms(5) by (simp_all add: r_def max_chunk_def max_rw_count_def)
  have "n + bs \<le> 4294967296" using r r' by linarith
  then have al: "i32 (align_u32 n bs) = r" "i32 (r - n) = r - n" using assms(3,4) r r' by (simp_all add: align_u32_eq r_def [symmetric] i32_id)
  have "pad_block bs (take (nat n) d) = take (nat n) d @ take (nat (r - n)) (replicate (nat bs) 0)"
    using assms(3,4,6) r by (simp add: pad_block_def r_def nat_diff_distrib min_def)
  then show ?thesis
    using assms(1-3) al
    by (auto simp: write_sparse_data_chunk_def crc_state_def zero_buf_def Let_def sparse_crc32_append dest!: out_write_fields split: prod.splits if_splits)
qed

text \<open>In the sparse format a chunk adds its encoding to what has been written and its bytes to the checksum.\<close>

sublocale byte_writer \<subseteq> sparse: chunk_writer
  "\<lambda>out. ops out = os \<and> good (sink out) \<and> is_sparse out \<and> 0 < block_size out \<and> 4 dvd block_size out" "\<lambda>out. (taken (sink out), crc_state out)"
  "\<lambda>bs a c. (app (fst a) (encode_chunk bs c), map_option (\<lambda>k. sparse_crc32 k (summed_bytes bs c)) (snd a))"
  "\<lambda>a. size_of (fst a)" "\<lambda>bs c. int (length (encode_chunk bs c))"
proof (unfold_locales, goal_cases)
  case (4 out bs n d c)
  have "\<exists>out'. write_sparse_data_chunk out n d = Inr (0, out') \<and> out_cfg out' = out_cfg out
    \<and> good (sink out') \<and> taken (sink out') = app (taken (sink out)) (encode_chunk bs c)"
    using write_sparse_data_chunk_ok [of out bs n d] 4 by (simp add: length_pad_block)
  then obtain out' where o: "write_sparse_data_chunk out n d = Inr (0, out')" "out_cfg out' = out_cfg out"
    "good (sink out')" "taken (sink out') = app (taken (sink out)) (encode_chunk bs c)" by blast
  then show ?case using 4 sparse_data_crc [OF o(1) 4(2)] by (simp add: write_data_chunk_def out_cfg_def)
next
  case (5 out bs k v)
  then have "\<exists>out'. write_sparse_fill_chunk out (k * bs) v = Inr (0, out') \<and> out_cfg out' = out_cfg out
    \<and> good (sink out') \<and> taken (sink out') = app (taken (sink out)) (encode_chunk bs (C_fill k v))"
    by (intro write_sparse_fill_chunk_ok) auto
  then obtain out' where o: "write_sparse_fill_chunk out (k * bs) v = Inr (0, out')" "out_cfg out' = out_cfg out"
    "good (sink out')" "taken (sink out') = app (taken (sink out)) (encode_chunk bs (C_fill k v))" by blast
  then show ?case using 5 sparse_fill_crc [OF o(1)] by (simp add: write_fill_chunk_def out_cfg_def)
next
  case (6 out bs k)
  then have "\<exists>out'. write_sparse_skip_chunk out (k * bs) = Inr (0, out') \<and> out_cfg out' = out_cfg out
    \<and> good (sink out') \<and> taken (sink out') = app (taken (sink out)) (encode_chunk bs (C_skip k))"
    by (intro write_sparse_skip_chunk_ok) auto
  then obtain out' where o: "write_sparse_skip_chunk out (k * bs) = Inr (0, out')" "out_cfg out' = out_cfg out"
    "good (sink out')" "taken (sink out') = app (taken (sink out)) (encode_chunk bs (C_skip k))" by blast
  then show ?case using 6 sparse_skip_crc [OF o(1)] by (simp add: write_skip_chunk_def out_cfg_def sparse_crc32_Nil option.map_ident)
qed (simp_all add: size_app)

sublocale byte_sink \<subseteq> plain: chunk_writer
  "\<lambda>out. ops out = os \<and> good (sink out) \<and> \<not> is_sparse out \<and> 0 < block_size out \<and> 4 dvd block_size out
     \<and> length (fill_buf out) = nat (block_size out)" "\<lambda>out. taken (sink out)"
  "\<lambda>bs a c. app a (expand_chunk bs c)" size_of "\<lambda>bs c. int (length (expand_chunk bs c))"
proof (unfold_locales, goal_cases)
  case (4 out bs n d c)
  have "\<exists>out'. write_normal_data_chunk out n d = Inr (0, out') \<and> out_cfg out' = out_cfg out
    \<and> good (sink out') \<and> taken (sink out') = app (taken (sink out)) (expand_chunk bs c)"
    using write_normal_data_chunk_ok [of out bs n d] 4 by (simp add: length_pad_block)
  then show ?case using 4 by (fastforce simp: write_data_chunk_def out_cfg_def)
next
  case (5 out bs k v)
  then have "0 \<le> k * bs" by simp
  then have "\<exists>out'. write_normal_fill_chunk out (k * bs) v = Inr (0, out') \<and> out_cfg out' = out_cfg out
    \<and> good (sink out') \<and> taken (sink out') = app (taken (sink out)) (expand_chunk bs (C_fill k v))"
    using write_normal_fill_chunk_ok [of out bs k v] 5 by simp
  then show ?case using 5 by (fastforce simp: write_fill_chunk_def out_cfg_def)
next
  case (6 out bs k)
  then have "0 \<le> k * bs" by simp
  then have "\<exists>out'. write_normal_skip_chunk out (k * bs) = (0, out') \<and> out_cfg out' = out_cfg out
    \<and> good (sink out') \<and> taken (sink out') = app (taken (sink out)) (expand_chunk bs (C_skip k))"
    using write_normal_skip_chunk_ok [of out "k * bs"] 6 by simp
  then show ?case using 6 by (fastforce simp: write_skip_chunk_def out_cfg_def)
qed (auto simp: size_app)

text \<open>An allocator that never fails, and opening an output file with it.\<close>

definition mem_ok :: "mem \<Rightarrow> bool" where
  "mem_ok m \<longleftrightarrow> (\<forall>k. \<not> mem_fail m k)"

lemma malloc_ok: "mem_ok m \<Longrightarrow> malloc m = (Some (mem_next m), m\<lparr>mem_next := Suc (mem_next m)\<rparr>)"
  by (simp add: malloc_def mem_ok_def)

lemma mem_ok_next [simp]: "mem_ok (m\<lparr>mem_next := k\<rparr>) = mem_ok m"
  by (simp add: mem_ok_def)

definition image_header :: "int \<Rightarrow> int \<Rightarrow> int \<Rightarrow> bool \<Rightarrow> sparse_header" where
  "image_header bs len chunks crc =
     \<lparr>magic = SPARSE_HEADER_MAGIC, major_version = SPARSE_HEADER_MAJOR_VER,
      minor_version = SPARSE_HEADER_MINOR_VER, file_hdr_sz = SPARSE_HEADER_LEN,
      chunk_hdr_sz = CHUNK_HEADER_LEN, blk_sz = bs, total_blks = c_div len bs,
      total_chunks = (if crc then chunks + 1 else chunks), image_checksum = 0\<rparr>"

context byte_writer
begin

lemma output_file_open_ok:
  assumes "mem_ok m" "good s" "0 < bs" "bs < 2147483648" "size_of (taken s) + 28 < 9223372036854775808"
  shows "\<exists>out. output_file_open m os s bs len sparse chunks crc = (Inr (Inr out), m\<lparr>mem_next := mem_next m + 3\<rparr>)
    \<and> ops out = os \<and> is_sparse out = sparse \<and> use_crc out = crc \<and> block_size out = bs \<and> out_len out = len
    \<and> length (fill_buf out) = nat bs \<and> crc32 out = 0 \<and> good (sink out)
    \<and> taken (sink out) = (if sparse then app (taken s) (sparse_header_bytes (image_header bs len chunks crc)) else taken s)"
proof -
  have c: "i32 bs = bs" "u32 bs = bs" using assms by (simp_all add: i32_id u32_id)
  define out where "out = \<lparr>cur_out_ptr = 0, chunk_cnt = 0, crc32 = 0, ops = os, is_sparse = sparse, use_crc = crc,
    block_size = bs, out_len = len, fill_buf = replicate (nat bs) 0, sink = s\<rparr>"
  have h: "sparse_file_header out chunks = image_header bs len chunks crc"
    by (simp add: sparse_file_header_def image_header_def out_def)
  obtain s' where s': "out_write out (sparse_header_bytes (image_header bs len chunks crc)) 28 = (0, out\<lparr>sink := s'\<rparr>)"
    "good s'" "taken s' = app (taken s) (sparse_header_bytes (image_header bs len chunks crc))"
    using out_write_ok [of out 28 "sparse_header_bytes (image_header bs len chunks crc)"] assms
    by (auto simp: out_def max_chunk_def max_rw_count_def)
  have "block_size out = bs" by (simp add: out_def)
  then have "output_file_init (m\<lparr>mem_next := Suc (mem_next m)\<rparr>) os s bs len sparse chunks crc =
      (Inr (0, if sparse then out\<lparr>sink := s'\<rparr> else out), m\<lparr>mem_next := mem_next m + 3\<rparr>)"
    using assms(1,3) c s'(1) h
    by (simp add: output_file_init_def Let_def calloc_buf_def malloc_ok numeral_3_eq_3 SPARSE_HEADER_LEN_def
        flip: out_def)
  then show ?thesis
    using assms(1,2) s' by (auto simp: output_file_open_def malloc_ok out_def)
qed

end

section \<open>The chunks and the image\<close>

lemma blocks_chunks_append:
  "blocks_chunks E bs l (xs @ ys) = blocks_chunks E bs l xs @ blocks_chunks E bs (blocks_end bs l xs) ys"
  by (induction xs arbitrary: l) simp_all

lemma blocks_end_append: "blocks_end bs l (xs @ ys) = blocks_end bs (blocks_end bs l xs) ys"
  by (induction xs arbitrary: l) simp_all

lemma blocks_chunks_count:
  assumes "0 < bs" "bbl_sorted bs xs" "\<forall>b \<in> set xs. bb_ok bs b \<and> last_block \<le> bb_block b"
  shows "int (length (blocks_chunks E bs last_block xs)) \<le> blocks_end bs last_block xs - last_block"
  using assms
proof (induction xs arbitrary: last_block)
  case (Cons b xs)
  then have "int (length (blocks_chunks E bs (bb_last bs b) xs)) \<le> blocks_end bs (bb_last bs b) xs - bb_last bs b"
    by (intro Cons.IH) (auto simp: bbl_sorted_Cons)
  moreover have "bb_block b < bb_last bs b" using Cons.prems by (intro bb_last_gt) auto
  ultimately show ?case using Cons.prems(3) by (simp add: skip_to_def)
qed simp

lemma count_chunks_loop_eq:
  assumes "0 < bs" "bbl_sorted bs xs" "\<forall>b \<in> set xs. bb_ok bs b \<and> last_block \<le> bb_block b"
    "0 \<le> c" "c + int (length (blocks_chunks E bs last_block xs)) < 4294967296"
  shows "count_chunks_loop bs last_block c xs =
    (blocks_end bs last_block xs, c + int (length (blocks_chunks E bs last_block xs)))"
  using assms
proof (induction xs arbitrary: last_block c)
  case (Cons b xs)
  let ?c = "c + int (length (skip_to last_block (bb_block b))) + 1"
  have "count_chunks_loop bs (bb_last bs b) ?c xs =
      (blocks_end bs (bb_last bs b) xs, ?c + int (length (blocks_chunks E bs (bb_last bs b) xs)))"
    using Cons.prems by (intro Cons.IH) (auto simp: bbl_sorted_Cons)
  with Cons.prems show ?case
    by (cases "last_block < bb_block b")
      (simp_all add: Let_def backed_block_block_def block_end_eq skip_to_def u32_id add.assoc)
qed simp

lemma image_chunks_count:
  assumes "image_ok E s"
  shows "int (length (image_chunks E s)) \<le> sf_len s div sf_block_size s"
    "sparse_count_chunks s = Inr (int (length (image_chunks E s)))"
proof -
  define bs where "bs = sf_block_size s"
  note im = image_okD [OF assms bs_def [symmetric]]
  let ?e = "blocks_end bs 0 (sf_blocks s)" and ?l = "sf_len s div bs"
  have cnt: "int (length (blocks_chunks E bs 0 (sf_blocks s))) \<le> ?e"
    using blocks_chunks_count [OF im(1,7), of 0 E] im(8) by simp
  have "?e * bs \<le> ?l * bs" using im(4,9) by simp
  then have e: "?e \<le> ?l" using im(1) by simp
  then show l: "int (length (image_chunks E s)) \<le> sf_len s div sf_block_size s"
    using cnt by (simp add: image_chunks_def skip_to_def bs_def)
  have "0 \<le> ?e" using cnt by linarith
  then have "0 \<le> sf_len s" using im(1,9) by (metis less_imp_le mult_nonneg_nonneg order_trans)
  then have "c_div (i64 (sf_len s + bs - 1)) bs = (sf_len s + bs - 1) div bs"
    using im(1,3,10) by (simp add: i64_id c_div_nonneg)
  then have "c_div (i64 (sf_len s + bs - 1)) bs = ?l"
    using ceil_div_dvd [OF im(1,4)] by (simp add: ceil_div_def)
  moreover have "count_chunks_loop bs 0 0 (sf_blocks s) = (?e, 0 + int (length (blocks_chunks E bs 0 (sf_blocks s))))"
    using cnt e im(5,8) by (intro count_chunks_loop_eq im) auto
  ultimately show "sparse_count_chunks s = Inr (int (length (image_chunks E s)))"
    using im(1,5) l e cnt
    by (simp add: sparse_count_chunks_def backed_block_iter_new_def image_chunks_def skip_to_def u32_id
        flip: bs_def)
qed

text \<open>The byte an origin denotes, and the byte at an offset of the image; offsets no block covers are zero.\<close>

fun origin_byte :: "env \<Rightarrow> origin \<Rightarrow> byte option" where
  "origin_byte E (O_byte b) = Some b"
| "origin_byte E O_none = None"
| "origin_byte E (O_file f j) =
     (case f of None \<Rightarrow> None
      | Some name \<Rightarrow>
          (case env_open E name of
             Inl _ \<Rightarrow> None
           | Inr fd \<Rightarrow> (case env_fd E fd of Inl _ \<Rightarrow> None | Inr d \<Rightarrow> Some (d ! nat j))))"
| "origin_byte E (O_fd fd j) = (case env_fd E fd of Inl _ \<Rightarrow> None | Inr d \<Rightarrow> Some (d ! nat j))"

definition view_byte :: "env \<Rightarrow> origin option \<Rightarrow> byte option" where
  "view_byte E v = (case v of None \<Rightarrow> Some 0 | Some r \<Rightarrow> origin_byte E r)"

definition image_byte :: "env \<Rightarrow> sparse_file \<Rightarrow> int \<Rightarrow> byte option" where
  "image_byte E s x = view_byte E (bbl_view (sf_block_size s) (sf_blocks s) x)"

definition image_bytes :: "env \<Rightarrow> sparse_file \<Rightarrow> byte list" where
  "image_bytes E s = concat (map (expand_chunk (sf_block_size s)) (image_chunks E s))"

lemma concat_replicate_nth:
  "0 < length x \<Longrightarrow> j < n * length x \<Longrightarrow> concat (replicate n x) ! j = x ! (j mod length x)"
proof (induction n arbitrary: j)
  case (Suc n)
  show ?case
  proof (cases "j < length x")
    case False
    with Suc.prems have "concat (replicate n x) ! (j - length x) = x ! ((j - length x) mod length x)"
      by (intro Suc.IH) auto
    with False show ?thesis by (simp add: nth_append le_mod_geq)
  qed (simp add: nth_append)
qed simp

lemma fill_bytes_nth: "j < n \<Longrightarrow> fill_bytes n v ! j = le_bytes 4 v ! (j mod 4)"
  using concat_replicate_nth [of "le_bytes 4 v" j "n div 4 + 1"]
  by (simp add: fill_bytes_def del: le_bytes.simps replicate.simps)

lemma fd_bytes_origin:
  assumes "fd_bytes E fd off n = Some d" "0 \<le> j" "j < n"
  shows "origin_byte E (O_fd fd (i64 (off + j))) = Some (d ! nat j)"
proof -
  obtain x where "env_fd E fd = Inr x" "0 \<le> off" "off + n \<le> int (length x)" "off + n < 9223372036854775808"
    "d = bslice (nat off) (nat n) x"
    using assms(1) by (auto simp: fd_bytes_def split: sum.splits if_splits)
  with assms(2,3) show ?thesis by (simp add: i64_id bslice_def nat_add_distrib)
qed

lemma payload_bytes_origin:
  assumes "payload_bytes E p n = Some d" "0 \<le> j" "j < n"
  shows "origin_byte E (payload_origin p j) = Some (d ! nat j)"
proof (cases p)
  case (BB_Fill v)
  have "nat (j mod 4) = nat j mod 4" using assms(2) by (simp add: nat_mod_distrib)
  with BB_Fill assms show ?thesis by (auto simp: fill_bytes_nth simp del: le_bytes.simps)
next
  case (BB_File f off)
  then show ?thesis
    using assms fd_bytes_origin [of E _ off n d j] by (fastforce split: option.splits sum.splits)
qed (use assms fd_bytes_origin in \<open>auto split: if_splits\<close>)

lemma expand_bb_chunk:
  assumes "0 < bs" "bb_ok bs b" "bb_writable E bs b"
  shows "int (length (expand_chunk bs (bb_chunk E bs b))) = ceil_div (bb_len b) bs * bs"
    "0 \<le> j \<Longrightarrow> j < bb_len b \<Longrightarrow>
      origin_byte E (payload_origin (bb_payload b) j) = Some (expand_chunk bs (bb_chunk E bs b) ! nat j)"
    "bb_len b \<le> j \<Longrightarrow> j < ceil_div (bb_len b) bs * bs \<Longrightarrow> expand_chunk bs (bb_chunk E bs b) ! nat j = 0"
proof -
  obtain d where d: "payload_bytes E (bb_payload b) (bb_len b) = Some d"
    using assms(3) by (auto simp: bb_writable_def)
  have len: "length d = nat (bb_len b)" "0 < bb_len b"
    using payload_bytes_length [OF d] assms(2) by (auto simp: bb_ok_def)
  have ex: "expand_chunk bs (bb_chunk E bs b) = pad_block bs d"
  proof (cases "bb_payload b")
    case (BB_Fill v)
    then have "bs dvd bb_len b" "d = fill_bytes (nat (bb_len b)) v"
      using assms(3) d by (auto simp: bb_writable_def)
    with BB_Fill len assms(1) show ?thesis by (simp add: bb_chunk_def pad_block_dvd)
  qed (use d in \<open>simp_all add: bb_chunk_def\<close>)
  then show "int (length (expand_chunk bs (bb_chunk E bs b))) = ceil_div (bb_len b) bs * bs"
    using len assms(1) by (simp add: length_pad_block)
  show "origin_byte E (payload_origin (bb_payload b) j) = Some (expand_chunk bs (bb_chunk E bs b) ! nat j)"
    if "0 \<le> j" "j < bb_len b"
    using payload_bytes_origin [OF d that] that len by (simp add: ex pad_block_def nth_append)
  show "expand_chunk bs (bb_chunk E bs b) ! nat j = 0"
    if "bb_len b \<le> j" "j < ceil_div (bb_len b) bs * bs"
    using that len by (simp add: ex pad_block_def nth_append)
qed

lemma skip_to_expand: "a \<le> b \<Longrightarrow> concat (map (expand_chunk bs) (skip_to a b)) = replicate (nat ((b - a) * bs)) 0"
  by (auto simp: skip_to_def)

lemma bbl_view_below:
  assumes "0 < bs" "\<forall>b \<in> set xs. last_block \<le> bb_block b" "x < last_block * bs"
  shows "bbl_view bs xs x = None"
proof -
  have "\<not> bb_covers bs b x" if "b \<in> set xs" for b
  proof -
    have "last_block * bs \<le> bb_block b * bs" using assms that by simp
    then show ?thesis using assms(3) by (simp add: bb_covers_def)
  qed
  then show ?thesis by (simp add: bbl_view_eq_None)
qed

lemma blocks_end_last:
  assumes "0 < bs" "bbl_sorted bs xs" "\<forall>b \<in> set xs. bb_ok bs b \<and> last_block \<le> bb_block b" "b \<in> set xs"
  shows "bb_last bs b \<le> blocks_end bs last_block xs"
  using assms
proof (induction xs arbitrary: last_block)
  case (Cons c xs)
  show ?case
  proof (cases "b = c")
    case True
    with Cons.prems show ?thesis
      using blocks_end_ge [of bs xs "bb_last bs c"] by (auto simp: bbl_sorted_Cons)
  next
    case False
    with Cons.prems show ?thesis by (auto simp: bbl_sorted_Cons intro: Cons.IH)
  qed
qed simp

abbreviation expand_chunks :: "int \<Rightarrow> chunk list \<Rightarrow> byte list" where
  "expand_chunks bs cs \<equiv> concat (map (expand_chunk bs) cs)"

lemma blocks_image_length:
  assumes "0 < bs" "bbl_sorted bs xs" "\<forall>b \<in> set xs. bb_ok bs b \<and> bb_writable E bs b \<and> last_block \<le> bb_block b"
  shows "int (length (expand_chunks bs (blocks_chunks E bs last_block xs))) = (blocks_end bs last_block xs - last_block) * bs"
  using assms
proof (induction xs arbitrary: last_block)
  case (Cons b xs)
  have b: "bb_ok bs b" "bb_writable E bs b" "last_block \<le> bb_block b" using Cons.prems by auto
  have "0 \<le> (bb_block b - last_block) * bs" using b(3) Cons.prems(1) by simp
  moreover have "int (length (expand_chunks bs (blocks_chunks E bs (bb_last bs b) xs)))
      = (blocks_end bs (bb_last bs b) xs - bb_last bs b) * bs"
    using Cons.prems by (intro Cons.IH) (auto simp: bbl_sorted_Cons)
  ultimately show ?case
    using expand_bb_chunk(1) [OF Cons.prems(1) b(1,2)]
    by (simp add: skip_to_expand b(3) bb_last_def left_diff_distrib distrib_right)
qed simp

lemma blocks_image_nth:
  assumes "0 < bs" "bbl_sorted bs xs" "\<forall>b \<in> set xs. bb_ok bs b \<and> bb_writable E bs b \<and> last_block \<le> bb_block b"
    "last_block * bs \<le> x" "x < blocks_end bs last_block xs * bs"
  shows "view_byte E (bbl_view bs xs x) = Some (expand_chunks bs (blocks_chunks E bs last_block xs) ! nat (x - last_block * bs))"
  using assms
proof (induction xs arbitrary: last_block)
  case (Cons b xs)
  have b: "bb_ok bs b" "bb_writable E bs b" "last_block \<le> bb_block b" using Cons.prems by auto
  let ?B = "expand_chunk bs (bb_chunk E bs b)" and ?C = "expand_chunks bs (blocks_chunks E bs (bb_last bs b) xs)"
  let ?z = "replicate (nat ((bb_block b - last_block) * bs)) 0 :: byte list"
  have list: "expand_chunks bs (blocks_chunks E bs last_block (b # xs)) = ?z @ ?B @ ?C"
    using b(3) by (simp add: skip_to_expand)
  have rest: "\<forall>c \<in> set xs. bb_last bs b \<le> bb_block c" "bb_block b \<le> bb_last bs b"
    using Cons.prems(2) bb_last_gt [OF Cons.prems(1) b(1)] by (auto simp: bbl_sorted_Cons)
  define p where "p = bb_block b * bs"
  have lp: "last_block * bs \<le> p" using b(3) Cons.prems(1) by (simp add: p_def)
  have zl: "int (length ?z) = p - last_block * bs"
    using b(3) Cons.prems(1) by (simp add: p_def left_diff_distrib)
  have Bl: "int (length ?B) = ceil_div (bb_len b) bs * bs" by (rule expand_bb_chunk(1) [OF Cons.prems(1) b(1,2)])
  have lst: "bb_last bs b * bs = p + ceil_div (bb_len b) bs * bs" by (simp add: bb_last_def p_def distrib_right)
  have cov: "bb_covers bs b x \<longleftrightarrow> p \<le> x \<and> x < p + bb_len b" by (simp add: bb_covers_def p_def)
  have lle: "bb_len b \<le> ceil_div (bb_len b) bs * bs" using Cons.prems(1) by (rule ceil_div_bounds)
  consider "x < p" | "p \<le> x" "x < bb_last bs b * bs" | "bb_last bs b * bs \<le> x" by linarith
  then show ?case
  proof cases
    case 1
    have "bbl_view bs (b # xs) x = None"
      using 1 Cons.prems(1) rest by (intro bbl_view_below [of _ _ "bb_block b"]) (auto simp: p_def)
    moreover have "nat (x - last_block * bs) < length ?z" using 1 zl Cons.prems(4) by linarith
    ultimately show ?thesis unfolding list by (simp add: view_byte_def nth_append del: bbl_view.simps)
  next
    case 2
    have idx: "nat (x - last_block * bs) = length ?z + nat (x - p)" using 2 zl Cons.prems(4) lp by linarith
    have "nat (x - p) < length ?B" using 2 Bl lst by linarith
    then have "(?z @ ?B @ ?C) ! nat (x - last_block * bs) = ?B ! nat (x - p)"
      unfolding idx nth_append_length_plus by (simp add: nth_append)
    moreover have "view_byte E (bbl_view bs (b # xs) x) = Some (?B ! nat (x - p))"
    proof (cases "x < p + bb_len b")
      case True
      then show ?thesis
        using 2 cov expand_bb_chunk(2) [OF Cons.prems(1) b(1,2), of "x - p"]
        by (simp add: view_byte_def bb_origin_def p_def)
    next
      case False
      then have "?B ! nat (x - p) = 0"
        using 2 lst by (intro expand_bb_chunk(3) [OF Cons.prems(1) b(1,2)]) auto
      then show ?thesis
        using False cov bbl_view_below [OF Cons.prems(1) rest(1) 2(2)] by (simp add: view_byte_def)
    qed
    ultimately show ?thesis unfolding list by simp
  next
    case 3
    have "nat (x - last_block * bs) = length ?z + (length ?B + nat (x - bb_last bs b * bs))"
      using 3 zl Bl lst lp lle bb_okD [OF b(1)] by linarith
    then have "(?z @ ?B @ ?C) ! nat (x - last_block * bs) = ?C ! nat (x - bb_last bs b * bs)"
      by (simp only: nth_append_length_plus)
    moreover have "view_byte E (bbl_view bs xs x) = Some (?C ! nat (x - bb_last bs b * bs))"
      using Cons.prems rest 3 by (intro Cons.IH) (auto simp: bbl_sorted_Cons)
    ultimately show ?thesis using 3 cov lst lle unfolding list by auto
  qed
qed simp

lemma image_end:
  assumes "image_ok E s" "sf_block_size s = bs"
  shows "0 \<le> blocks_end bs 0 (sf_blocks s)" "blocks_end bs 0 (sf_blocks s) \<le> sf_len s div bs"
proof -
  note im = image_okD [OF assms]
  show "0 \<le> blocks_end bs 0 (sf_blocks s)"
    using blocks_end_ge [OF im(1,7)] im(8) by simp
  have "blocks_end bs 0 (sf_blocks s) * bs \<le> sf_len s div bs * bs" using im(4,9) by simp
  then show "blocks_end bs 0 (sf_blocks s) \<le> sf_len s div bs" using im(1) by simp
qed

lemma image_bytes_length:
  assumes "image_ok E s"
  shows "int (length (image_bytes E s)) = sf_len s"
proof -
  define bs where "bs = sf_block_size s"
  note im = image_okD [OF assms bs_def [symmetric]] and e = image_end [OF assms bs_def [symmetric]]
  have "0 \<le> (sf_len s div bs - blocks_end bs 0 (sf_blocks s)) * bs" using e im(1) by simp
  then show ?thesis
    using blocks_image_length [OF im(1,7), of E 0] im(4,8) e(2)
    by (simp add: image_bytes_def image_chunks_def skip_to_expand left_diff_distrib flip: bs_def)
qed

lemma image_bytes_nth:
  assumes "image_ok E s" "0 \<le> x" "x < sf_len s"
  shows "image_byte E s x = Some (image_bytes E s ! nat x)"
proof -
  define bs where "bs = sf_block_size s"
  note im = image_okD [OF assms(1) bs_def [symmetric]] and e = image_end [OF assms(1) bs_def [symmetric]]
  let ?e = "blocks_end bs 0 (sf_blocks s)" and ?B = "expand_chunks bs (blocks_chunks E bs 0 (sf_blocks s))"
  let ?z = "replicate (nat ((sf_len s div bs - ?e) * bs)) 0 :: byte list"
  have list: "image_bytes E s = ?B @ ?z"
    using e(2) by (simp add: image_bytes_def image_chunks_def skip_to_expand flip: bs_def)
  have Bl: "int (length ?B) = ?e * bs" using blocks_image_length [OF im(1,7), of E 0] im(8) by simp
  have all: "int (length ?B) + int (length ?z) = sf_len s"
    using image_bytes_length [OF assms(1)] unfolding list by simp
  show ?thesis
  proof (cases "x < ?e * bs")
    case True
    then have "nat x < length ?B" using Bl assms(2) by linarith
    then have "image_bytes E s ! nat x = ?B ! nat x" unfolding list by (simp add: nth_append)
    with True show ?thesis
      using blocks_image_nth [OF im(1,7), of E 0 x] im(8) assms(2) by (simp add: image_byte_def flip: bs_def)
  next
    case False
    have none: "bbl_view bs (sf_blocks s) x = None"
    proof -
      have "\<not> bb_covers bs b x" if b: "b \<in> set (sf_blocks s)" for b
      proof
        assume c: "bb_covers bs b x"
        have "bb_last bs b \<le> ?e" using blocks_end_last [OF im(1,7), of 0 b] im(8) b by auto
        then have "bb_last bs b * bs \<le> ?e * bs" using im(1) by simp
        with bb_covers_lt_last [OF im(1) c] False show False by simp
      qed
      then show ?thesis by (simp add: bbl_view_eq_None)
    qed
    have "nat x - length ?B < length ?z" "\<not> nat x < length ?B" using all Bl False assms(2,3) by linarith+
    then have "image_bytes E s ! nat x = 0" unfolding list by (simp add: nth_append)
    with none show ?thesis by (simp add: image_byte_def view_byte_def flip: bs_def)
  qed
qed

section \<open>The whole output\<close>

definition crc_chunk_bytes :: "32 word \<Rightarrow> byte list" where
  "crc_chunk_bytes c = chunk_header_bytes \<lparr>chunk_type = CHUNK_TYPE_CRC32, reserved1 = 0, chunk_sz = 0,
     total_sz = CHUNK_HEADER_LEN + 4\<rparr> @ le_bytes 4 (uint c)"

definition sparse_bytes :: "env \<Rightarrow> sparse_file \<Rightarrow> 32 word option \<Rightarrow> byte list" where
  "sparse_bytes E s crc =
     sparse_header_bytes (image_header (sf_block_size s) (sf_len s) (int (length (image_chunks E s))) (crc \<noteq> None))
     @ concat (map (encode_chunk (sf_block_size s)) (image_chunks E s))
     @ (case crc of None \<Rightarrow> [] | Some c \<Rightarrow> crc_chunk_bytes c)"

text \<open>The checksum \<open>sparse_file_write\<close> computes.\<close>

definition image_crc :: "env \<Rightarrow> sparse_file \<Rightarrow> 32 word" where
  "image_crc E s = sparse_crc32 0 (concat (map (summed_bytes (sf_block_size s)) (image_chunks E s)))"

lemma encode_chunk_bound: "int (length (encode_chunk bs c)) \<le> 16 + int (length (expand_chunk bs c))"
  by (cases c) (simp_all del: le_bytes.simps)

lemma sum_list_length: "sum_list (map (\<lambda>c. int (length (f c))) cs) = int (length (concat (map f cs)))"
  by (induction cs) simp_all

lemma encoded_bound:
  "int (length (concat (map (encode_chunk bs) cs))) \<le> 16 * int (length cs) + int (length (expand_chunks bs cs))"
proof (induction cs)
  case (Cons c cs)
  with encode_chunk_bound [of bs c] show ?case by simp
qed simp

lemma image_bounds:
  assumes "image_ok E s"
  shows "int (length (image_chunks E s)) < 2147483648"
    "int (length (image_bytes E s)) < 4611686018427387904"
    "int (length (concat (map (encode_chunk (sf_block_size s)) (image_chunks E s)))) < 4611686052787126272"
proof -
  show c: "int (length (image_chunks E s)) < 2147483648"
    using image_chunks_count(1) [OF assms] image_okD(5) [OF assms refl] by simp
  show b: "int (length (image_bytes E s)) < 4611686018427387904"
    using image_bytes_length [OF assms] image_okD(10) [OF assms refl] by simp
  have "int (length (concat (map (encode_chunk (sf_block_size s)) (image_chunks E s))))
      \<le> 16 * int (length (image_chunks E s)) + int (length (image_bytes E s))"
    unfolding image_bytes_def by (rule encoded_bound)
  with c b show "int (length (concat (map (encode_chunk (sf_block_size s)) (image_chunks E s)))) < 4611686052787126272"
    by linarith
qed

context byte_writer
begin

lemma foldl_app: "foldl (\<lambda>a c. app a (f c)) (app a xs) cs = app a (xs @ concat (map f cs))"
  by (induction cs arbitrary: xs) (simp_all add: app_app)

lemma foldl_sparse:
  "foldl (\<lambda>a c. (app (fst a) (f c), map_option (\<lambda>k. sparse_crc32 k (g c)) (snd a))) (app a xs, k) cs
    = (app a (xs @ concat (map f cs)), map_option (\<lambda>k. sparse_crc32 k (concat (map g cs))) k)"
  by (induction cs arbitrary: xs k)
    (simp_all add: app_app sparse_crc32_Nil sparse_crc32_append option.map_comp comp_def option.map_ident)

lemma close_sparse:
  assumes "ops out = os" "good (sink out)" "is_sparse out" "size_of (taken (sink out)) + 16 < 9223372036854775808"
  shows "\<exists>s'. output_file_close out = op_close os s' \<and> good s' \<and>
    taken s' = (if use_crc out then app (taken (sink out)) (crc_chunk_bytes (crc32 out)) else taken (sink out))"
proof (cases "use_crc out")
  case True
  let ?h = "chunk_header_bytes \<lparr>chunk_type = CHUNK_TYPE_CRC32, reserved1 = 0, chunk_sz = 0, total_sz = CHUNK_HEADER_LEN + 4\<rparr>"
  let ?c = "le_bytes 4 (uint (crc32 out))"
  obtain s1 where s1: "out_write out ?h 12 = (0, out\<lparr>sink := s1\<rparr>)" "good s1" "taken s1 = app (taken (sink out)) ?h"
    using out_write_ok [OF assms(1,2), of 12 ?h] assms(4) by (auto simp: max_chunk_def max_rw_count_def)
  obtain s2 where s2: "out_write (out\<lparr>sink := s1\<rparr>) ?c 4 = (0, out\<lparr>sink := s2\<rparr>)" "good s2" "taken s2 = app (taken s1) ?c"
    using out_write_ok [of "out\<lparr>sink := s1\<rparr>" 4 ?c] s1 assms
    by (auto simp: max_chunk_def max_rw_count_def size_app simp del: le_bytes.simps)
  from s1 s2 True assms show ?thesis
    by (intro exI [of _ s2]) (simp add: output_file_close_def write_sparse_end_chunk_def CHUNK_HEADER_LEN_def app_app crc_chunk_bytes_def
        del: le_bytes.simps)
qed (use assms in \<open>auto simp: output_file_close_def write_sparse_end_chunk_def\<close>)

lemma sparse_write_ok:
  assumes "mem_ok m" "good s0" "image_ok E s" "size_of (taken s0) = 0"
  shows "\<exists>out out' s'. output_file_open m os s0 (sf_block_size s) (sf_len s) True (int (length (image_chunks E s))) crc
      = (Inr (Inr out), m\<lparr>mem_next := mem_next m + 3\<rparr>)
    \<and> write_all_blocks E s out = Inr (0, out') \<and> output_file_close out' = op_close os s' \<and> good s'
    \<and> taken s' = app (taken s0) (sparse_bytes E s (if crc then Some (image_crc E s) else None))"
proof -
  define bs where "bs = sf_block_size s"
  note im = image_okD [OF assms(3) bs_def [symmetric]] and bd = image_bounds [OF assms(3), folded bs_def]
  let ?cs = "image_chunks E s"
  let ?h = "sparse_header_bytes (image_header bs (sf_len s) (int (length ?cs)) crc)"
  let ?enc = "concat (map (encode_chunk bs) ?cs)"
  obtain out where out: "output_file_open m os s0 bs (sf_len s) True (int (length ?cs)) crc
      = (Inr (Inr out), m\<lparr>mem_next := mem_next m + 3\<rparr>)" "ops out = os" "is_sparse out" "use_crc out = crc" "crc32 out = 0"
      "block_size out = bs" "good (sink out)" "taken (sink out) = app (taken s0) ?h"
    using output_file_open_ok [OF assms(1,2) im(1,3), of "sf_len s" True "int (length ?cs)" crc] assms(4) by auto
  obtain out' where out': "write_all_blocks E s out = Inr (0, out')" "ops out' = os" "good (sink out')" "is_sparse out'"
      "out_cfg out' = out_cfg out" "taken (sink out') = app (taken s0) (?h @ ?enc)"
      "crc_state out' = map_option (\<lambda>k. sparse_crc32 k (concat (map (summed_bytes bs) ?cs))) (crc_state out)"
    using sparse.write_all_ok [of out s E] out assms(3,4) bd(3) im(1,2)
    by (auto simp: sum_list_length size_app foldl_sparse simp flip: bs_def)
  have crc: "use_crc out' = crc" using out'(5) out(4) by (simp add: out_cfg_def)
  moreover have "crc \<Longrightarrow> crc32 out' = image_crc E s"
    using out'(7) out(4,5) crc by (simp add: crc_state_def image_crc_def flip: bs_def)
  moreover obtain s' where "output_file_close out' = op_close os s'" "good s'"
      "taken s' = (if use_crc out' then app (taken (sink out')) (crc_chunk_bytes (crc32 out')) else taken (sink out'))"
    using close_sparse [OF out'(2,3,4)] out'(6) assms(4) bd(3) by (auto simp: size_app)
  ultimately have "output_file_close out' = op_close os s' \<and> good s'
      \<and> taken s' = app (taken s0) (sparse_bytes E s (if crc then Some (image_crc E s) else None))"
    using out'(6) by (simp add: sparse_bytes_def app_app flip: bs_def)
  with out(1) out'(1) show ?thesis unfolding bs_def by blast
qed

end

context byte_sink
begin

lemma plain_write_ok:
  assumes "mem_ok m" "good s0" "image_ok E s" "size_of (taken s0) = 0" "app (taken s0) [] = taken s0"
  shows "\<exists>out out'. output_file_open m os s0 (sf_block_size s) (sf_len s) False (int (length (image_chunks E s))) crc
      = (Inr (Inr out), m\<lparr>mem_next := mem_next m + 3\<rparr>)
    \<and> write_all_blocks E s out = Inr (0, out') \<and> ops out' = os \<and> \<not> is_sparse out' \<and> out_len out' = sf_len s
    \<and> good (sink out') \<and> taken (sink out') = app (taken s0) (image_bytes E s)"
proof -
  define bs where "bs = sf_block_size s"
  note im = image_okD [OF assms(3) bs_def [symmetric]] and bd = image_bounds [OF assms(3), folded bs_def]
  let ?cs = "image_chunks E s"
  obtain out where out: "output_file_open m os s0 bs (sf_len s) False (int (length ?cs)) crc
      = (Inr (Inr out), m\<lparr>mem_next := mem_next m + 3\<rparr>)" "ops out = os" "\<not> is_sparse out" "out_len out = sf_len s"
      "block_size out = bs" "length (fill_buf out) = nat bs" "good (sink out)" "taken (sink out) = taken s0"
    using output_file_open_ok [OF assms(1,2) im(1,3), of "sf_len s" False "int (length ?cs)" crc] assms(4) by auto
  obtain out' where out': "write_all_blocks E s out = Inr (0, out')" "ops out' = os" "good (sink out')"
      "\<not> is_sparse out'" "out_cfg out' = out_cfg out" "taken (sink out') = app (taken s0) (image_bytes E s)"
    using plain.write_all_ok [of out s E] out assms(3,4) bd(2) im(1,2) foldl_app [of "expand_chunk bs" "taken s0" "[]" ?cs]
    by (auto simp: sum_list_length assms(5) image_bytes_def simp flip: bs_def)
  have "out_len out' = sf_len s" using out'(5) out(4) by (simp add: out_cfg_def)
  with out(1) out' show ?thesis unfolding bs_def by blast
qed

end

lemma counter_skip:
  "0 \<le> c \<Longrightarrow> 0 \<le> n \<Longrightarrow> c + n < 9223372036854775808 \<Longrightarrow> callback_file_skip out_counter_write c n = (0, c + n)"
proof (induction out_counter_write c n rule: callback_file_skip.induct)
  case (1 priv off)
  then show ?case
    by (subst callback_file_skip.simps) (auto simp: Let_def out_counter_write_def int_max_def i64_id min_def)
qed

interpretation counter: byte_sink "callback_file_ops out_counter_write" "\<lambda>c. 0 \<le> c" "\<lambda>c. c"
  "\<lambda>c xs. c + int (length xs)" "\<lambda>c. c"
proof unfold_locales
  fix c n :: int and d :: "byte list"
  assume c: "0 \<le> c" and n: "0 \<le> n" "c + n < 9223372036854775808"
  show "\<exists>c'. op_write (callback_file_ops out_counter_write) c d n = (0, c') \<and> 0 \<le> c' \<and> c' = c + int (length (take (nat n) d))"
    if "n \<le> int (length d)"
    using that c n by (simp add: callback_file_ops_def callback_file_write_def out_counter_write_def i64_id)
  show "\<exists>c'. op_skip (callback_file_ops out_counter_write) c n = (0, c') \<and> 0 \<le> c' \<and> c' = c + int (length (replicate (nat n) (0 :: byte)))"
    using counter_skip [OF c n] c n(1) by (simp add: callback_file_ops_def)
qed auto

definition new_file :: outfile where
  "new_file = \<lparr>o_data = [], o_pos = 0, o_sched = []\<rparr>"

lemma i32_count: "image_ok E s \<Longrightarrow> i32 (int (length (image_chunks E s))) = int (length (image_chunks E s))"
  using image_bounds(1) by (simp add: i32_id)

lemma write_sparse_eq:
  assumes "image_ok E s" "mem_ok m"
  shows "\<exists>f. sparse_file_write m E s new_file True crc = (Inr (0, f), m\<lparr>mem_next := mem_next m + 3\<rparr>)
    \<and> o_data f = sparse_bytes E s (if crc then Some (image_crc E s) else None)"
proof -
  obtain out out' f where "output_file_open m file_ops new_file (sf_block_size s) (sf_len s) True
      (int (length (image_chunks E s))) crc = (Inr (Inr out), m\<lparr>mem_next := mem_next m + 3\<rparr>)"
    "write_all_blocks E s out = Inr (0, out')" "output_file_close out' = op_close file_ops f"
    "o_data f = sparse_bytes E s (if crc then Some (image_crc E s) else None)"
    using file_end.sparse_write_ok [OF assms(2) _ assms(1), of new_file crc] by (auto simp: new_file_def)
  then have "sparse_file_write m E s new_file True crc = (Inr (0, f), m\<lparr>mem_next := mem_next m + 3\<rparr>)"
    using image_chunks_count(2) [OF assms(1)]
    by (simp add: sparse_file_write_def write_through_def output_file_open_fd_def i32_count [OF assms(1)]
        file_ops_def file_close_def)
  then show ?thesis using \<open>o_data f = _\<close> by blast
qed

lemma write_plain_eq:
  assumes "image_ok E s" "mem_ok m"
  shows "\<exists>f. sparse_file_write m E s new_file False crc = (Inr (0, f), m\<lparr>mem_next := mem_next m + 3\<rparr>)
    \<and> o_data f = image_bytes E s"
proof -
  obtain out out' where o: "output_file_open m file_ops new_file (sf_block_size s) (sf_len s) False
      (int (length (image_chunks E s))) crc = (Inr (Inr out), m\<lparr>mem_next := mem_next m + 3\<rparr>)"
    "write_all_blocks E s out = Inr (0, out')" "ops out' = file_ops" "\<not> is_sparse out'" "out_len out' = sf_len s"
    "0 \<le> o_pos (sink out')" "int (length (o_data (sink out'))) \<le> o_pos (sink out')"
    "file_trunc (o_data (sink out')) (nat (o_pos (sink out'))) = image_bytes E s"
    using file_sink.plain_write_ok [OF assms(2) _ assms(1), of new_file crc]
    by (auto simp: new_file_def file_trunc_def)
  have "nat (o_pos (sink out')) = length (image_bytes E s)" using o(8) by (metis length_file_trunc)
  then have "o_pos (sink out') = sf_len s"
    using image_bytes_length [OF assms(1)] o(6) by simp
  then have "o_data (output_file_close out') = image_bytes E s"
    using o(3-8) by (simp add: output_file_close_def write_normal_end_chunk_def file_ops_def file_pad_def
        posix_ftruncate_def file_close_def)
  moreover have "sparse_file_write m E s new_file False crc
      = (Inr (0, output_file_close out'), m\<lparr>mem_next := mem_next m + 3\<rparr>)"
    using o(1,2) image_chunks_count(2) [OF assms(1)]
    by (simp add: sparse_file_write_def write_through_def output_file_open_fd_def i32_count [OF assms(1)])
  ultimately show ?thesis
    by blast
qed

text \<open>
  C4: writing a well-formed sparse file to a new descriptor in the sparse format succeeds, and the
  file then holds exactly the header (with the number of chunks that follow and 0 in its field
  \<open>image_checksum\<close>, whatever the image), one chunk for every block and every gap, in order, and, when a
  checksum is asked for, a last chunk with the CRC-32 of the data of the raw chunks and of one block of
  every fill.
\<close>

theorem sparse_file_write_sparse:
  assumes "image_ok E s" "mem_ok m"
  shows "\<exists>f. sparse_file_write m E s new_file True crc = (Inr (0, f), m\<lparr>mem_next := mem_next m + 3\<rparr>)
    \<and> o_data f = sparse_bytes E s (if crc then Some (image_crc E s) else None)"
  by (rule write_sparse_eq) fact+



text \<open>An example: a data block, a gap and a fill, with blocks of four bytes.\<close>

definition ex_env :: env where
  "ex_env = \<lparr>env_fd = \<lambda>_. Inl 9, env_open = \<lambda>_. Inl 2\<rparr>"

definition ex_sf :: sparse_file where
  "ex_sf = \<lparr>sf_block_size = 4, sf_len = 12, sf_verbose = False,
     backed_block_list = \<lparr>data_blocks =
       [\<lparr>bb_addr = 1, bb_block = 0, bb_len = 3, bb_payload = BB_Data [1, 2, 3]\<rparr>,
        \<lparr>bb_addr = 2, bb_block = 2, bb_len = 4, bb_payload = BB_Fill 7\<rparr>],
       last_used = None, bbl_block_size = 4\<rparr>\<rparr>"

lemma ex_image_ok: "image_ok ex_env ex_sf"
  by (simp add: image_ok_def ex_sf_def block_size_ok_def bbl_wf_def bbl_sorted_def bb_ok_def bb_last_def names_ok_def
      ceil_div_def bb_writable_def max_chunk_def max_rw_count_def)

lemma ex_image: "sf_len ex_sf = 12" "image_byte ex_env ex_sf 1 = Some 2" "image_byte ex_env ex_sf 5 = Some 0"
    "image_byte ex_env ex_sf 8 = Some 7"
  by (simp_all add: ex_sf_def image_byte_def view_byte_def bb_covers_def bb_origin_def eval_nat_numeral)

lemma ex_mem_ok: "mem_ok ex_mem"
  by (simp add: mem_ok_def ex_mem_def)

text \<open>In the example the bytes of the raw chunk and the one block of the fill are summed.\<close>

theorem sparse_file_write_sparse_witness:
  "\<exists>f. sparse_file_write ex_mem ex_env ex_sf new_file True True = (Inr (0, f), ex_mem\<lparr>mem_next := mem_next ex_mem + 3\<rparr>)
    \<and> o_data f = sparse_bytes ex_env ex_sf (Some (sparse_crc32 0 [1, 2, 3, 0, 7, 0, 0, 0]))"
proof -
  have c: "image_chunks ex_env ex_sf = [C_raw [1, 2, 3, 0], C_skip 1, C_fill 1 7]"
    by (simp add: image_chunks_def ex_sf_def skip_to_def bb_chunk_def bb_last_def ceil_div_def pad_block_def)
  have "fill_bytes 4 7 = [7, 0, 0, 0]" using concat_replicate_fill [of 1 7] by (simp add: eval_nat_numeral)
  then have "concat (map (summed_bytes (sf_block_size ex_sf)) (image_chunks ex_env ex_sf)) = [1, 2, 3, 0, 7, 0, 0, 0]"
    unfolding c by (simp add: ex_sf_def)
  then have "image_crc ex_env ex_sf = sparse_crc32 0 [1, 2, 3, 0, 7, 0, 0, 0]" unfolding image_crc_def by (rule arg_cong)
  then show ?thesis using sparse_file_write_sparse [OF ex_image_ok ex_mem_ok, of True] unfolding if_True by metis
qed



end
