(* ===== verification/Sparse_Read.thy ===== *)
theory Sparse_Read
  imports Sparse_File
begin

text \<open>
  The readers of core/libsparse/sparse_read.c: a sparse image chunk by chunk, a plain image block by
  block. The reader's state is the allocator, the input descriptor and whether the static copy buffer
  has been allocated. The descriptor's number, which is stored in the blocks, is the parameter \<open>fd\<close>.
  The messages of \<open>verbose_error\<close> are not modelled.
\<close>

section \<open>Chunks\<close>

record reader =
  rd_mem :: mem
  rd_in :: infile
  rd_copybuf :: bool

definition COPY_BUF_SIZE :: nat where "COPY_BUF_SIZE = 1048576"

lemma COPY_BUF_SIZE_pos [simp]: "0 < COPY_BUF_SIZE"
  by (simp add: COPY_BUF_SIZE_def)

text \<open>Adding a block to the sparse file from within the reader.\<close>

definition reader_add ::
    "reader \<Rightarrow> (mem \<Rightarrow> (int \<times> sparse_file) res \<times> mem) \<Rightarrow> (int \<times> sparse_file \<times> reader) res" where
  "reader_add rd add =
     (case add (rd_mem rd) of (r, m) \<Rightarrow> rbind r (\<lambda>(ret, s). Inr (ret, s, rd\<lparr>rd_mem := m\<rparr>)))"

text \<open>The checksum loops: over data read through the copy buffer, and over a buffer filled beforehand.\<close>

function crc_read :: "infile \<Rightarrow> 32 word \<Rightarrow> nat \<Rightarrow> int \<times> infile \<times> 32 word" where
  "crc_read f crc len =
     (if len = 0 then (0, f, crc)
      else
        let chunk = min len COPY_BUF_SIZE
        in case read_all f chunk of
             (ret, bs, f') \<Rightarrow>
               if ret < 0 then (ret, f', crc)
               else crc_read f' (sparse_crc32 crc bs) (len - chunk))"
  by pat_completeness auto
termination
  by (relation "measure (\<lambda>(f, crc, len). len)") auto

declare crc_read.simps [simp del]

function crc_buf :: "byte list \<Rightarrow> 32 word \<Rightarrow> nat \<Rightarrow> 32 word" where
  "crc_buf buf crc len =
     (if len = 0 then crc
      else
        let chunk = min len COPY_BUF_SIZE
        in crc_buf buf (sparse_crc32 crc (take chunk buf)) (len - chunk))"
  by pat_completeness auto
termination
  by (relation "measure (\<lambda>(buf, crc, len). len)") auto

declare crc_buf.simps [simp del]

type_synonym chunk_result = "(int \<times> sparse_file \<times> 32 word option \<times> reader) res"

definition process_raw_chunk ::
    "sparse_file \<Rightarrow> int \<Rightarrow> int \<Rightarrow> int \<Rightarrow> int \<Rightarrow> int \<Rightarrow> 32 word option \<Rightarrow> reader \<Rightarrow> chunk_result" where
  "process_raw_chunk s chunk_size fd offset blocks block crc rd =
     (let len = u32 (blocks * sf_block_size s)
      in if sf_block_size s = 0 then Inl Div_by_zero
         else if chunk_size mod sf_block_size s \<noteq> 0 then Inr (- EINVAL, s, crc, rd)
         else if chunk_size div sf_block_size s \<noteq> blocks then Inr (- EINVAL, s, crc, rd)
         else rbind (reader_add rd (\<lambda>m. sparse_file_add_fd m s fd offset len block)) (\<lambda>(ret, s1, rd1).
                if ret < 0 then Inr (ret, s1, crc, rd1)
                else (case crc of
                        None \<Rightarrow> Inr (0, s1, None, rd1\<lparr>rd_in := snd (lseek_cur (rd_in rd1) len)\<rparr>)
                      | Some c \<Rightarrow>
                          (case crc_read (rd_in rd1) c (nat len) of
                             (ret, f, c') \<Rightarrow>
                               Inr (if ret < 0 then ret else 0, s1, Some c', rd1\<lparr>rd_in := f\<rparr>)))))"

definition process_fill_chunk ::
    "sparse_file \<Rightarrow> int \<Rightarrow> int \<Rightarrow> int \<Rightarrow> 32 word option \<Rightarrow> reader \<Rightarrow> chunk_result" where
  "process_fill_chunk s chunk_size blocks block crc rd =
     (let len = i64 (blocks * sf_block_size s)
      in if chunk_size \<noteq> 4 then Inr (- EINVAL, s, crc, rd)
         else (case read_all (rd_in rd) 4 of
                 (ret, bs, f) \<Rightarrow>
                   if ret < 0 then Inr (ret, s, crc, rd\<lparr>rd_in := f\<rparr>)
                   else rbind (reader_add (rd\<lparr>rd_in := f\<rparr>)
                                (\<lambda>m. sparse_file_add_fill m s (le_val bs) (u32 len) block)) (\<lambda>(ret, s1, rd1).
                          if ret < 0 then Inr (ret, s1, crc, rd1)
                          else (case crc of
                                  None \<Rightarrow> Inr (0, s1, None, rd1)
                                | Some c \<Rightarrow>
                                    if len < 0 then Inl Out_of_bounds
                                    else Inr (0, s1, Some (crc_buf (fill_bytes COPY_BUF_SIZE (le_val bs)) c (nat len)),
                                           rd1)))))"

definition process_skip_chunk ::
    "sparse_file \<Rightarrow> int \<Rightarrow> int \<Rightarrow> 32 word option \<Rightarrow> (int \<times> 32 word option) res" where
  "process_skip_chunk s chunk_size blocks crc =
     (if chunk_size \<noteq> 0 then Inr (- EINVAL, crc)
      else (case crc of
              None \<Rightarrow> Inr (0, None)
            | Some c \<Rightarrow>
                let len = i64 (blocks * sf_block_size s)
                in if len < 0 then Inl Out_of_bounds
                   else Inr (0, Some (crc_buf (replicate COPY_BUF_SIZE 0) c (nat len)))))"

definition process_crc32_chunk :: "infile \<Rightarrow> int \<Rightarrow> 32 word \<Rightarrow> int \<times> infile" where
  "process_crc32_chunk f chunk_size crc =
     (if chunk_size \<noteq> 4 then (- EINVAL, f)
      else (case read_all f 4 of
              (ret, bs, f') \<Rightarrow>
                if ret < 0 then (ret, f')
                else if le_val bs \<noteq> uint crc then (- EINVAL, f')
                else (0, f')))"

text \<open>The result of a processed chunk is its number of blocks, returned as an \<open>int\<close>.\<close>

definition process_chunk ::
    "sparse_file \<Rightarrow> int \<Rightarrow> int \<Rightarrow> int \<Rightarrow> chunk_header \<Rightarrow> int \<Rightarrow> 32 word option \<Rightarrow> reader \<Rightarrow> chunk_result" where
  "process_chunk s fd offset chunk_hdr_size h cur_block crc rd =
     (let chunk_data_size = u32 (total_sz h - chunk_hdr_size);
          done = (\<lambda>(ret, s1, crc1, rd1). (if ret < 0 then ret else i32 (chunk_sz h), s1, crc1, rd1))
      in if chunk_type h = CHUNK_TYPE_RAW
         then rbind (process_raw_chunk s chunk_data_size fd offset (chunk_sz h) cur_block crc rd) (\<lambda>r. Inr (done r))
         else if chunk_type h = CHUNK_TYPE_FILL
         then rbind (process_fill_chunk s chunk_data_size (chunk_sz h) cur_block crc rd) (\<lambda>r. Inr (done r))
         else if chunk_type h = CHUNK_TYPE_DONT_CARE
         then rbind (process_skip_chunk s chunk_data_size (chunk_sz h) crc) (\<lambda>(ret, crc1).
                Inr (if chunk_data_size \<noteq> 0 \<and> ret < 0 then ret else i32 (chunk_sz h), s, crc1, rd))
         else if chunk_type h = CHUNK_TYPE_CRC32
         then (case crc of
                 None \<Rightarrow> Inl Null_deref
               | Some c \<Rightarrow>
                   (case process_crc32_chunk (rd_in rd) chunk_data_size c of
                      (ret, f) \<Rightarrow> Inr (if ret < 0 then ret else 0, s, crc, rd\<lparr>rd_in := f\<rparr>)))
         else Inr (0, s, crc, rd))"

section \<open>Files\<close>

text \<open>The loop over the chunks still to come; it returns the code and the block it got to.\<close>

fun read_chunks ::
    "int \<Rightarrow> int \<Rightarrow> nat \<Rightarrow> sparse_file \<Rightarrow> int \<Rightarrow> 32 word option \<Rightarrow> reader \<Rightarrow> (int \<times> int \<times> sparse_file \<times> reader) res" where
  "read_chunks fd hdr_sz 0 s cur_block crc rd = Inr (0, cur_block, s, rd)"
| "read_chunks fd hdr_sz (Suc n) s cur_block crc rd =
     (case read_all (rd_in rd) 12 of
        (ret, bs, f1) \<Rightarrow>
          if ret < 0 then Inr (ret, cur_block, s, rd\<lparr>rd_in := f1\<rparr>)
          else
            let f2 = (if hdr_sz > CHUNK_HEADER_LEN then snd (lseek_cur f1 (hdr_sz - CHUNK_HEADER_LEN)) else f1)
            in case lseek_cur f2 0 of
                 (offset, f3) \<Rightarrow>
                   rbind (process_chunk s fd offset hdr_sz (parse_chunk_header bs) cur_block crc
                            (rd\<lparr>rd_in := f3\<rparr>)) (\<lambda>(ret, s1, crc1, rd1).
                     if ret < 0 then Inr (ret, cur_block, s1, rd1)
                     else read_chunks fd hdr_sz n s1 (u32 (cur_block + ret)) crc1 rd1))"

declare read_chunks.simps [simp del]

definition header_ok :: "sparse_header \<Rightarrow> bool" where
  "header_ok h \<longleftrightarrow>
     magic h = SPARSE_HEADER_MAGIC \<and> major_version h = SPARSE_HEADER_MAJOR_VER \<and>
     \<not> file_hdr_sz h < SPARSE_HEADER_LEN \<and> \<not> chunk_hdr_sz h < CHUNK_HEADER_LEN"

definition sparse_file_read_sparse ::
    "sparse_file \<Rightarrow> int \<Rightarrow> bool \<Rightarrow> reader \<Rightarrow> (int \<times> sparse_file \<times> reader) res" where
  "sparse_file_read_sparse s fd crc rd0 =
     (let (buf, rd) = (if rd_copybuf rd0 then (True, rd0)
                       else (case malloc (rd_mem rd0) of
                               (p, m) \<Rightarrow> (p \<noteq> None, rd0\<lparr>rd_mem := m, rd_copybuf := p \<noteq> None\<rparr>)))
      in if \<not> buf then Inr (- ENOMEM, s, rd)
         else (case read_all (rd_in rd) 28 of
                 (ret, bs, f1) \<Rightarrow>
                   if ret < 0 then Inr (ret, s, rd\<lparr>rd_in := f1\<rparr>)
                   else
                     let h = parse_sparse_header bs
                     in if \<not> header_ok h then Inr (- EINVAL, s, rd\<lparr>rd_in := f1\<rparr>)
                        else
                          let f2 = (if file_hdr_sz h > SPARSE_HEADER_LEN
                                    then snd (lseek_cur f1 (file_hdr_sz h - SPARSE_HEADER_LEN)) else f1)
                          in rbind (read_chunks fd (chunk_hdr_sz h) (nat (total_chunks h)) s 0
                                      (if crc then Some 0 else None) (rd\<lparr>rd_in := f2\<rparr>)) (\<lambda>(ret, cur_block, s1, rd1).
                               Inr (if ret < 0 then ret
                                    else if total_blks h \<noteq> cur_block then - EINVAL else 0, s1, rd1))))"

text \<open>
  A plain image. A block whose 32-bit words are all equal becomes a fill. The first word of a block
  smaller than 4 bytes would be read behind the buffer, and a block size of 0 never advances.
\<close>

definition block_word :: "byte list \<Rightarrow> nat \<Rightarrow> byte list" where
  "block_word buf i = bslice (4 * i) 4 buf"

definition sparse_block :: "int \<Rightarrow> byte list \<Rightarrow> bool" where
  "sparse_block bs buf \<longleftrightarrow> list_all (\<lambda>i. block_word buf 0 = block_word buf i) [1..<nat (bs div 4)]"

function read_normal_loop ::
    "int \<Rightarrow> int \<Rightarrow> sparse_file \<Rightarrow> int \<Rightarrow> int \<Rightarrow> reader \<Rightarrow> (int \<times> sparse_file \<times> reader) res" where
  "read_normal_loop fd remain s offset block rd =
     (if remain \<le> 0 then Inr (0, s, rd)
      else if sf_block_size s \<le> 0 then Inl Diverges
      else
        let to_read = min remain (sf_block_size s)
        in case read_all (rd_in rd) (nat to_read) of
             (ret, buf, f) \<Rightarrow>
               if ret < 0 then Inr (ret, s, rd\<lparr>rd_in := f\<rparr>)
               else if to_read = sf_block_size s \<and> to_read < 4 then Inl Out_of_bounds
               else
                 case reader_add (rd\<lparr>rd_in := f\<rparr>)
                        (\<lambda>m. if to_read = sf_block_size s \<and> sparse_block (sf_block_size s) buf
                             then sparse_file_add_fill m s (le_val (block_word buf 0)) to_read block
                             else sparse_file_add_fd m s fd offset to_read block) of
                   Inl e \<Rightarrow> Inl e
                 | Inr (_, s1, rd1) \<Rightarrow>
                     read_normal_loop fd (remain - to_read) s1
                       (i64 (offset + to_read)) (u32 (block + 1)) rd1)"
  by pat_completeness auto
termination
  by (relation "measure (\<lambda>(fd, remain, s, offset, block, rd). nat remain)") auto

declare read_normal_loop.simps [simp del]

definition sparse_file_read_normal :: "sparse_file \<Rightarrow> int \<Rightarrow> reader \<Rightarrow> (int \<times> sparse_file \<times> reader) res" where
  "sparse_file_read_normal s fd rd =
     (case malloc (rd_mem rd) of
        (None, m) \<Rightarrow> Inr (- ENOMEM, s, rd\<lparr>rd_mem := m\<rparr>)
      | (Some _, m) \<Rightarrow> read_normal_loop fd (sf_len s) s 0 0 (rd\<lparr>rd_mem := m\<rparr>))"

definition sparse_file_read :: "sparse_file \<Rightarrow> int \<Rightarrow> bool \<Rightarrow> bool \<Rightarrow> reader \<Rightarrow> (int \<times> sparse_file \<times> reader) res" where
  "sparse_file_read s fd sparse crc rd =
     (if crc \<and> \<not> sparse then Inr (- EINVAL, s, rd)
      else if sparse then sparse_file_read_sparse s fd crc rd
      else sparse_file_read_normal s fd rd)"

text \<open>\<open>None\<close> is the \<open>NULL\<close> of a failed import.\<close>

definition sparse_file_import :: "int \<Rightarrow> bool \<Rightarrow> bool \<Rightarrow> reader \<Rightarrow> (sparse_file option \<times> reader) res" where
  "sparse_file_import fd verbose crc rd =
     (case read_all (rd_in rd) 28 of
        (ret, bs, f1) \<Rightarrow>
          if ret < 0 then Inr (None, rd\<lparr>rd_in := f1\<rparr>)
          else
            let h = parse_sparse_header bs
            in if \<not> header_ok h then Inr (None, rd\<lparr>rd_in := f1\<rparr>)
               else (case sparse_file_new (rd_mem rd) (blk_sz h) (i64 (total_blks h * blk_sz h)) of
                       (Inl e, _) \<Rightarrow> Inl e
                     | (Inr None, m1) \<Rightarrow> Inr (None, rd\<lparr>rd_in := f1, rd_mem := m1\<rparr>)
                     | (Inr (Some s), m1) \<Rightarrow>
                         (case lseek_set f1 0 of
                            (ret, f2) \<Rightarrow>
                              if i32 ret < 0 then Inr (None, rd\<lparr>rd_in := f2, rd_mem := m1\<rparr>)
                              else rbind (sparse_file_read (s\<lparr>sf_verbose := verbose\<rparr>) fd True crc
                                            (rd\<lparr>rd_in := f2, rd_mem := m1\<rparr>)) (\<lambda>(ret, s1, rd1).
                                     Inr (if ret < 0 then None else Some s1, rd1)))))"

definition sparse_file_import_auto :: "int \<Rightarrow> bool \<Rightarrow> bool \<Rightarrow> reader \<Rightarrow> (sparse_file option \<times> reader) res" where
  "sparse_file_import_auto fd crc verbose rd =
     rbind (sparse_file_import fd verbose crc rd) (\<lambda>(so, rd1).
       case so of
         Some s \<Rightarrow> Inr (Some s, rd1)
       | None \<Rightarrow>
           (case lseek_end (rd_in rd1) 0 of
              (len, f1) \<Rightarrow>
                if len < 0 then Inr (None, rd1\<lparr>rd_in := f1\<rparr>)
                else
                  let f2 = snd (lseek_set f1 0)
                  in (case sparse_file_new (rd_mem rd1) 4096 len of
                        (Inl e, _) \<Rightarrow> Inl e
                      | (Inr None, m1) \<Rightarrow> Inr (None, rd1\<lparr>rd_in := f2, rd_mem := m1\<rparr>)
                      | (Inr (Some s), m1) \<Rightarrow>
                          rbind (sparse_file_read_normal s fd (rd1\<lparr>rd_in := f2, rd_mem := m1\<rparr>)) (\<lambda>(ret, s1, rd2).
                            Inr (if ret < 0 then None else Some s1, rd2)))))"

end
