(* ===== verification/Sparse_Roundtrip.thy ===== *)
theory Sparse_Roundtrip
  imports Sparse_Write Sparse_Read
begin

text \<open>
  Reading back what was written: the blocks \<open>sparse_file_import\<close> builds from the chunks of an image
  (\<open>reimport\<close>) are those of the original in whole blocks, with their data in the image file, and denote
  the same image. This holds for images without neighbouring fills that could be one (\<open>fills_merged\<close>); reading
  back two such fills leaves \<open>last_used\<close> dangling (\<open>dangling\<close>), and the next block follows it.
\<close>

section \<open>Reading back\<close>

lemma lseek_cur_reading:
  assumes "reading f p d" "0 \<le> int p + n" "int p + n < 9223372036854775808"
  shows "fst (lseek_cur f n) = int p + n" "reading (snd (lseek_cur f n)) (nat (int p + n)) d"
  using assms by (simp_all add: lseek_cur_def lseek_to_def reading_def i64_id)

lemma read_header:
  assumes "reading f (length xs) (xs @ chunk_header_bytes h @ ys)"
  shows "\<exists>f'. read_all f 12 = (0, chunk_header_bytes h, f') \<and> reading f' (length xs + 12) (xs @ chunk_header_bytes h @ ys)"
  using read_all_ok [OF assms, of 12] by (simp add: bslice_mid)

text \<open>What the reader keeps while it adds blocks in ascending order behind \<open>blk\<close>.\<close>

definition import_inv :: "int \<Rightarrow> int \<Rightarrow> sparse_file \<Rightarrow> reader \<Rightarrow> bool" where
  "import_inv bs blk s rd \<longleftrightarrow>
     sf_block_size s = bs \<and> bbl_block_size (backed_block_list s) = bs \<and> bbl_wf bs (sf_blocks s) \<and>
     last_used_ok (backed_block_list s) \<and> mem_ok (rd_mem rd) \<and>
     (\<forall>b \<in> set (sf_blocks s). bb_last bs b \<le> blk \<and> bb_addr b < mem_next (rd_mem rd) \<and>
        (\<forall>f off. bb_payload b \<noteq> BB_File f off))"

lemma names_ok_no_files: "(\<And>f off. BB_File f off \<notin> P) \<Longrightarrow> names_ok P"
  by (auto simp: names_ok_def)

text \<open>Queueing a block at the address the allocator gives.\<close>

definition add_bb :: "sparse_file \<Rightarrow> backed_block \<Rightarrow> mem \<Rightarrow> (int \<times> sparse_file) res \<times> mem" where
  "add_bb s new m = with_bbl s (case malloc m of (None, m') \<Rightarrow> (Inr (- ENOMEM, backed_block_list s), m')
     | (Some a, m') \<Rightarrow> (queue_bb (backed_block_list s) (new\<lparr>bb_addr := a\<rparr>), m'))"

text \<open>Adding a block behind all others, when it does not merge with the last one.\<close>

lemma import_add:
  assumes inv: "import_inv bs blk s rd" and bs: "0 < bs" and new: "bb_ok bs new" "blk \<le> bb_block new"
    "bb_addr new = mem_next (rd_mem rd)" "\<And>f off. bb_payload new \<noteq> BB_File f off"
    and unm: "sf_blocks s \<noteq> [] \<Longrightarrow> \<not> mergeable bs (last (sf_blocks s)) new"
  shows "\<exists>s' rd'. reader_add rd (add_bb s new) = Inr (0, s', rd')
    \<and> import_inv bs (bb_last bs new) s' rd' \<and> sf_blocks s' = sf_blocks s @ [new] \<and> sf_len s' = sf_len s
    \<and> rd' = rd\<lparr>rd_mem := (rd_mem rd)\<lparr>mem_next := Suc (mem_next (rd_mem rd))\<rparr>\<rparr>"
proof -
  let ?m = "rd_mem rd" and ?l = "backed_block_list s"
  have i: "sf_block_size s = bs" "bbl_block_size ?l = bs" "bbl_wf bs (sf_blocks s)" "last_used_ok ?l" "mem_ok ?m"
    "\<And>b. b \<in> set (sf_blocks s) \<Longrightarrow> bb_last bs b \<le> blk \<and> bb_addr b < mem_next ?m \<and> (\<forall>f off. bb_payload b \<noteq> BB_File f off)"
    using inv by (auto simp: import_inv_def)
  let ?l' = "?l\<lparr>data_blocks := data_blocks ?l @ [new],
    last_used := (if data_blocks ?l = [] then last_used ?l else Some (bb_addr new))\<rparr>"
  have above: "\<forall>b \<in> set (sf_blocks s). bb_last bs b \<le> bb_block new" using i(6) new(2) by (meson order_trans)
  have "new\<lparr>bb_addr := mem_next ?m\<rparr> = new" using new(3) by simp
  then have eq: "reader_add rd (add_bb s new) = Inr (0, s\<lparr>backed_block_list := ?l'\<rparr>,
      rd\<lparr>rd_mem := ?m\<lparr>mem_next := Suc (mem_next ?m)\<rparr>\<rparr>)"
    using queue_bb_append [OF i(2) bs i(3,4) above unm]
    by (simp add: reader_add_def with_bbl_def add_bb_def malloc_ok [OF i(5)])
  have "bbl_wf bs (sf_blocks s @ [new])"
  proof -
    have "names_ok (bb_payload ` set (sf_blocks s @ [new]))"
      using i(6) new(4) by (intro names_ok_no_files) (metis imageE rotate1.simps(2) set_ConsD set_rotate1)
    moreover have "bb_addr new \<notin> bb_addr ` set (sf_blocks s)" using i(6) new(3) by (metis imageE less_irrefl)
    ultimately show ?thesis
      using i(3) above new(1) by (simp add: bbl_wf_def bbl_sorted_def sorted_wrt_append)
  qed
  moreover have "last_used_ok ?l'"
    using i(4) by (auto simp: last_used_ok_def split: option.splits)
  moreover have "bb_last bs b \<le> bb_last bs new" if "b \<in> set (sf_blocks s)" for b
    using i(6) [OF that] new(2) bb_last_gt [OF bs new(1)] by linarith
  ultimately have "import_inv bs (bb_last bs new) (s\<lparr>backed_block_list := ?l'\<rparr>)
      (rd\<lparr>rd_mem := ?m\<lparr>mem_next := Suc (mem_next ?m)\<rparr>\<rparr>)"
    using i new(3,4) by (auto simp: import_inv_def less_Suc_eq)
  with eq show ?thesis by simp
qed

lemma read_chunk_step:
  assumes "reading (rd_in rd) (length xs) (xs @ chunk_header_bytes h @ ys)" "int (length xs) + 12 < 9223372036854775808"
  obtains f where "reading f (length xs + 12) (xs @ chunk_header_bytes h @ ys)"
    "\<And>k. read_chunks fd 12 (Suc k) s blk crc rd =
       rbind (process_chunk s fd (int (length xs) + 12) 12 (parse_chunk_header (chunk_header_bytes h)) blk crc (rd\<lparr>rd_in := f\<rparr>))
         (\<lambda>(ret, s1, crc1, rd1). if ret < 0 then Inr (ret, blk, s1, rd1)
            else read_chunks fd 12 k s1 (u32 (blk + ret)) crc1 rd1)"
proof -
  obtain f1 where f1: "read_all (rd_in rd) 12 = (0, chunk_header_bytes h, f1)"
    "reading f1 (length xs + 12) (xs @ chunk_header_bytes h @ ys)"
    using read_header [OF assms(1)] by blast
  obtain off f2 where l: "lseek_cur f1 0 = (off, f2)" by (metis surj_pair)
  then have "off = int (length xs) + 12" "reading f2 (length xs + 12) (xs @ chunk_header_bytes h @ ys)"
    using lseek_cur_reading [OF f1(2), of 0] assms(2) by (simp_all add: nat_add_distrib)
  with f1 l show ?thesis
    by (intro that [of f2]) (simp_all add: read_chunks.simps CHUNK_HEADER_LEN_def)
qed

lemma read_skip:
  assumes "reading (rd_in rd) (length xs) (xs @ encode_chunk bs (C_skip n) @ ys)"
    "int (length xs) + 12 < 9223372036854775808" "0 \<le> n" "n < 2147483648" "0 \<le> blk" "blk + n < 4294967296"
  shows "\<exists>f. reading f (length xs + 12) (xs @ encode_chunk bs (C_skip n) @ ys) \<and>
    (\<forall>k. read_chunks fd 12 (Suc k) s blk None rd = read_chunks fd 12 k s (blk + n) None (rd\<lparr>rd_in := f\<rparr>))"
proof -
  obtain f where "reading f (length xs + 12) (xs @ encode_chunk bs (C_skip n) @ ys)"
    "\<And>k. read_chunks fd 12 (Suc k) s blk None rd =
       rbind (process_chunk s fd (int (length xs) + 12) 12 (parse_chunk_header (encode_chunk bs (C_skip n))) blk None (rd\<lparr>rd_in := f\<rparr>))
         (\<lambda>(ret, s1, crc1, rd1). if ret < 0 then Inr (ret, blk, s1, rd1)
            else read_chunks fd 12 k s1 (u32 (blk + ret)) crc1 rd1)"
    using read_chunk_step [where h = "\<lparr>chunk_type = CHUNK_TYPE_DONT_CARE, reserved1 = 0, chunk_sz = n, total_sz = CHUNK_HEADER_LEN\<rparr>"]
      assms(1,2) unfolding encode_chunk.simps by blast
  then show ?thesis
    using assms(3-6)
    by (intro exI [of _ f]) (simp add: parse_chunk_header_bytes process_chunk_def process_skip_chunk_def format_defs u16_def
        u32_id i32_id)
qed

definition reimport_bb :: "int \<Rightarrow> int \<Rightarrow> nat \<Rightarrow> int \<Rightarrow> backed_block \<Rightarrow> backed_block" where
  "reimport_bb bs fd a p b =
     \<lparr>bb_addr = a, bb_block = bb_block b, bb_len = ceil_div (bb_len b) bs * bs,
      bb_payload = (case bb_payload b of BB_Fill v \<Rightarrow> BB_Fill v | _ \<Rightarrow> BB_Fd fd (p + 12))\<rparr>"

lemma reimport_bb_last: "0 < bs \<Longrightarrow> bb_last bs (reimport_bb bs fd a p b) = bb_last bs b"
  by (simp add: reimport_bb_def bb_last_def)

lemma reimport_bb_ok:
  assumes "0 < bs" "bb_ok bs b" "ceil_div (bb_len b) bs * bs + bs \<le> 4294967296"
  shows "bb_ok bs (reimport_bb bs fd a p b)"
proof -
  have "0 < ceil_div (bb_len b) bs * bs" using assms ceil_div_pos [of bs "bb_len b"] by (simp add: bb_ok_def)
  with assms reimport_bb_last [OF assms(1)] show ?thesis
    by (simp add: bb_ok_def) (simp add: reimport_bb_def)
qed

lemma writable_bound:
  assumes "0 < bs" "bb_ok bs b" "bb_writable E bs b"
  shows "ceil_div (bb_len b) bs * bs + 4096 \<le> 2147479552" "bs \<le> ceil_div (bb_len b) bs * bs"
    "ceil_div (bb_len b) bs < 2147483648" "0 < ceil_div (bb_len b) bs"
proof -
  show a: "ceil_div (bb_len b) bs * bs + 4096 \<le> 2147479552"
    using assms(3) by (simp add: bb_writable_def max_chunk_def max_rw_count_def)
  show c: "0 < ceil_div (bb_len b) bs" using ceil_div_pos [of bs "bb_len b"] assms by (simp add: bb_ok_def)
  then have "1 * bs \<le> ceil_div (bb_len b) bs * bs" using assms(1) by (intro mult_right_mono) auto
  then show "bs \<le> ceil_div (bb_len b) bs * bs" by simp
  have "ceil_div (bb_len b) bs * 1 \<le> ceil_div (bb_len b) bs * bs" using assms(1) c by (intro mult_left_mono) auto
  with a show "ceil_div (bb_len b) bs < 2147483648" by linarith
qed

text \<open>
  One chunk of a block, up to the call that adds it. \<open>f\<close> is the file at that call, and \<open>g\<close> moves it to the next chunk.
\<close>

lemma read_raw:
  assumes D: "D = xs @ encode_chunk bs (C_raw d) @ ys" "reading (rd_in rd) (length xs) D" "int (length D) < 9223372036854775808"
    and bs: "0 < bs" and d: "int (length d) = n * bs" "0 < n" "n * bs + 12 < 4294967296" "n < 2147483648"
    and s: "sf_block_size s = bs" and blk: "0 \<le> blk" "blk + n < 4294967296"
    and new: "new = \<lparr>bb_addr = a, bb_block = blk, bb_len = n * bs, bb_payload = BB_Fd fd (int (length xs) + 12)\<rparr>"
  shows "\<exists>f g. (\<forall>k. read_chunks fd 12 (Suc k) s blk None rd = rbind (reader_add (rd\<lparr>rd_in := f\<rparr>) (add_bb s new))
      (\<lambda>(ret, s1, rd1). if ret < 0 then Inr (ret, blk, s1, rd1) else read_chunks fd 12 k s1 (blk + n) None (rd1\<lparr>rd_in := g (rd_in rd1)\<rparr>)))
    \<and> reading (g f) (length xs + length (encode_chunk bs (C_raw d))) D"
proof -
  let ?h = "\<lparr>chunk_type = CHUNK_TYPE_RAW, reserved1 = 0, chunk_sz = n, total_sz = CHUNK_HEADER_LEN + n * bs\<rparr>"
  have Dh: "D = xs @ chunk_header_bytes ?h @ (d @ ys)" using D(1) d(1) bs by simp
  have len: "int (length D) = int (length xs) + 12 + n * bs + int (length ys)" using Dh d(1) by simp
  have nb: "0 < n * bs" using d(2) bs by simp
  then have hl: "int (length xs) + 12 < 9223372036854775808" using len D(3) by linarith
  obtain f where f: "reading f (length xs + 12) D"
    "\<And>k. read_chunks fd 12 (Suc k) s blk None rd =
       rbind (process_chunk s fd (int (length xs) + 12) 12 (parse_chunk_header (chunk_header_bytes ?h)) blk None (rd\<lparr>rd_in := f\<rparr>))
         (\<lambda>(ret, s1, crc1, rd1). if ret < 0 then Inr (ret, blk, s1, rd1)
            else read_chunks fd 12 k s1 (u32 (blk + ret)) crc1 rd1)"
    using read_chunk_step [of rd xs ?h "d @ ys"] D(2) hl unfolding Dh by blast
  have add: "(\<lambda>m. sparse_file_add_fd m s fd (int (length xs) + 12) (n * bs) blk) = add_bb s new"
    by (rule ext) (simp add: sparse_file_add_fd_def backed_block_add_fd_def add_bb_def new split: option.split prod.split)
  have conv: "u32 (n * bs) = n * bs" "u32 n = n" "i32 n = n" "u32 (12 + n * bs) = 12 + n * bs" "u32 (blk + n) = blk + n"
    using nb d blk by (intro u32_id i32_id; linarith)+
  let ?g = "\<lambda>f. snd (lseek_cur f (n * bs))"
  have "process_chunk s fd (int (length xs) + 12) 12 (parse_chunk_header (chunk_header_bytes ?h)) blk None rd0 =
      rbind (reader_add rd0 (add_bb s new)) (\<lambda>(ret, s1, rd1). Inr (if ret < 0 then (ret, s1, None, rd1) else (n, s1, None, rd1\<lparr>rd_in := ?g (rd_in rd1)\<rparr>)))" for rd0
    using bs s conv
    by (cases "reader_add rd0 (add_bb s new)")
      (auto simp: parse_chunk_header_bytes process_chunk_def process_raw_chunk_def format_defs u16_def Let_def add)
  then have "read_chunks fd 12 (Suc k) s blk None rd = rbind (reader_add (rd\<lparr>rd_in := f\<rparr>) (add_bb s new))
      (\<lambda>(ret, s1, rd1). if ret < 0 then Inr (ret, blk, s1, rd1) else read_chunks fd 12 k s1 (blk + n) None (rd1\<lparr>rd_in := ?g (rd_in rd1)\<rparr>))" for k
    using f(2) [of k] conv d(2) by (cases "reader_add (rd\<lparr>rd_in := f\<rparr>) (add_bb s new)") auto
  moreover have "reading (?g f) (length xs + length (encode_chunk bs (C_raw d))) D"
    using lseek_cur_reading(2) [OF f(1), of "n * bs"] nb len D(3) arg_cong [OF d(1), of nat]
    by (simp add: nat_add_distrib add.assoc)
  ultimately show ?thesis by (intro exI [of _ f] exI [of _ ?g]) blast
qed

lemma read_fill:
  assumes D: "D = xs @ encode_chunk bs (C_fill n v) @ ys" "reading (rd_in rd) (length xs) D" "int (length D) < 9223372036854775808"
    and bs: "0 < bs" and n: "0 < n" "n * bs < 4294967296" "n < 2147483648" "0 \<le> v" "v < 4294967296"
    and s: "sf_block_size s = bs" and blk: "0 \<le> blk" "blk + n < 4294967296"
    and new: "new = \<lparr>bb_addr = a, bb_block = blk, bb_len = n * bs, bb_payload = BB_Fill v\<rparr>"
  shows "\<exists>f g. (\<forall>k. read_chunks fd 12 (Suc k) s blk None rd = rbind (reader_add (rd\<lparr>rd_in := f\<rparr>) (add_bb s new))
      (\<lambda>(ret, s1, rd1). if ret < 0 then Inr (ret, blk, s1, rd1) else read_chunks fd 12 k s1 (blk + n) None (rd1\<lparr>rd_in := g (rd_in rd1)\<rparr>)))
    \<and> reading (g f) (length xs + length (encode_chunk bs (C_fill n v))) D"
proof -
  let ?h = "\<lparr>chunk_type = CHUNK_TYPE_FILL, reserved1 = 0, chunk_sz = n, total_sz = CHUNK_HEADER_LEN + 4\<rparr>"
  have Dh: "D = xs @ chunk_header_bytes ?h @ (le_bytes 4 v @ ys)" using D(1) by simp
  have len: "int (length D) = int (length xs) + 16 + int (length ys)" using Dh by (simp del: le_bytes.simps)
  have nb: "0 < n * bs" using n(1) bs by simp
  have hl: "int (length xs) + 12 < 9223372036854775808" using len D(3) by linarith
  obtain f1 where f: "reading f1 (length xs + 12) D"
    "\<And>k. read_chunks fd 12 (Suc k) s blk None rd =
       rbind (process_chunk s fd (int (length xs) + 12) 12 (parse_chunk_header (chunk_header_bytes ?h)) blk None (rd\<lparr>rd_in := f1\<rparr>))
         (\<lambda>(ret, s1, crc1, rd1). if ret < 0 then Inr (ret, blk, s1, rd1)
            else read_chunks fd 12 k s1 (u32 (blk + ret)) crc1 rd1)"
    using read_chunk_step [of rd xs ?h "le_bytes 4 v @ ys"] D(2) hl unfolding Dh by blast
  have "bslice (length xs + 12) 4 D = le_bytes 4 v"
    unfolding Dh using bslice_mid [of "xs @ chunk_header_bytes ?h" "length xs + 12" "le_bytes 4 v" 4 ys] by simp
  then obtain f2 where f2: "read_all f1 4 = (0, le_bytes 4 v, f2)" "reading f2 (length xs + 16) D"
    using read_all_ok [OF f(1), of 4] len by (auto simp: add.commute)
  have v: "le_val (le_bytes 4 v) = v" using n(4,5) by (simp add: le_val_le_bytes del: le_bytes.simps)
  have add: "(\<lambda>m. sparse_file_add_fill m s v (n * bs) blk) = add_bb s new"
    by (rule ext) (simp add: sparse_file_add_fill_def backed_block_add_fill_def add_bb_def new split: option.split prod.split)
  have conv: "u32 (n * bs) = n * bs" "u32 n = n" "i32 n = n" "u32 (blk + n) = blk + n" "i64 (n * bs) = n * bs"
    using nb n blk by (intro u32_id i32_id i64_id; linarith)+
  have "process_chunk s fd (int (length xs) + 12) 12 (parse_chunk_header (chunk_header_bytes ?h)) blk None (rd\<lparr>rd_in := f1\<rparr>) =
      rbind (reader_add (rd\<lparr>rd_in := f2\<rparr>) (add_bb s new)) (\<lambda>(ret, s1, rd1). Inr (if ret < 0 then (ret, s1, None, rd1) else (n, s1, None, rd1)))"
    using s conv f2(1) v
    by (cases "reader_add (rd\<lparr>rd_in := f2\<rparr>) (add_bb s new)")
      (auto simp: parse_chunk_header_bytes process_chunk_def process_fill_chunk_def format_defs u16_def u32_id Let_def add
        simp del: le_bytes.simps)
  then have "read_chunks fd 12 (Suc k) s blk None rd = rbind (reader_add (rd\<lparr>rd_in := f2\<rparr>) (add_bb s new))
      (\<lambda>(ret, s1, rd1). if ret < 0 then Inr (ret, blk, s1, rd1) else read_chunks fd 12 k s1 (blk + n) None (rd1\<lparr>rd_in := id (rd_in rd1)\<rparr>))" for k
    using f(2) [of k] conv n(1) by (cases "reader_add (rd\<lparr>rd_in := f2\<rparr>) (add_bb s new)") auto
  moreover have "reading (id f2) (length xs + length (encode_chunk bs (C_fill n v))) D"
    using f2(2) by (simp del: le_bytes.simps)
  ultimately show ?thesis by (intro exI [of _ f2] exI [of _ id]) blast
qed

lemma read_bb_add:
  assumes D: "D = xs @ encode_chunk bs (bb_chunk E bs b) @ ys" "reading (rd_in rd) (length xs) D" "int (length D) < 9223372036854775808"
    and b: "0 < bs" "bb_ok bs b" "bb_writable E bs b" and s: "sf_block_size s = bs"
    and new: "new = reimport_bb bs fd a (int (length xs)) b"
  shows "\<exists>f g. (\<forall>k. read_chunks fd 12 (Suc k) s (bb_block b) None rd = rbind (reader_add (rd\<lparr>rd_in := f\<rparr>) (add_bb s new))
      (\<lambda>(ret, s1, rd1). if ret < 0 then Inr (ret, bb_block b, s1, rd1)
         else read_chunks fd 12 k s1 (bb_last bs b) None (rd1\<lparr>rd_in := g (rd_in rd1)\<rparr>)))
    \<and> reading (g f) (length xs + length (encode_chunk bs (bb_chunk E bs b))) D"
proof -
  define n where "n = ceil_div (bb_len b) bs"
  note wb = writable_bound [OF b, folded n_def]
  have last: "bb_last bs b = bb_block b + n" by (simp add: bb_last_def n_def)
  have blk: "0 \<le> bb_block b" "bb_block b + n < 4294967296" using bb_okD [OF b(2)] last by simp_all
  show ?thesis
  proof (cases "\<exists>v. bb_payload b = BB_Fill v")
    case True
    then obtain v where v: "bb_payload b = BB_Fill v" "bs dvd bb_len b" "0 \<le> v" "v < 4294967296"
      using b(3) by (auto simp: bb_writable_def)
    have c: "bb_chunk E bs b = C_fill n v" using v ceil_div_dvd [OF b(1) v(2)] by (simp add: bb_chunk_def n_def)
    have eq: "new = \<lparr>bb_addr = a, bb_block = bb_block b, bb_len = n * bs, bb_payload = BB_Fill v\<rparr>"
      using new v(1) by (simp add: reimport_bb_def n_def)
    show ?thesis
      unfolding c last
      by (rule read_fill [OF D [unfolded c] b(1) _ _ _ v(3,4) s blk eq]) (use wb in auto)
  next
    case False
    obtain d where d: "payload_bytes E (bb_payload b) (bb_len b) = Some d"
      using b(3) by (auto simp: bb_writable_def)
    have c: "bb_chunk E bs b = C_raw (pad_block bs d)" using False d by (auto simp: bb_chunk_def split: bb_payload.split)
    have "int (length (pad_block bs d)) = n * bs"
      using payload_bytes_length [OF d] bb_okD [OF b(2)] b(1) by (simp add: length_pad_block n_def)
    moreover have "new = \<lparr>bb_addr = a, bb_block = bb_block b, bb_len = n * bs, bb_payload = BB_Fd fd (int (length xs) + 12)\<rparr>"
      using new False by (auto simp: reimport_bb_def n_def split: bb_payload.split)
    ultimately show ?thesis
      unfolding c last
      by (intro read_raw [OF D [unfolded c] b(1) _ _ _ _ s blk]) (use wb in auto)
  qed
qed

lemma read_bb:
  assumes D: "D = xs @ encode_chunk bs (bb_chunk E bs b) @ ys" "reading (rd_in rd) (length xs) D" "int (length D) < 9223372036854775808"
    and b: "0 < bs" "bb_ok bs b" "bb_writable E bs b"
    and inv: "import_inv bs (bb_block b) s rd"
    and new: "new = reimport_bb bs fd (mem_next (rd_mem rd)) (int (length xs)) b"
      "sf_blocks s \<noteq> [] \<Longrightarrow> \<not> mergeable bs (last (sf_blocks s)) new"
  shows "\<exists>s' rd'. (\<forall>k. read_chunks fd 12 (Suc k) s (bb_block b) None rd = read_chunks fd 12 k s' (bb_last bs b) None rd')
    \<and> import_inv bs (bb_last bs b) s' rd' \<and> sf_blocks s' = sf_blocks s @ [new] \<and> sf_len s' = sf_len s
    \<and> reading (rd_in rd') (length xs + length (encode_chunk bs (bb_chunk E bs b))) D
    \<and> mem_next (rd_mem rd') = Suc (mem_next (rd_mem rd))"
proof -
  note wb = writable_bound [OF b]
  have ok: "bb_ok bs new" unfolding new(1) using wb(1,2) by (intro reimport_bb_ok b; linarith)
  have sz: "sf_block_size s = bs" using inv by (simp add: import_inv_def)
  obtain f g where f: "\<And>k. read_chunks fd 12 (Suc k) s (bb_block b) None rd = rbind (reader_add (rd\<lparr>rd_in := f\<rparr>) (add_bb s new))
      (\<lambda>(ret, s1, rd1). if ret < 0 then Inr (ret, bb_block b, s1, rd1)
         else read_chunks fd 12 k s1 (bb_last bs b) None (rd1\<lparr>rd_in := g (rd_in rd1)\<rparr>))"
    "reading (g f) (length xs + length (encode_chunk bs (bb_chunk E bs b))) D"
    using read_bb_add [OF D b sz new(1)] by blast
  have nb: "bb_block new = bb_block b" "bb_addr new = mem_next (rd_mem rd)" "\<And>h off. bb_payload new \<noteq> BB_File h off"
    by (auto simp: new(1) reimport_bb_def split: bb_payload.split)
  have inv': "import_inv bs (bb_block b) s (rd\<lparr>rd_in := f\<rparr>)" using inv by (simp add: import_inv_def)
  obtain s' rd1 where add: "reader_add (rd\<lparr>rd_in := f\<rparr>) (add_bb s new) = Inr (0, s', rd1)" "import_inv bs (bb_last bs new) s' rd1"
      "sf_blocks s' = sf_blocks s @ [new]" "sf_len s' = sf_len s" "rd_in rd1 = f" "mem_next (rd_mem rd1) = Suc (mem_next (rd_mem rd))"
    using import_add [OF inv' b(1) ok _ _ nb(3) new(2)] nb(1,2) by auto
  have "bb_last bs new = bb_last bs b" using reimport_bb_last [OF b(1)] new(1) by simp
  moreover have "import_inv bs (bb_last bs new) s' (rd1\<lparr>rd_in := g f\<rparr>)" using add(2) by (simp add: import_inv_def)
  ultimately show ?thesis using add f by (intro exI [of _ s'] exI [of _ "rd1\<lparr>rd_in := g f\<rparr>"]) simp
qed

abbreviation encode_chunks :: "int \<Rightarrow> chunk list \<Rightarrow> byte list" where
  "encode_chunks bs cs \<equiv> concat (map (encode_chunk bs) cs)"

text \<open>
  The blocks an image is read back as: those of the original, in whole blocks, with their data in the
  image file. \<open>p\<close> is the position of the next chunk, \<open>a\<close> the next address.
\<close>

fun reimport :: "env \<Rightarrow> int \<Rightarrow> int \<Rightarrow> nat \<Rightarrow> int \<Rightarrow> int \<Rightarrow> backed_block list \<Rightarrow> backed_block list" where
  "reimport E bs fd a p last_block [] = []"
| "reimport E bs fd a p last_block (b # rest) =
     (let q = p + int (length (encode_chunks bs (skip_to last_block (bb_block b))))
      in reimport_bb bs fd a q b
         # reimport E bs fd (Suc a) (q + int (length (encode_chunk bs (bb_chunk E bs b)))) (bb_last bs b) rest)"

text \<open>
  No two neighbouring fills could be one. A list to which blocks are added in ascending order is like that, but \<open>queue_bb\<close> does not
  merge a block that it puts in front of the list, so a list to which they are added in another order need not be.
\<close>

definition fills_merged :: "int \<Rightarrow> backed_block list \<Rightarrow> bool" where
  "fills_merged bs = successively (\<lambda>a b. \<not> (bb_type a = BACKED_BLOCK_FILL \<and> mergeable bs a b))"

lemma reimport_unmergeable:
  assumes "0 < bs" "bb_ok bs b" "bb_ok bs c" "bb_writable E bs b" "bb_writable E bs c"
    "\<not> (bb_type b = BACKED_BLOCK_FILL \<and> mergeable bs b c)"
    "0 \<le> p" "bb_type b \<noteq> BACKED_BLOCK_FILL \<Longrightarrow> p + 12 + ceil_div (bb_len b) bs * bs \<le> q" "q + 12 < 9223372036854775808"
  shows "\<not> mergeable bs (reimport_bb bs fd a p b) (reimport_bb bs fd a' q c)"
proof -
  have len: "0 < ceil_div (bb_len b) bs * bs" using assms(1,2) ceil_div_pos [of bs "bb_len b"] by (simp add: bb_ok_def)
  show ?thesis
  proof (cases "(\<exists>v. bb_payload b = BB_Fill v) \<and> (\<exists>v. bb_payload c = BB_Fill v)")
    case True
    then obtain v w where vw: "bb_payload b = BB_Fill v" "bs dvd bb_len b" "bb_payload c = BB_Fill w"
      using assms(4,5) by (auto simp: bb_writable_def)
    then have "ceil_div (bb_len b) bs * bs = bb_len b" using ceil_div_dvd [OF assms(1)] by simp
    with vw assms(6) show ?thesis
      by (auto simp: mergeable_def reimport_bb_def bb_type_def merge_compatible_def)
  next
    case False
    show ?thesis
    proof (cases "bb_type b = BACKED_BLOCK_FILL")
      case True
      with False show ?thesis
        by (auto simp: mergeable_def reimport_bb_def bb_type_def split: bb_payload.splits)
    next
      case raw: False
      then have "i64 (p + 12 + ceil_div (bb_len b) bs * bs) = p + 12 + ceil_div (bb_len b) bs * bs"
        using len assms(7) assms(8) [OF raw] assms(9) by (intro i64_id; linarith)
      with raw assms(8) [OF raw] show ?thesis
        by (auto simp: mergeable_def reimport_bb_def bb_type_def merge_compatible_def split: bb_payload.splits)
    qed
  qed
qed

lemma encode_chunk_bb_length:
  assumes "0 < bs" "bb_ok bs b" "bb_writable E bs b" "bb_type b \<noteq> BACKED_BLOCK_FILL"
  shows "int (length (encode_chunk bs (bb_chunk E bs b))) = 12 + ceil_div (bb_len b) bs * bs"
proof -
  have "encode_chunk bs (bb_chunk E bs b) = chunk_header_bytes
     \<lparr>chunk_type = CHUNK_TYPE_RAW, reserved1 = 0, chunk_sz = int (length (expand_chunk bs (bb_chunk E bs b))) div bs,
      total_sz = CHUNK_HEADER_LEN + int (length (expand_chunk bs (bb_chunk E bs b)))\<rparr> @ expand_chunk bs (bb_chunk E bs b)"
    using assms(4) by (auto simp: bb_chunk_def bb_type_def split: bb_payload.splits)
  then show ?thesis using expand_bb_chunk(1) [OF assms(1-3)] by simp
qed

lemma read_skip_to:
  assumes "reading (rd_in rd) (length xs) D" "D = xs @ encode_chunks bs (skip_to a b) @ ys"
    "int (length D) < 9223372036854775808" "0 \<le> a" "a \<le> b" "b < 2147483648"
  shows "\<exists>f. reading f (length (xs @ encode_chunks bs (skip_to a b))) D \<and>
    (\<forall>k. read_chunks fd 12 (length (skip_to a b) + k) s a None rd = read_chunks fd 12 k s b None (rd\<lparr>rd_in := f\<rparr>))"
proof (cases "a < b")
  case True
  then show ?thesis
    using read_skip [of rd xs bs "b - a" ys a fd s] assms by (simp add: skip_to_def)
next
  case False
  with assms show ?thesis by (intro exI [of _ "rd_in rd"]) (simp add: skip_to_def)
qed

lemma read_blocks:
  assumes "D = pre @ encode_chunks bs (blocks_chunks E bs last_block xs) @ ys" "reading (rd_in rd) (length pre) D"
    "int (length D) < 9223372036854775808" "0 < bs" "bbl_sorted bs xs" "fills_merged bs xs" "0 \<le> last_block"
    "\<forall>b \<in> set xs. bb_ok bs b \<and> bb_writable E bs b \<and> last_block \<le> bb_block b"
    "blocks_end bs last_block xs < 2147483648" "import_inv bs last_block s rd"
    "sf_blocks s \<noteq> [] \<Longrightarrow> xs \<noteq> [] \<Longrightarrow>
      \<not> mergeable bs (last (sf_blocks s)) (hd (reimport E bs fd (mem_next (rd_mem rd)) (int (length pre)) last_block xs))"
  shows "\<exists>s' rd'. (\<forall>k. read_chunks fd 12 (length (blocks_chunks E bs last_block xs) + k) s last_block None rd
        = read_chunks fd 12 k s' (blocks_end bs last_block xs) None rd')
    \<and> import_inv bs (blocks_end bs last_block xs) s' rd'
    \<and> sf_blocks s' = sf_blocks s @ reimport E bs fd (mem_next (rd_mem rd)) (int (length pre)) last_block xs
    \<and> sf_len s' = sf_len s
    \<and> reading (rd_in rd') (length pre + length (encode_chunks bs (blocks_chunks E bs last_block xs))) D"
  using assms
proof (induction xs arbitrary: pre last_block s rd)
  case Nil
  then show ?case by (intro exI [of _ s] exI [of _ rd]) simp
next
  case (Cons b xs)
  let ?sk = "skip_to last_block (bb_block b)" and ?c = "bb_chunk E bs b"
  let ?cs = "blocks_chunks E bs (bb_last bs b) xs"
  define p1 where "p1 = pre @ encode_chunks bs ?sk"
  define p2 where "p2 = p1 @ encode_chunk bs ?c"
  have b: "bb_ok bs b" "bb_writable E bs b" "last_block \<le> bb_block b" using Cons.prems(8) by auto
  note gt = bb_last_gt [OF Cons.prems(4) b(1)]
  have rest: "\<forall>c \<in> set xs. bb_ok bs c \<and> bb_writable E bs c \<and> bb_last bs b \<le> bb_block c" "bbl_sorted bs xs"
    using Cons.prems(5,8) by (auto simp: bbl_sorted_Cons)
  have "bb_last bs b \<le> blocks_end bs (bb_last bs b) xs"
    using blocks_end_ge [OF Cons.prems(4) rest(2)] rest(1) by simp
  then have lb: "bb_last bs b < 2147483648" using Cons.prems(9) by simp
  have D: "D = pre @ encode_chunks bs ?sk @ (encode_chunk bs ?c @ encode_chunks bs ?cs @ ys)"
    "D = p1 @ encode_chunk bs ?c @ (encode_chunks bs ?cs @ ys)" "D = p2 @ encode_chunks bs ?cs @ ys"
    using Cons.prems(1) by (simp_all add: p1_def p2_def)
  obtain f where f: "reading f (length p1) D"
    "\<And>k. read_chunks fd 12 (length ?sk + k) s last_block None rd = read_chunks fd 12 k s (bb_block b) None (rd\<lparr>rd_in := f\<rparr>)"
    using read_skip_to [OF Cons.prems(2) D(1) Cons.prems(3,7) b(3), of fd s] lb gt unfolding p1_def by auto
  let ?rd = "rd\<lparr>rd_in := f\<rparr>" and ?new = "reimport_bb bs fd (mem_next (rd_mem rd)) (int (length p1)) b"
  have "import_inv bs (bb_block b) s ?rd" using Cons.prems(10) b(3) by (auto simp: import_inv_def)
  moreover have "sf_blocks s \<noteq> [] \<Longrightarrow> \<not> mergeable bs (last (sf_blocks s)) ?new"
    using Cons.prems(11) by (simp add: Let_def p1_def)
  ultimately obtain s1 rd1 where s1: "\<And>k. read_chunks fd 12 (Suc k) s (bb_block b) None ?rd = read_chunks fd 12 k s1 (bb_last bs b) None rd1"
      "import_inv bs (bb_last bs b) s1 rd1" "sf_blocks s1 = sf_blocks s @ [?new]" "sf_len s1 = sf_len s"
      "reading (rd_in rd1) (length p2) D" "mem_next (rd_mem rd1) = Suc (mem_next (rd_mem rd))"
    using read_bb [OF D(2) _ Cons.prems(3,4) b(1,2), of ?rd s ?new fd] f(1) by (auto simp: p2_def)
  have link: "\<not> mergeable bs ?new (hd (reimport E bs fd (mem_next (rd_mem rd1)) (int (length p2)) (bb_last bs b) xs))"
    if ne: "xs \<noteq> []"
  proof -
    obtain c zs where xs: "xs = c # zs" using ne by (cases xs) auto
    let ?q = "int (length p2) + int (length (encode_chunks bs (skip_to (bb_last bs b) (bb_block c))))"
    have "?q + int (length (encode_chunk bs (bb_chunk E bs c))) < 9223372036854775808"
      using Cons.prems(3) unfolding D(3) xs by simp
    moreover have "12 \<le> length (encode_chunk bs (bb_chunk E bs c))"
      by (cases "bb_chunk E bs c") (simp_all del: le_bytes.simps)
    moreover have "bb_type b \<noteq> BACKED_BLOCK_FILL \<Longrightarrow> int (length p1) + 12 + ceil_div (bb_len b) bs * bs \<le> ?q"
      using encode_chunk_bb_length [OF Cons.prems(4) b(1,2)] by (simp add: p2_def)
    ultimately have "\<not> mergeable bs ?new (reimport_bb bs fd (mem_next (rd_mem rd1)) ?q c)"
      using rest(1) Cons.prems(6) xs
      by (intro reimport_unmergeable [OF Cons.prems(4) b(1) _ b(2)]) (auto simp: fills_merged_def)
    then show ?thesis by (simp add: xs Let_def)
  qed
  have fm: "fills_merged bs xs" using Cons.prems(6) by (cases xs) (auto simp: fills_merged_def)
  have "0 \<le> bb_last bs b" using bb_okD [OF b(1)] gt by linarith
  then obtain s2 rd2 where s2: "\<And>k. read_chunks fd 12 (length ?cs + k) s1 (bb_last bs b) None rd1
        = read_chunks fd 12 k s2 (blocks_end bs (bb_last bs b) xs) None rd2" "import_inv bs (blocks_end bs (bb_last bs b) xs) s2 rd2"
      "sf_blocks s2 = sf_blocks s1 @ reimport E bs fd (mem_next (rd_mem rd1)) (int (length p2)) (bb_last bs b) xs"
      "sf_len s2 = sf_len s1" "reading (rd_in rd2) (length p2 + length (encode_chunks bs ?cs)) D"
    using Cons.IH [OF D(3) s1(5) Cons.prems(3,4) rest(2) fm _ rest(1) _ s1(2)] Cons.prems(9) link s1(3) by auto
  have "read_chunks fd 12 (length (blocks_chunks E bs last_block (b # xs)) + k) s last_block None rd
      = read_chunks fd 12 k s2 (blocks_end bs last_block (b # xs)) None rd2" for k
    using f(2) [of "Suc (length ?cs + k)"] s1(1) s2(1) by (simp add: add.assoc)
  with s1 s2 show ?case
    by (intro exI [of _ s2] exI [of _ rd2]) (simp add: Let_def p1_def p2_def add.assoc)
qed

section \<open>Reading back fills that were not merged\<close>

text \<open>The list after a block was merged into its predecessor and freed: \<open>last_used\<close> still points to it.\<close>

definition dangling :: "int \<Rightarrow> int \<Rightarrow> sparse_file \<Rightarrow> reader \<Rightarrow> bool" where
  "dangling bs blk s rd \<longleftrightarrow>
     sf_block_size s = bs \<and> mem_ok (rd_mem rd) \<and> sf_blocks s \<noteq> [] \<and> bb_block (hd (sf_blocks s)) \<le> blk \<and>
     (\<exists>u. last_used (backed_block_list s) = Some u \<and> u \<notin> bb_addr ` set (sf_blocks s))"

lemma read_bb_merged:
  assumes D: "D = xs @ encode_chunk bs (bb_chunk E bs b) @ ys" "reading (rd_in rd) (length xs) D" "int (length D) < 9223372036854775808"
    and b: "0 < bs" "bb_ok bs b" "bb_writable E bs b"
    and inv: "import_inv bs (bb_block b) s rd" and ne: "sf_blocks s \<noteq> []"
    and m: "mergeable bs (last (sf_blocks s)) (reimport_bb bs fd (mem_next (rd_mem rd)) (int (length xs)) b)"
  shows "\<exists>s' rd'. (\<forall>k. read_chunks fd 12 (Suc k) s (bb_block b) None rd = read_chunks fd 12 k s' (bb_last bs b) None rd')
    \<and> dangling bs (bb_last bs b) s' rd' \<and> reading (rd_in rd') (length xs + length (encode_chunk bs (bb_chunk E bs b))) D"
proof -
  define new where "new = reimport_bb bs fd (mem_next (rd_mem rd)) (int (length xs)) b"
  let ?l = "backed_block_list s" and ?n = "mem_next (rd_mem rd)"
  have i: "sf_block_size s = bs" "bbl_block_size ?l = bs" "bbl_wf bs (sf_blocks s)" "last_used_ok ?l" "mem_ok (rd_mem rd)"
    "\<And>c. c \<in> set (sf_blocks s) \<Longrightarrow> bb_last bs c \<le> bb_block b \<and> bb_addr c < ?n"
    using inv by (auto simp: import_inv_def)
  obtain f g where f: "\<And>k. read_chunks fd 12 (Suc k) s (bb_block b) None rd = rbind (reader_add (rd\<lparr>rd_in := f\<rparr>) (add_bb s new))
      (\<lambda>(ret, s1, rd1). if ret < 0 then Inr (ret, bb_block b, s1, rd1)
         else read_chunks fd 12 k s1 (bb_last bs b) None (rd1\<lparr>rd_in := g (rd_in rd1)\<rparr>))"
    "reading (g f) (length xs + length (encode_chunk bs (bb_chunk E bs b))) D"
    using read_bb_add [OF D b i(1) new_def] by blast
  have nb: "bb_block new = bb_block b" "bb_addr new = ?n" "new\<lparr>bb_addr := ?n\<rparr> = new" by (simp_all add: new_def reimport_bb_def)
  let ?a = "last (sf_blocks s)"
  define l' where "l' = ?l\<lparr>last_used := Some ?n, data_blocks := butlast (sf_blocks s) @ [?a\<lparr>bb_len := u32 (bb_len ?a + bb_len new)\<rparr>]\<rparr>"
  let ?m = "(rd_mem rd)\<lparr>mem_next := Suc ?n\<rparr>"
  have "queue_bb ?l new = Inr (0, l')"
    using queue_bb_append_merge [OF i(2) b(1) i(3,4) _ ne m [folded new_def]] i(6) nb(1,2) by (simp add: l'_def)
  then have add: "reader_add (rd\<lparr>rd_in := f\<rparr>) (add_bb s new) = Inr (0, s\<lparr>backed_block_list := l'\<rparr>, rd\<lparr>rd_in := f, rd_mem := ?m\<rparr>)"
    using nb(3) by (simp add: reader_add_def add_bb_def with_bbl_def malloc_ok [OF i(5)])
  have hd: "bb_block (hd (data_blocks l')) = bb_block (hd (sf_blocks s))"
  proof (cases "butlast (sf_blocks s)")
    case Nil
    then have "sf_blocks s = [?a]" using ne by (metis append_Nil append_butlast_last_id)
    then have "hd (sf_blocks s) = ?a" by (metis list.sel(1))
    then show ?thesis using Nil by (simp add: l'_def)
  next
    case (Cons c cs)
    then have "sf_blocks s = c # cs @ [?a]" using ne by (metis append_Cons append_butlast_last_id)
    then have "hd (sf_blocks s) = c" by (metis list.sel(1))
    then show ?thesis using Cons by (simp add: l'_def)
  qed
  have "bb_ok bs (hd (sf_blocks s))" "bb_last bs (hd (sf_blocks s)) \<le> bb_block b" using i(3,6) ne by (simp_all add: bbl_wf_def)
  then have "bb_block (hd (sf_blocks s)) \<le> bb_last bs b"
    using bb_last_gt [OF b(1)] bb_last_gt [OF b(1,2)] by (meson less_imp_le order_trans)
  moreover have lt: "bb_addr c < ?n" if "c \<in> set (data_blocks l')" for c
  proof -
    have "bb_addr ?a < ?n" using i(6) ne by simp
    then show ?thesis using that i(6) in_set_butlastD [of c "sf_blocks s"] by (auto simp: l'_def)
  qed
  moreover have "?n \<notin> bb_addr ` set (data_blocks l')" using lt by (metis imageE less_irrefl)
  moreover have "last_used l' = Some ?n" "data_blocks l' \<noteq> []" by (simp_all add: l'_def)
  ultimately have "dangling bs (bb_last bs b) (s\<lparr>backed_block_list := l'\<rparr>) (rd\<lparr>rd_mem := ?m, rd_in := g f\<rparr>)"
    using i(1,5) hd by (simp add: dangling_def)
  then show ?thesis using f add by (intro exI [of _ "s\<lparr>backed_block_list := l'\<rparr>"] exI [of _ "rd\<lparr>rd_mem := ?m, rd_in := g f\<rparr>"]) simp
qed

lemma read_bb_dangling:
  assumes D: "D = xs @ encode_chunk bs (bb_chunk E bs b) @ ys" "reading (rd_in rd) (length xs) D" "int (length D) < 9223372036854775808"
    and b: "0 < bs" "bb_ok bs b" "bb_writable E bs b" and d: "dangling bs (bb_block b) s rd"
  shows "read_chunks fd 12 (Suc k) s (bb_block b) None rd = Inl Use_after_free"
proof -
  define new where "new = reimport_bb bs fd 0 (int (length xs)) b"
  have s: "sf_block_size s = bs" and m: "mem_ok (rd_mem rd)" using d by (simp_all add: dangling_def)
  obtain f g where f: "\<And>k. read_chunks fd 12 (Suc k) s (bb_block b) None rd = rbind (reader_add (rd\<lparr>rd_in := f\<rparr>) (add_bb s new))
      (\<lambda>(ret, s1, rd1). if ret < 0 then Inr (ret, bb_block b, s1, rd1)
         else read_chunks fd 12 k s1 (bb_last bs b) None (rd1\<lparr>rd_in := g (rd_in rd1)\<rparr>))"
    using read_bb_add [OF D b s new_def] by blast
  have "queue_bb (backed_block_list s) (new\<lparr>bb_addr := a\<rparr>) = Inl Use_after_free" for a
    using d by (auto simp: dangling_def new_def reimport_bb_def intro!: queue_bb_freed_hint)
  then show ?thesis using f by (simp add: reader_add_def add_bb_def with_bbl_def malloc_ok [OF m])
qed

lemma not_successively:
  "\<not> successively P xs \<Longrightarrow> \<exists>ys a b zs. xs = ys @ a # b # zs \<and> successively P (ys @ [a]) \<and> \<not> P a b"
proof (induction xs)
  case (Cons x xs)
  then obtain y zs where xs: "xs = y # zs" by (cases xs) auto
  show ?case
  proof (cases "P x y")
    case False
    then show ?thesis using xs by (intro exI [of _ "[]"]) auto
  next
    case True
    then have "\<not> successively P xs" using Cons.prems xs by simp
    then obtain ys a b us where u: "xs = ys @ a # b # us" "successively P (ys @ [a])" "\<not> P a b" using Cons.IH by blast
    have "hd (ys @ [a]) = y" using u(1) xs by (cases ys) auto
    then have "successively P ((x # ys) @ [a])" using u(2) True by (cases ys) auto
    then show ?thesis using u by (intro exI [of _ "x # ys"]) auto
  qed
qed simp

lemma first_unmerged:
  assumes "\<not> fills_merged bs (butlast xs)"
  obtains ys a b c zs where "xs = (ys @ [a]) @ b # c # zs" "fills_merged bs (ys @ [a])" "bb_type a = BACKED_BLOCK_FILL" "mergeable bs a b"
proof -
  obtain ys a b us where u: "butlast xs = ys @ a # b # us" "fills_merged bs (ys @ [a])" "bb_type a = BACKED_BLOCK_FILL" "mergeable bs a b"
    using not_successively [OF assms [unfolded fills_merged_def]] unfolding fills_merged_def by blast
  then have "xs = (ys @ [a]) @ b # us @ [last xs]" by (metis append.assoc append_Cons append_Nil append_butlast_last_id butlast.simps(1) list.distinct(1) snoc_eq_iff_butlast)
  moreover obtain c zs where "us @ [last xs] = c # zs" by (cases "us @ [last xs]") auto
  ultimately show ?thesis using u that by metis
qed

lemma last_reimport:
  "\<exists>a' q. reimport E bs fd n p l (us @ [a]) \<noteq> [] \<and> last (reimport E bs fd n p l (us @ [a])) = reimport_bb bs fd a' q a"
proof (induction us arbitrary: n p l)
  case (Cons u us)
  define q where "q = p + int (length (encode_chunks bs (skip_to l (bb_block u))))"
  obtain a' q' where r: "reimport E bs fd (Suc n) (q + int (length (encode_chunk bs (bb_chunk E bs u)))) (bb_last bs u) (us @ [a]) \<noteq> []"
    "last (reimport E bs fd (Suc n) (q + int (length (encode_chunk bs (bb_chunk E bs u)))) (bb_last bs u) (us @ [a])) = reimport_bb bs fd a' q' a"
    using Cons.IH by blast
  then show ?case by (intro exI [of _ a'] exI [of _ q']) (simp add: Let_def q_def)
qed (auto simp: Let_def)

lemma fill_neighbour:
  assumes "0 < bs" "bb_ok bs a" "bb_ok bs b" "bb_writable E bs a" "bb_writable E bs b" "bb_type a = BACKED_BLOCK_FILL" "mergeable bs a b"
  shows "mergeable bs (reimport_bb bs fd n p a) (reimport_bb bs fd n' q b)" "bb_last bs a = bb_block b"
proof -
  obtain v where v: "bb_payload a = BB_Fill v" "bs dvd bb_len a" using assms(4,6) by (auto simp: bb_writable_def bb_type_def split: bb_payload.splits)
  then have c: "ceil_div (bb_len a) bs = bb_len a div bs" "ceil_div (bb_len a) bs * bs = bb_len a" using ceil_div_dvd [OF assms(1)] by simp_all
  have w: "bb_payload b = BB_Fill v" using assms(7) v(1) by (auto simp: mergeable_def merge_compatible_def bb_type_def split: bb_payload.splits)
  show "mergeable bs (reimport_bb bs fd n p a) (reimport_bb bs fd n' q b)"
    using assms(7) v(1) w c by (simp add: mergeable_def reimport_bb_def merge_compatible_def bb_type_def)
  have "bb_last bs a = bb_block a + bb_len a div bs" "0 \<le> bb_last bs a" "bb_last bs a < 4294967296"
    using c(1) bb_okD [OF assms(2)] bb_last_gt [OF assms(1,2)] by (simp_all add: bb_last_def)
  then show "bb_last bs a = bb_block b" using assms(7) by (simp add: mergeable_def u32_id)
qed

lemma read_unmerged:
  assumes im: "image_ok E s" "\<not> fills_merged bs (butlast (sf_blocks s))" "bs = sf_block_size s"
    and D: "D = pre @ encode_chunks bs (image_chunks E s) @ ys" "reading (rd_in rd) (length pre) D" "int (length D) < 9223372036854775808"
    and s0: "import_inv bs 0 s0 rd" "sf_blocks s0 = []"
  shows "read_chunks fd 12 (length (image_chunks E s) + k) s0 0 None rd = Inl Use_after_free"
proof -
  obtain us a b c zs where xs: "sf_blocks s = (us @ [a]) @ b # c # zs" and fm: "fills_merged bs (us @ [a])"
    and ab: "bb_type a = BACKED_BLOCK_FILL" "mergeable bs a b" using first_unmerged [OF im(2)] by blast
  note i = image_okD [OF im(1) im(3) [symmetric]] and e = image_end [OF im(1) im(3) [symmetric]]
  have ok: "bb_ok bs d" "bb_writable E bs d" "0 \<le> bb_block d" if "d \<in> set (sf_blocks s)" for d using i(8) that by auto
  have lt: "bb_last bs d < 2147483648" if "d \<in> set (sf_blocks s)" for d
    using blocks_end_last [OF i(1,7) _ that, of 0] i(8) e(2) i(5) by auto
  have mem: "a \<in> set (sf_blocks s)" "b \<in> set (sf_blocks s)" "c \<in> set (sf_blocks s)" by (auto simp: xs)
  note fn = fill_neighbour [OF i(1) ok(1) [OF mem(1)] ok(1) [OF mem(2)] ok(2) [OF mem(1)] ok(2) [OF mem(2)] ab]
  have so: "bbl_sorted bs (us @ [a])" "bb_last bs b \<le> bb_block c" using i(7) unfolding xs by (auto simp: bbl_sorted_def sorted_wrt_append)
  let ?cs = "blocks_chunks E bs 0 (us @ [a])" and ?sk = "skip_to (bb_last bs b) (bb_block c)"
  have ea: "blocks_end bs 0 (us @ [a]) = bb_block b" using fn(2) by (simp add: blocks_end_append)
  define rest where "rest = blocks_chunks E bs (bb_last bs c) zs @ skip_to (blocks_end bs 0 (sf_blocks s)) (sf_len s div bs)"
  have cs: "image_chunks E s = ?cs @ bb_chunk E bs b # ?sk @ bb_chunk E bs c # rest"
    unfolding image_chunks_def im(3) [symmetric] xs blocks_chunks_append [of _ _ _ "us @ [a]"] ea rest_def
    by (simp add: skip_to_def [of "bb_block b" "bb_block b"] xs del: blocks_end.simps)
  define p2 where "p2 = pre @ encode_chunks bs ?cs"
  define p3 where "p3 = p2 @ encode_chunk bs (bb_chunk E bs b)"
  define p4 where "p4 = p3 @ encode_chunks bs ?sk"
  have D': "D = pre @ encode_chunks bs ?cs @ (encode_chunks bs (bb_chunk E bs b # ?sk @ bb_chunk E bs c # rest) @ ys)"
    "D = p2 @ encode_chunk bs (bb_chunk E bs b) @ (encode_chunks bs (?sk @ bb_chunk E bs c # rest) @ ys)"
    "D = p3 @ encode_chunks bs ?sk @ (encode_chunks bs (bb_chunk E bs c # rest) @ ys)"
    "D = p4 @ encode_chunk bs (bb_chunk E bs c) @ (encode_chunks bs rest @ ys)"
    using D(1) by (simp_all add: cs p2_def p3_def p4_def)
  obtain s1 rd1 where s1: "\<And>k. read_chunks fd 12 (length ?cs + k) s0 0 None rd = read_chunks fd 12 k s1 (bb_block b) None rd1"
    "import_inv bs (bb_block b) s1 rd1" "sf_blocks s1 = reimport E bs fd (mem_next (rd_mem rd)) (int (length pre)) 0 (us @ [a])"
    "reading (rd_in rd1) (length p2) D"
    using read_blocks [OF D'(1) D(2,3) i(1) so(1) fm _ _ _ s0(1), of fd] s0(2) ok lt [OF mem(1)] ea fn(2) xs by (auto simp: p2_def)
  have ne: "sf_blocks s1 \<noteq> []" and "\<exists>n q. last (sf_blocks s1) = reimport_bb bs fd n q a"
    using last_reimport [of E bs fd "mem_next (rd_mem rd)" "int (length pre)" 0 us a] s1(3) by auto
  then have "mergeable bs (last (sf_blocks s1)) (reimport_bb bs fd (mem_next (rd_mem rd1)) (int (length p2)) b)" using fn(1) by auto
  from read_bb_merged [OF D'(2) s1(4) D(3) i(1) ok(1,2) [OF mem(2)] s1(2) ne this]
  obtain s2 rd2 where s2: "\<And>k. read_chunks fd 12 (Suc k) s1 (bb_block b) None rd1 = read_chunks fd 12 k s2 (bb_last bs b) None rd2"
    "dangling bs (bb_last bs b) s2 rd2" "reading (rd_in rd2) (length p3) D" by (auto simp: p3_def)
  have "0 \<le> bb_last bs b" using bb_last_gt [OF i(1) ok(1) [OF mem(2)]] ok(3) [OF mem(2)] by linarith
  moreover have "bb_block c < 2147483648" using lt [OF mem(3)] bb_last_gt [OF i(1) ok(1) [OF mem(3)]] by linarith
  ultimately obtain f where f: "\<And>k. read_chunks fd 12 (length ?sk + k) s2 (bb_last bs b) None rd2
      = read_chunks fd 12 k s2 (bb_block c) None (rd2\<lparr>rd_in := f\<rparr>)" "reading f (length p4) D"
    using read_skip_to [OF s2(3) D'(3) D(3) _ so(2), of fd s2] by (auto simp: p4_def)
  have "dangling bs (bb_block c) s2 (rd2\<lparr>rd_in := f\<rparr>)" using s2(2) so(2) by (auto simp: dangling_def)
  then have "read_chunks fd 12 (Suc k) s2 (bb_block c) None (rd2\<lparr>rd_in := f\<rparr>) = Inl Use_after_free" for k
    using read_bb_dangling [OF D'(4) _ D(3) i(1) ok(1,2) [OF mem(3)], of "rd2\<lparr>rd_in := f\<rparr>"] f(2) by simp
  moreover have "length (image_chunks E s) + k = length ?cs + Suc (length ?sk + Suc (length rest + k))" by (simp add: cs)
  ultimately show ?thesis using s1(1) s2(1) f(1) by metis
qed

section \<open>Reading back an image\<close>

lemma reimport_raw:
  assumes D: "D = xs @ encode_chunk bs (bb_chunk E bs b) @ ys" "int (length D) < 9223372036854775808" "env_fd E' fd = Inr D"
    and b: "0 < bs" "bb_ok bs b" "bb_writable E bs b" and raw: "\<And>v. bb_payload b \<noteq> BB_Fill v"
  shows "bb_chunk E' bs (reimport_bb bs fd a (int (length xs)) b) = bb_chunk E bs b
    \<and> bb_writable E' bs (reimport_bb bs fd a (int (length xs)) b)"
proof -
  let ?n = "ceil_div (bb_len b) bs * bs"
  obtain d where d: "payload_bytes E (bb_payload b) (bb_len b) = Some d"
    using b(3) by (auto simp: bb_writable_def)
  let ?d = "pad_block bs d"
  have c: "bb_chunk E bs b = C_raw ?d" using raw d by (auto simp: bb_chunk_def split: bb_payload.split)
  have len: "int (length ?d) = ?n"
    using payload_bytes_length [OF d] bb_okD [OF b(2)] b(1) by (simp add: length_pad_block)
  let ?h = "chunk_header_bytes \<lparr>chunk_type = CHUNK_TYPE_RAW, reserved1 = 0, chunk_sz = int (length ?d) div bs,
      total_sz = CHUNK_HEADER_LEN + int (length ?d)\<rparr>"
  have Dh: "D = (xs @ ?h) @ ?d @ ys" using D(1) c by simp
  have "bslice (length xs + 12) (length ?d) D = ?d"
    unfolding Dh by (rule bslice_mid) simp_all
  moreover have "int (length xs) + 12 + ?n \<le> int (length D)" unfolding Dh by (simp add: len [symmetric])
  moreover have "nat ?n = length ?d" using len by simp
  moreover have "nat (int (length xs) + 12) = length xs + 12" by simp
  ultimately have fd: "fd_bytes E' fd (int (length xs) + 12) ?n = Some ?d"
    using D(2,3) by (simp add: fd_bytes_def)
  have pl: "bb_payload (reimport_bb bs fd a (int (length xs)) b) = BB_Fd fd (int (length xs) + 12)"
    "bb_len (reimport_bb bs fd a (int (length xs)) b) = ?n"
    using raw by (auto simp: reimport_bb_def split: bb_payload.split)
  have "pad_block bs ?d = ?d" using len b(1) by (intro pad_block_dvd) simp_all
  moreover have "?n + 4096 \<le> max_chunk" using b(3) by (simp add: bb_writable_def)
  ultimately show ?thesis
    using fd b(1) by (simp add: bb_chunk_def [of E'] bb_writable_def pl c)
qed

lemma reimport_bb_chunk:
  assumes D: "D = xs @ encode_chunk bs (bb_chunk E bs b) @ ys" "int (length D) < 9223372036854775808" "env_fd E' fd = Inr D"
    and b: "0 < bs" "bb_ok bs b" "bb_writable E bs b"
  shows "bb_chunk E' bs (reimport_bb bs fd a (int (length xs)) b) = bb_chunk E bs b"
    "bb_writable E' bs (reimport_bb bs fd a (int (length xs)) b)"
proof -
  let ?r = "reimport_bb bs fd a (int (length xs)) b" and ?n = "ceil_div (bb_len b) bs"
  have "bb_chunk E' bs ?r = bb_chunk E bs b \<and> bb_writable E' bs ?r"
  proof (cases "bb_payload b")
    case (BB_Fill v)
    then have "bs dvd bb_len b" "0 \<le> v" "v < 4294967296" using b(3) by (simp_all add: bb_writable_def)
    then show ?thesis
      using BB_Fill b ceil_div_dvd [OF b(1), of "bb_len b"] by (auto simp: reimport_bb_def bb_chunk_def bb_writable_def)
  next
    case (BB_File f off)
    then show ?thesis using reimport_raw [OF D b] by simp
  next
    case (BB_Data d)
    then show ?thesis using reimport_raw [OF D b] by simp
  next
    case (BB_Fd k off)
    then show ?thesis using reimport_raw [OF D b] by simp
  qed
  then show "bb_chunk E' bs ?r = bb_chunk E bs b" "bb_writable E' bs ?r" by simp_all
qed

lemma reimport_chunks:
  assumes "D = pre @ encode_chunks bs (blocks_chunks E bs last_block xs) @ ys" "int (length D) < 9223372036854775808"
    "env_fd E' fd = Inr D" "0 < bs" "\<forall>b \<in> set xs. bb_ok bs b \<and> bb_writable E bs b"
  shows "blocks_chunks E' bs last_block (reimport E bs fd a (int (length pre)) last_block xs) = blocks_chunks E bs last_block xs"
    "blocks_end bs last_block (reimport E bs fd a (int (length pre)) last_block xs) = blocks_end bs last_block xs"
    "\<forall>b \<in> set (reimport E bs fd a (int (length pre)) last_block xs). bb_writable E' bs b"
proof -
  let ?P = "\<lambda>xs pre last_block a. blocks_chunks E' bs last_block (reimport E bs fd a (int (length pre)) last_block xs) = blocks_chunks E bs last_block xs
    \<and> blocks_end bs last_block (reimport E bs fd a (int (length pre)) last_block xs) = blocks_end bs last_block xs
    \<and> (\<forall>b \<in> set (reimport E bs fd a (int (length pre)) last_block xs). bb_writable E' bs b)"
  have "?P xs pre last_block a"
    using assms(1,5)
  proof (induction xs arbitrary: pre last_block a)
    case (Cons b xs)
    let ?p1 = "pre @ encode_chunks bs (skip_to last_block (bb_block b))"
    let ?p2 = "?p1 @ encode_chunk bs (bb_chunk E bs b)"
    have b: "bb_ok bs b" "bb_writable E bs b" using Cons.prems by auto
    have D: "D = ?p1 @ encode_chunk bs (bb_chunk E bs b) @ (encode_chunks bs (blocks_chunks E bs (bb_last bs b) xs) @ ys)"
      "D = ?p2 @ encode_chunks bs (blocks_chunks E bs (bb_last bs b) xs) @ ys"
      using Cons.prems(1) by simp_all
    have "?P xs ?p2 (bb_last bs b) (Suc a)" using Cons.prems by (intro Cons.IH [OF D(2)]) auto
    moreover note reimport_bb_chunk [OF D(1) assms(2,3,4) b, of a]
    moreover have "bb_block (reimport_bb bs fd a q b) = bb_block b" for q by (simp add: reimport_bb_def)
    ultimately show ?case
      by (simp add: Let_def reimport_bb_last [OF assms(4)] add.assoc)
  qed simp
  then show "blocks_chunks E' bs last_block (reimport E bs fd a (int (length pre)) last_block xs) = blocks_chunks E bs last_block xs"
    "blocks_end bs last_block (reimport E bs fd a (int (length pre)) last_block xs) = blocks_end bs last_block xs"
    "\<forall>b \<in> set (reimport E bs fd a (int (length pre)) last_block xs). bb_writable E' bs b"
    by blast+
qed

lemma sparse_bytes_length:
  assumes "image_ok E s"
  shows "int (length (sparse_bytes E s c)) < 4611686052787126400"
  using image_bounds(3) [OF assms] by (simp add: sparse_bytes_def crc_chunk_bytes_def split: option.split)

lemma image_header_parse:
  assumes "image_ok E s" "h = image_header (sf_block_size s) (sf_len s) (int (length (image_chunks E s))) c"
  shows "parse_sparse_header (sparse_header_bytes h) = h" "header_ok h" "blk_sz h = sf_block_size s"
    "total_blks h = sf_len s div sf_block_size s" "chunk_hdr_sz h = 12" "file_hdr_sz h = 28"
    "nat (total_chunks h) = length (image_chunks E s) + (if c then 1 else 0)"
    "i64 (sf_len s div sf_block_size s * sf_block_size s) = sf_len s"
proof -
  note im = image_okD [OF assms(1) refl] and e = image_end [OF assms(1) refl]
  have l: "0 \<le> sf_len s" using image_bytes_length [OF assms(1)] by linarith
  then have c: "c_div (sf_len s) (sf_block_size s) = sf_len s div sf_block_size s" using im(1) by (simp add: c_div_nonneg)
  show "header_ok h" "blk_sz h = sf_block_size s" "total_blks h = sf_len s div sf_block_size s" "chunk_hdr_sz h = 12"
    "file_hdr_sz h = 28" "nat (total_chunks h) = length (image_chunks E s) + (if c then 1 else 0)"
    using c by (simp_all add: assms(2) header_ok_def image_header_def format_defs nat_add_distrib)
  show "i64 (sf_len s div sf_block_size s * sf_block_size s) = sf_len s" using l im(4,10) by (simp add: i64_id)
  have "0 \<le> sf_len s div sf_block_size s" using e by linarith
  then show "parse_sparse_header (sparse_header_bytes h) = h"
    using im(1,3,5) c image_bounds(1) [OF assms(1)]
    by (simp add: assms(2) parse_sparse_header_bytes image_header_def format_defs u16_def u32_id)
qed

text \<open>Importing comes down to reading the chunks into an empty sparse file.\<close>

lemma import_reduce:
  assumes im: "image_ok E s" "bs = sf_block_size s" and m: "mem_ok (rd_mem rd)"
    and D: "D = sparse_header_bytes (image_header bs (sf_len s) (int (length (image_chunks E s))) c) @ rest"
      "reading (rd_in rd) 0 D"
  obtains s0 rd2 where "import_inv bs 0 s0 rd2" "sf_blocks s0 = []" "sf_len s0 = sf_len s" "reading (rd_in rd2) 28 D"
    "sparse_file_import fd verbose crc rd =
       rbind (read_chunks fd 12 (length (image_chunks E s) + (if c then 1 else 0)) s0 0 (if crc then Some 0 else None) rd2)
         (\<lambda>(ret, cur, s1, rd1). Inr (if ret < 0 \<or> sf_len s div bs \<noteq> cur then None else Some s1, rd1))"
proof -
  define h where "h = image_header bs (sf_len s) (int (length (image_chunks E s))) c"
  note hp = image_header_parse [OF im(1), of h c, folded im(2), OF h_def]
  have "bslice 0 28 D = sparse_header_bytes h" "28 \<le> length D" using D(1) by (simp_all add: bslice_def h_def)
  then have rh: "\<exists>f'. read_all f 28 = (0, sparse_header_bytes h, f') \<and> reading f' 28 D" if "reading f 0 D" for f
    using read_all_ok [OF that, of 28] by simp
  obtain f1 where f1: "read_all (rd_in rd) 28 = (0, sparse_header_bytes h, f1)" "reading f1 28 D"
    using rh [OF D(2)] by blast
  have "reading (snd (lseek_set f1 0)) 0 D" "fst (lseek_set f1 0) = 0"
    using f1(2) by (simp_all add: lseek_set_def lseek_to_def reading_def)
  then obtain f2 where f2: "lseek_set f1 0 = (0, f2)" "reading f2 0 D" by (metis prod.collapse)
  obtain f3 where f3: "read_all f2 28 = (0, sparse_header_bytes h, f3)" "reading f3 28 D"
    using rh [OF f2(2)] by blast
  define s0 where "s0 = \<lparr>sf_block_size = bs, sf_len = sf_len s, sf_verbose = verbose,
    backed_block_list = \<lparr>data_blocks = [], last_used = None, bbl_block_size = bs\<rparr>\<rparr>"
  define m2 where "m2 = (rd_mem rd)\<lparr>mem_next := mem_next (rd_mem rd) + 2\<rparr>"
  define rd2 where "rd2 = (if rd_copybuf rd then rd\<lparr>rd_mem := m2, rd_in := f3\<rparr>
     else rd\<lparr>rd_mem := m2\<lparr>mem_next := mem_next (rd_mem rd) + 3\<rparr>, rd_copybuf := True, rd_in := f3\<rparr>)"
  have "malloc m2 = (Some (mem_next m2), m2\<lparr>mem_next := mem_next (rd_mem rd) + 3\<rparr>)"
    using m malloc_ok [of m2] by (simp add: m2_def)
  then have read: "sparse_file_read s0 fd True crc (rd\<lparr>rd_in := f2, rd_mem := m2\<rparr>) =
      rbind (read_chunks fd 12 (length (image_chunks E s) + (if c then 1 else 0)) s0 0 (if crc then Some 0 else None) rd2)
        (\<lambda>(ret, cur, s1, rd1). Inr (if ret < 0 then ret else if sf_len s div bs \<noteq> cur then - EINVAL else 0, s1, rd1))"
    using f3(1) by (cases "rd_copybuf rd")
      (simp_all add: sparse_file_read_def sparse_file_read_sparse_def rd2_def SPARSE_HEADER_LEN_def Let_def hp
        cong: if_cong)
  have new: "sparse_file_new (rd_mem rd) bs (sf_len s) = (Inr (Some (s0\<lparr>sf_verbose := False\<rparr>)), m2)"
    using malloc_ok [OF m] malloc_ok [of "(rd_mem rd)\<lparr>mem_next := Suc (mem_next (rd_mem rd))\<rparr>"] m
    by (simp add: sparse_file_new_def backed_block_list_new_def m2_def s0_def)
  have "s0\<lparr>sf_verbose := verbose\<rparr> = s0" by (simp add: s0_def)
  then have "sparse_file_import fd verbose crc rd =
      rbind (sparse_file_read s0 fd True crc (rd\<lparr>rd_in := f2, rd_mem := m2\<rparr>))
        (\<lambda>(ret, s1, rd1). Inr (if ret < 0 then None else Some s1, rd1))"
    using f1(1) f2(1) hp new by (simp add: sparse_file_import_def Let_def i32_id)
  moreover have "rbind (rbind r (\<lambda>(ret, cur, s1, rd1). Inr (if ret < 0 then ret else if k \<noteq> cur then - EINVAL else 0, s1, rd1)))
        (\<lambda>(ret, s1, rd1). Inr (if ret < 0 then None else Some s1, rd1))
      = rbind r (\<lambda>(ret, cur, s1, rd1). Inr (if ret < 0 \<or> k \<noteq> cur then None else Some s1, rd1))"
    for r :: "(int \<times> int \<times> sparse_file \<times> reader) res" and k
    by (cases r) (auto split: prod.split)
  moreover have "import_inv bs 0 s0 rd2"
    using m by (simp add: import_inv_def s0_def rd2_def m2_def bbl_wf_def bbl_sorted_def names_ok_def last_used_ok_def)
  ultimately show ?thesis
    using f3(2) read by (intro that [of s0 rd2]) (simp_all add: s0_def rd2_def)
qed

text \<open>Reading the chunks of an image into an empty sparse file; \<open>k\<close> more chunks may follow.\<close>

lemma read_image:
  assumes im: "image_ok E s" "fills_merged bs (sf_blocks s)" "bs = sf_block_size s"
    and D: "D = pre @ encode_chunks bs (image_chunks E s) @ ys" "reading (rd_in rd) (length pre) D"
      "int (length D) < 9223372036854775808" "env_fd E' fd = Inr D"
    and s0: "import_inv bs 0 s0 rd" "sf_blocks s0 = []" "sf_len s0 = sf_len s"
  shows "\<exists>s' rd'. (\<forall>k. read_chunks fd 12 (length (image_chunks E s) + k) s0 0 None rd = read_chunks fd 12 k s' (sf_len s div bs) None rd')
    \<and> reading (rd_in rd') (length (pre @ encode_chunks bs (image_chunks E s))) D
    \<and> image_ok E' s' \<and> image_chunks E' s' = image_chunks E s \<and> sf_block_size s' = bs \<and> sf_len s' = sf_len s"
proof -
  let ?xs = "sf_blocks s" and ?cs = "blocks_chunks E bs 0 (sf_blocks s)" and ?e = "blocks_end bs 0 (sf_blocks s)"
  let ?sk = "skip_to ?e (sf_len s div bs)"
  let ?p2 = "pre @ encode_chunks bs ?cs" and ?ri = "reimport E bs fd (mem_next (rd_mem rd)) (int (length pre)) 0 ?xs"
  note i = image_okD [OF im(1) im(3) [symmetric]] and e = image_end [OF im(1) im(3) [symmetric]]
  have cs: "image_chunks E s = ?cs @ ?sk" using im(3) by (simp add: image_chunks_def)
  have D': "D = pre @ encode_chunks bs ?cs @ (encode_chunks bs ?sk @ ys)" "D = ?p2 @ encode_chunks bs ?sk @ ys"
    using D(1) cs by simp_all
  obtain s1 rd1 where s1: "\<And>k. read_chunks fd 12 (length ?cs + k) s0 0 None rd = read_chunks fd 12 k s1 ?e None rd1"
    "import_inv bs ?e s1 rd1" "sf_blocks s1 = ?ri" "sf_len s1 = sf_len s" "reading (rd_in rd1) (length ?p2) D"
    using read_blocks [OF D'(1) D(2,3) i(1,7) im(2) _ _ _ s0(1), of fd] i(5,8) e s0 by auto
  obtain f where f: "\<And>k. read_chunks fd 12 (length ?sk + k) s1 ?e None rd1
      = read_chunks fd 12 k s1 (sf_len s div bs) None (rd1\<lparr>rd_in := f\<rparr>)" "reading f (length (?p2 @ encode_chunks bs ?sk)) D"
    using read_skip_to [OF s1(5) D'(2) D(3) e i(5)] by blast
  have "read_chunks fd 12 (length (image_chunks E s) + k) s0 0 None rd
      = read_chunks fd 12 k s1 (sf_len s div bs) None (rd1\<lparr>rd_in := f\<rparr>)" for k
    using s1(1) [of "length ?sk + k"] f(1) cs by (simp add: add.assoc)
  moreover note rc = reimport_chunks [OF D'(1) D(3,4) i(1), of "mem_next (rd_mem rd)"]
  have bsz: "sf_block_size s1 = bs" "bbl_wf bs (sf_blocks s1)" using s1(2) by (simp_all add: import_inv_def)
  have "image_chunks E' s1 = image_chunks E s"
    using rc i(8) s1(3,4) bsz cs by (simp add: image_chunks_def)
  moreover have "image_ok E' s1"
    using rc i s1(3,4) bsz im(1,3) by (simp add: image_ok_def)
  moreover have "reading (rd_in (rd1\<lparr>rd_in := f\<rparr>)) (length (pre @ encode_chunks bs (image_chunks E s))) D"
    using f(2) cs by (simp add: add.assoc)
  ultimately show ?thesis using bsz s1(4) by blast
qed

lemma import_written:
  assumes "image_ok E s" "fills_merged (sf_block_size s) (sf_blocks s)" "mem_ok (rd_mem rd)"
    "reading (rd_in rd) 0 (sparse_bytes E s None)" "env_fd E' fd = Inr (sparse_bytes E s None)"
  shows "\<exists>s' rd'. sparse_file_import fd verbose False rd = Inr (Some s', rd')
    \<and> image_ok E' s' \<and> image_chunks E' s' = image_chunks E s \<and> sf_block_size s' = sf_block_size s \<and> sf_len s' = sf_len s"
proof -
  let ?D = "sparse_bytes E s None" and ?bs = "sf_block_size s"
  let ?h = "sparse_header_bytes (image_header ?bs (sf_len s) (int (length (image_chunks E s))) False)"
  have D: "?D = ?h @ encode_chunks ?bs (image_chunks E s) @ []" by (simp add: sparse_bytes_def)
  have len: "int (length ?D) < 9223372036854775808" using sparse_bytes_length [OF assms(1), of None] by simp
  obtain s0 rd2 where s0: "import_inv ?bs 0 s0 rd2" "sf_blocks s0 = []" "sf_len s0 = sf_len s" "reading (rd_in rd2) 28 ?D"
    "sparse_file_import fd verbose False rd = rbind (read_chunks fd 12 (length (image_chunks E s)) s0 0 None rd2)
       (\<lambda>(ret, cur, s1, rd1). Inr (if ret < 0 \<or> sf_len s div ?bs \<noteq> cur then None else Some s1, rd1))"
    using import_reduce [OF assms(1) refl assms(3) D assms(4), of fd verbose False] by auto
  have "reading (rd_in rd2) (length ?h) ?D" using s0(4) by simp
  then obtain s' rd' where r: "\<And>k. read_chunks fd 12 (length (image_chunks E s) + k) s0 0 None rd2
      = read_chunks fd 12 k s' (sf_len s div ?bs) None rd'" "image_ok E' s'" "image_chunks E' s' = image_chunks E s"
    "sf_block_size s' = ?bs" "sf_len s' = sf_len s"
    using read_image [OF assms(1,2) refl D _ len assms(5) s0(1-3)] by blast
  with s0(5) r(1) [of 0] show ?thesis by (simp add: read_chunks.simps(1))
qed

lemma import_unmerged:
  assumes "image_ok E s" "\<not> fills_merged (sf_block_size s) (butlast (sf_blocks s))" "mem_ok (rd_mem rd)"
    "reading (rd_in rd) 0 (sparse_bytes E s None)"
  shows "sparse_file_import fd verbose False rd = Inl Use_after_free"
proof -
  let ?D = "sparse_bytes E s None" and ?bs = "sf_block_size s"
  let ?h = "sparse_header_bytes (image_header ?bs (sf_len s) (int (length (image_chunks E s))) False)"
  have D: "?D = ?h @ encode_chunks ?bs (image_chunks E s) @ []" by (simp add: sparse_bytes_def)
  have len: "int (length ?D) < 9223372036854775808" using sparse_bytes_length [OF assms(1), of None] by simp
  obtain s0 rd2 where s0: "import_inv ?bs 0 s0 rd2" "sf_blocks s0 = []" "sf_len s0 = sf_len s" "reading (rd_in rd2) 28 ?D"
    "sparse_file_import fd verbose False rd = rbind (read_chunks fd 12 (length (image_chunks E s)) s0 0 None rd2)
       (\<lambda>(ret, cur, s1, rd1). Inr (if ret < 0 \<or> sf_len s div ?bs \<noteq> cur then None else Some s1, rd1))"
    using import_reduce [OF assms(1) refl assms(3) D assms(4), of fd verbose False] by auto
  have "reading (rd_in rd2) (length ?h) ?D" using s0(4) by simp
  from read_unmerged [OF assms(1,2) refl D this len s0(1,2), of fd 0] show ?thesis using s0(5) by simp
qed


text \<open>
  C39: importing, without asking for the checksum to be verified, a file that was written with one
  dereferences a null pointer, for every image without neighbouring fills that could be one (those the
  import could read back without the checksum).
\<close>

theorem import_crc_null:
  assumes "image_ok E s" "fills_merged (sf_block_size s) (sf_blocks s)" "mem_ok (rd_mem rd)"
    "reading (rd_in rd) 0 (sparse_bytes E s (Some c))"
  shows "sparse_file_import fd verbose False rd = Inl Null_deref"
proof -
  let ?D = "sparse_bytes E s (Some c)" and ?bs = "sf_block_size s"
  let ?h = "sparse_header_bytes (image_header ?bs (sf_len s) (int (length (image_chunks E s))) True)"
  let ?ch = "\<lparr>chunk_type = CHUNK_TYPE_CRC32, reserved1 = 0, chunk_sz = 0, total_sz = CHUNK_HEADER_LEN + 4\<rparr>"
  define pre where "pre = ?h @ encode_chunks ?bs (image_chunks E s)"
  have D: "?D = ?h @ encode_chunks ?bs (image_chunks E s) @ crc_chunk_bytes c" by (simp add: sparse_bytes_def)
  then have Dh: "?D = pre @ chunk_header_bytes ?ch @ le_bytes 4 (uint c)" by (simp add: crc_chunk_bytes_def pre_def)
  have len: "int (length ?D) < 4611686052787126400" by (rule sparse_bytes_length) fact
  obtain s0 rd2 where s0: "import_inv ?bs 0 s0 rd2" "sf_blocks s0 = []" "sf_len s0 = sf_len s" "reading (rd_in rd2) 28 ?D"
    "sparse_file_import fd verbose False rd = rbind (read_chunks fd 12 (length (image_chunks E s) + 1) s0 0 None rd2)
       (\<lambda>(ret, cur, s1, rd1). Inr (if ret < 0 \<or> sf_len s div ?bs \<noteq> cur then None else Some s1, rd1))"
    using import_reduce [OF assms(1) refl assms(3) D assms(4), of fd verbose False] by auto
  have "reading (rd_in rd2) (length ?h) ?D" using s0(4) by simp
  then obtain s' rd' where r: "\<And>k. read_chunks fd 12 (length (image_chunks E s) + k) s0 0 None rd2
      = read_chunks fd 12 k s' (sf_len s div ?bs) None rd'" "reading (rd_in rd') (length pre) ?D"
    using read_image [OF assms(1,2) refl D _ _ _ s0(1-3), of "E\<lparr>env_fd := \<lambda>_. Inr ?D\<rparr>" fd] len
    by (auto simp: pre_def)
  have "int (length pre) + 12 < 9223372036854775808" using len unfolding Dh by simp
  then obtain f where "\<And>k. read_chunks fd 12 (Suc k) s' (sf_len s div ?bs) None rd' =
       rbind (process_chunk s' fd (int (length pre) + 12) 12 (parse_chunk_header (chunk_header_bytes ?ch)) (sf_len s div ?bs) None (rd'\<lparr>rd_in := f\<rparr>))
         (\<lambda>(ret, s1, crc1, rd1). if ret < 0 then Inr (ret, sf_len s div ?bs, s1, rd1)
            else read_chunks fd 12 k s1 (u32 (sf_len s div ?bs + ret)) crc1 rd1)"
    using read_chunk_step [of rd' pre ?ch "le_bytes 4 (uint c)"] r(2) unfolding Dh by blast
  then have "read_chunks fd 12 (Suc 0) s' (sf_len s div ?bs) None rd' = Inl Null_deref"
    by (simp add: parse_chunk_header_bytes process_chunk_def format_defs u16_def)
  then show ?thesis using s0(5) r(1) [of 1] by simp
qed

text \<open>An example image: a data block, a gap and a fill.\<close>

definition ex_reader :: "byte list \<Rightarrow> reader" where
  "ex_reader d = \<lparr>rd_mem = ex_mem, rd_in = \<lparr>f_data = d, f_pos = 0, f_sched = [Rd_max 4, Rd_max 0]\<rparr>, rd_copybuf = False\<rparr>"

text \<open>Two equal fills, the second one in front of the first, and a data block behind them.\<close>

definition ex_unmerged :: "backed_block list \<Rightarrow> nat option \<Rightarrow> sparse_file" where
  "ex_unmerged xs u = \<lparr>sf_block_size = 4, sf_len = 16, sf_verbose = False,
     backed_block_list = \<lparr>data_blocks = xs, last_used = u, bbl_block_size = 4\<rparr>\<rparr>"

definition ex_blocks :: "backed_block list" where
  "ex_blocks = [\<lparr>bb_addr = 11, bb_block = 0, bb_len = 4, bb_payload = BB_Fill 7\<rparr>,
     \<lparr>bb_addr = 10, bb_block = 1, bb_len = 4, bb_payload = BB_Fill 7\<rparr>,
     \<lparr>bb_addr = 12, bb_block = 3, bb_len = 4, bb_payload = BB_Data [1, 2, 3, 4]\<rparr>]"

lemma ex_unmerged_built:
  "\<exists>m1 m2 m3 s1 s2. sparse_file_add_fill ex_mem (ex_unmerged [] None) 7 4 1 = (Inr (0, s1), m1)
    \<and> sparse_file_add_fill m1 s1 7 4 0 = (Inr (0, s2), m2)
    \<and> sparse_file_add_data m2 s2 [1, 2, 3, 4] 4 3 = (Inr (0, ex_unmerged ex_blocks (Some 12)), m3)"
  by (simp add: ex_unmerged_def ex_blocks_def sparse_file_add_fill_def sparse_file_add_data_def backed_block_add_fill_def
      backed_block_add_data_def with_bbl_def malloc_def ex_mem_def queue_bb_def queue_start_def queue_link_def merge_bb_def bb_type_def)

lemma ex_unmerged_ok: "image_ok ex_env (ex_unmerged ex_blocks u)"
  by (simp add: image_ok_def ex_unmerged_def ex_blocks_def block_size_ok_def bbl_wf_def bbl_sorted_def bb_ok_def bb_last_def names_ok_def
      ceil_div_def bb_writable_def max_chunk_def max_rw_count_def)


theorem import_crc_null_witness:
  "sparse_file_import 3 False False (ex_reader (sparse_bytes ex_env ex_sf (Some 5))) = Inl Null_deref"
proof -
  have "fills_merged (sf_block_size ex_sf) (sf_blocks ex_sf)" by (simp add: fills_merged_def ex_sf_def bb_type_def)
  moreover have "mem_ok (rd_mem (ex_reader d))" for d by (simp add: ex_reader_def ex_mem_def mem_ok_def)
  moreover have "reading (rd_in (ex_reader d)) 0 d" for d by (simp add: ex_reader_def reading_def)
  ultimately show ?thesis using import_crc_null [OF ex_image_ok, of "ex_reader (sparse_bytes ex_env ex_sf (Some 5))" 5 3 False] by blast
qed

lemma fill_bytes_add:
  assumes "4 dvd a"
  shows "fill_bytes (a + b) v = fill_bytes a v @ fill_bytes b v"
proof (rule nth_equalityI)
  fix i assume i: "i < length (fill_bytes (a + b) v)"
  show "fill_bytes (a + b) v ! i = (fill_bytes a v @ fill_bytes b v) ! i"
  proof (cases "i < a")
    case False
    have "i mod 4 = (i - a + a) mod 4" using False by simp
    also have "\<dots> = (i - a) mod 4" using assms by (metis mod_add_right_eq dvd_imp_mod_0 add_0_right)
    finally show ?thesis using i False by (simp add: nth_append fill_bytes_nth)
  qed (use i in \<open>simp add: nth_append fill_bytes_nth\<close>)
qed simp

lemma take_fill_bytes: "n \<le> m \<Longrightarrow> take n (fill_bytes m v) = fill_bytes n v"
  by (rule nth_equalityI) (auto simp: fill_bytes_nth)

lemma crc_buf_fill: "crc_buf (fill_bytes COPY_BUF_SIZE v) c n = sparse_crc32 c (fill_bytes n v)"
proof (induction n arbitrary: c rule: less_induct)
  case (less n)
  have z: "crc_buf (fill_bytes COPY_BUF_SIZE v) c 0 = c" for c by (simp add: crc_buf.simps)
  show ?case
  proof (cases "n \<le> COPY_BUF_SIZE")
    case True
    have "n = 0 \<Longrightarrow> fill_bytes n v = []" by (simp add: fill_bytes_def)
    with True z show ?thesis
      by (subst crc_buf.simps) (simp add: Let_def take_fill_bytes sparse_crc32_Nil)
  next
    case False
    have "4 dvd COPY_BUF_SIZE" by (simp add: COPY_BUF_SIZE_def)
    then have "fill_bytes n v = fill_bytes COPY_BUF_SIZE v @ fill_bytes (n - COPY_BUF_SIZE) v"
      using False fill_bytes_add [of COPY_BUF_SIZE "n - COPY_BUF_SIZE" v] by simp
    with False less [of "n - COPY_BUF_SIZE"] show ?thesis
      by (subst crc_buf.simps) (simp add: Let_def min_def sparse_crc32_append)
  qed
qed

text \<open>
  C38: the checksum a fill chunk adds differs between writer and reader: the writer adds one block of the
  fill, whatever the length of the chunk, the reader adds all its blocks.
\<close>

theorem fill_chunk_checksum:
  assumes "write_sparse_fill_chunk out len v = Inr (0, out')" "use_crc out" "4 dvd block_size out" "0 \<le> block_size out"
    and "process_fill_chunk s chunk_size blocks blk (Some c) rd = Inr (0, s', c', rd')"
      "read_all (rd_in rd) 4 = (0, le_bytes 4 v, f)" "0 \<le> v" "v < 4294967296"
  shows "crc32 out' = sparse_crc32 (crc32 out) (fill_bytes (nat (block_size out)) v)
    \<and> c' = Some (sparse_crc32 c (fill_bytes (nat (i64 (blocks * sf_block_size s))) v))"
proof -
  have w: "crc32 out' = sparse_crc32 (crc32 out) (fill_bytes (nat (block_size out)) v)"
    using sparse_fill_crc [OF assms(1,3,4)] assms(2) by (simp add: crc_state_def split: if_splits)
  have "le_val (le_bytes 4 v) = v" using assms(7,8) by (simp add: le_val_le_bytes del: le_bytes.simps)
  then have "c' = Some (sparse_crc32 c (fill_bytes (nat (i64 (blocks * sf_block_size s))) v))"
    using assms(5,6) by (auto simp: process_fill_chunk_def Let_def crc_buf_fill simp del: le_bytes.simps split: prod.splits if_splits)
  with w show ?thesis ..
qed

definition ex_out :: "outfile output_file" where
  "ex_out = \<lparr>cur_out_ptr = 0, chunk_cnt = 0, crc32 = 0, ops = file_ops, is_sparse = True, use_crc = True,
     block_size = 4, out_len = 8, fill_buf = [0, 0, 0, 0], sink = new_file\<rparr>"

definition ex_empty_sf :: sparse_file where
  "ex_empty_sf = \<lparr>sf_block_size = 4, sf_len = 8, sf_verbose = False,
     backed_block_list = \<lparr>data_blocks = [], last_used = None, bbl_block_size = 4\<rparr>\<rparr>"

theorem fill_chunk_checksum_witness:
  "\<exists>out' s' c' rd'. write_sparse_fill_chunk ex_out 8 7 = Inr (0, out')
    \<and> process_fill_chunk ex_empty_sf 4 2 0 (Some 0) (ex_reader [7, 0, 0, 0]) = Inr (0, s', Some c', rd')
    \<and> crc32 out' = sparse_crc32 0 (fill_bytes 4 7) \<and> c' = sparse_crc32 0 (fill_bytes 8 7)"
proof -
  let ?f = "\<lparr>f_data = [7, 0, 0, 0], f_pos = 4, f_sched = [Rd_max 0]\<rparr> :: infile"
  obtain out' where w: "write_sparse_fill_chunk ex_out 8 7 = Inr (0, out')"
    using file_end.write_sparse_fill_chunk_ok [of ex_out 4 2 7] by (auto simp: ex_out_def new_file_def max_chunk_def max_rw_count_def)
  have le7: "le_bytes 4 7 = [7, 0, 0, 0]" by (simp add: eval_nat_numeral)
  have r: "read_all (rd_in (ex_reader [7, 0, 0, 0])) 4 = (0, le_bytes 4 7, ?f)"
    by (subst read_all.simps) (simp add: ex_reader_def read_all.simps [of _ 0] posix_read_def read_deliver_def bslice_def
        max_rw_count_def Let_def le7)
  obtain s' c' rd' where p: "process_fill_chunk ex_empty_sf 4 2 0 (Some 0) (ex_reader [7, 0, 0, 0]) = Inr (0, s', c', rd')"
    using r by (simp add: process_fill_chunk_def reader_add_def ex_reader_def sparse_file_add_fill_def backed_block_add_fill_def
        with_bbl_def malloc_def ex_mem_def queue_bb_def ex_empty_sf_def i64_def Let_def del: le_bytes.simps)
  show ?thesis
    using fill_chunk_checksum [OF w _ _ _ p r] w p
    by (auto simp: ex_out_def ex_empty_sf_def i64_def)
qed

text \<open>One turn of the loop over a plain image, on a whole block.\<close>

lemma read_normal_step:
  assumes "reading f k d" "bs \<le> remain" "k + nat bs \<le> length d" "sf_block_size t = bs" "4 \<le> bs"
  shows "\<exists>f'. reading f' (k + nat bs) d \<and> read_normal_loop fd remain t off blk (rd\<lparr>rd_mem := m, rd_in := f\<rparr>)
      = (case reader_add (rd\<lparr>rd_mem := m, rd_in := f'\<rparr>)
           (\<lambda>m. if sparse_block bs (bslice k (nat bs) d) then sparse_file_add_fill m t (le_val (block_word (bslice k (nat bs) d) 0)) bs blk
                else sparse_file_add_fd m t fd off bs blk) of
         Inl e \<Rightarrow> Inl e
       | Inr (_, s1, rd1) \<Rightarrow> read_normal_loop fd (remain - bs) s1 (i64 (off + bs)) (u32 (blk + 1)) rd1)"
proof -
  obtain f' where "read_all f (nat bs) = (0, bslice k (nat bs) d, f')" "reading f' (k + nat bs) d"
    using read_all_ok [OF assms(1,3)] by blast
  with assms(2,4,5) show ?thesis
    by (subst read_normal_loop.simps) (auto simp: Let_def min_def)
qed

text \<open>
  C40: importing a plain image of at least three blocks, the first two of which are not constant, uses
  freed memory: the second block is merged into the first and freed, and the search for the place of
  the third starts from it.
\<close>

theorem read_normal_dangling:
  assumes s: "sf_block_size s = bs" "sf_len s = int (length d)" "sf_blocks s = []"
      "last_used (backed_block_list s) = None" "bbl_block_size (backed_block_list s) = bs"
    and bs: "block_size_ok bs" "3 * bs \<le> int (length d)" "int (length d) < 9223372036854775808"
    and d: "\<not> sparse_block bs (bslice 0 (nat bs) d)" "\<not> sparse_block bs (bslice (nat bs) (nat bs) d)"
    and rd: "reading (rd_in rd) 0 d" "mem_ok (rd_mem rd)"
  shows "sparse_file_read_normal s fd rd = Inl Use_after_free"
proof -
  let ?m = "rd_mem rd" and ?n = "int (length d)"
  have pos: "4 \<le> bs" "bs < 2147483648" using bs(1) by (auto simp: block_size_ok_def elim!: dvdE)
  define a where "a = mem_next ?m"
  let ?b0 = "\<lparr>bb_addr = a + 1, bb_block = 0, bb_len = bs, bb_payload = BB_Fd fd 0\<rparr>"
  define l0 where "l0 = backed_block_list s"
  define l1 where "l1 = l0\<lparr>data_blocks := [?b0]\<rparr>"
  define l2 where "l2 = l1\<lparr>data_blocks := [?b0\<lparr>bb_len := 2 * bs\<rparr>], last_used := Some (a + 2)\<rparr>"
  have one: "bs div bs = 1" "u32 1 = 1" "u32 (2 * bs) = 2 * bs" "u32 2 = 2" "i64 bs = bs" "0 < 2 * bs"
    using pos by (simp_all add: u32_id i64_id)
  have q1: "queue_bb l0 ?b0 = Inr (0, l1)" using s(3) by (simp add: queue_bb_def l0_def l1_def)
  have q2: "queue_bb l1 \<lparr>bb_addr = a + 2, bb_block = 1, bb_len = bs, bb_payload = BB_Fd fd bs\<rparr> = Inr (0, l2)"
    using s(4,5) pos one by (simp add: queue_bb_def l1_def l2_def l0_def queue_start_def queue_link_def merge_bb_def bb_type_def
        merge_compatible_def)
  have q3: "queue_bb l2 \<lparr>bb_addr = x, bb_block = 2, bb_len = bs, bb_payload = pl\<rparr> = Inl Use_after_free" for x pl
    by (simp add: queue_bb_def l2_def l1_def queue_start_def)
  note al = malloc_ok [of "?m\<lparr>mem_next := j\<rparr>" for j, unfolded mem_ok_next, OF rd(2), simplified]
  let ?s = "\<lambda>l. s\<lparr>backed_block_list := l\<rparr>" and ?rd = "\<lambda>j f. rd\<lparr>rd_mem := ?m\<lparr>mem_next := j\<rparr>, rd_in := f\<rparr>"
  have comm: "r\<lparr>rd_in := f, rd_mem := m\<rparr> = r\<lparr>rd_mem := m, rd_in := f\<rparr>" for r :: reader and f m by simp
  have add1: "sparse_file_add_fd (?m\<lparr>mem_next := a + 1\<rparr>) s fd 0 bs 0 = (Inr (0, ?s l1), ?m\<lparr>mem_next := a + 2\<rparr>)"
    using q1 al [of "a + 1"] by (simp add: sparse_file_add_fd_def backed_block_add_fd_def with_bbl_def l0_def)
  have add2: "sparse_file_add_fd (?m\<lparr>mem_next := a + 2\<rparr>) (?s l1) fd bs bs 1 = (Inr (0, ?s l2), ?m\<lparr>mem_next := a + 3\<rparr>)"
    using q2 al [of "a + 2"] by (simp add: sparse_file_add_fd_def backed_block_add_fd_def with_bbl_def)
  have add3: "fst (sparse_file_add_fd (?m\<lparr>mem_next := a + 3\<rparr>) (?s l2) fd off bs 2) = Inl Use_after_free"
      "fst (sparse_file_add_fill (?m\<lparr>mem_next := a + 3\<rparr>) (?s l2) v bs 2) = Inl Use_after_free" for off v
    using q3 al [of "a + 3"]
    by (simp_all add: sparse_file_add_fd_def sparse_file_add_fill_def backed_block_add_fd_def backed_block_add_fill_def with_bbl_def)
  have nb: "nat bs + nat bs + nat bs \<le> length d" using bs(2) pos by linarith
  obtain f1 where f1: "reading f1 (nat bs) d"
    "read_normal_loop fd ?n s 0 0 (?rd (a + 1) (rd_in rd)) = read_normal_loop fd (?n - bs) (?s l1) bs 1 (?rd (a + 2) f1)"
    using read_normal_step [OF rd(1) _ _ _ pos(1), where remain = ?n and t = s and fd = fd and off = 0 and blk = 0 and rd = rd
        and m = "?m\<lparr>mem_next := a + 1\<rparr>"] d(1) add1 s(1) bs(2) nb pos one by (auto simp: reader_add_def comm)
  obtain f2 where f2: "reading f2 (nat bs + nat bs) d"
    "read_normal_loop fd (?n - bs) (?s l1) bs 1 (?rd (a + 2) f1) = read_normal_loop fd (?n - bs - bs) (?s l2) (i64 (bs + bs)) 2 (?rd (a + 3) f2)"
    using read_normal_step [OF f1(1) _ _ _ pos(1), where remain = "?n - bs" and t = "?s l1" and fd = fd and off = bs and blk = 1 and rd = rd
        and m = "?m\<lparr>mem_next := a + 2\<rparr>"] d(2) add2 s(1) bs(2) nb pos one by (auto simp: reader_add_def comm)
  have ra: "reader_add r g = Inl e" if "fst (g (rd_mem r)) = Inl e" for r g e
    using that by (cases "g (rd_mem r)") (simp add: reader_add_def)
  have "reader_add (?rd (a + 3) f)
      (\<lambda>m. if c then sparse_file_add_fill m (?s l2) v bs 2 else sparse_file_add_fd m (?s l2) fd off bs 2) = Inl Use_after_free"
    for f c v off
    by (rule ra) (simp add: add3)
  then have "read_normal_loop fd (?n - bs - bs) (?s l2) (i64 (bs + bs)) 2 (?rd (a + 3) f2) = Inl Use_after_free"
    using read_normal_step [OF f2(1) _ _ _ pos(1), where remain = "?n - bs - bs" and t = "?s l2" and fd = fd and off = "i64 (bs + bs)" and blk = 2 and rd = rd
        and m = "?m\<lparr>mem_next := a + 3\<rparr>"] s(1) bs(2) nb by auto
  moreover have "?rd (a + 1) (rd_in rd) = rd\<lparr>rd_mem := ?m\<lparr>mem_next := Suc a\<rparr>\<rparr>" by simp
  ultimately show ?thesis
    using f1(2) f2(2) malloc_ok [OF rd(2)] s(2) by (simp add: sparse_file_read_normal_def a_def)
qed

definition ex_plain :: "byte list" where
  "ex_plain = [1, 0, 0, 0, 2, 0, 0, 0, 3, 0, 0, 0, 4, 0, 0, 0, 5, 0, 0, 0, 6, 0, 0, 0]"

theorem read_normal_dangling_witness:
  "sparse_file_read_normal \<lparr>sf_block_size = 8, sf_len = 24, sf_verbose = False,
     backed_block_list = \<lparr>data_blocks = [], last_used = None, bbl_block_size = 8\<rparr>\<rparr> 3 (ex_reader ex_plain)
   = Inl Use_after_free"
proof -
  have "\<not> sparse_block 8 (bslice 0 (nat 8) ex_plain)" "\<not> sparse_block 8 (bslice (nat 8) (nat 8) ex_plain)"
    by (simp_all add: sparse_block_def block_word_def bslice_def ex_plain_def eval_nat_numeral)
  moreover have "length ex_plain = 24" "reading (rd_in (ex_reader ex_plain)) 0 ex_plain" "mem_ok (rd_mem (ex_reader ex_plain))"
    by (simp_all add: ex_plain_def ex_reader_def reading_def mem_ok_def ex_mem_def)
  ultimately show ?thesis
    using read_normal_dangling [of "\<lparr>sf_block_size = 8, sf_len = 24, sf_verbose = False,
     backed_block_list = \<lparr>data_blocks = [], last_used = None, bbl_block_size = 8\<rparr>\<rparr>" 8 ex_plain "ex_reader ex_plain" 3]
    by (simp add: block_size_ok_def)
qed

end
