(* ===== verification/Sparse_Resparse.thy ===== *)
theory Sparse_Resparse
  imports Sparse_Write
begin

text \<open>
  \<open>sparse_file_resparse\<close> and \<open>move_chunks_up_to_len\<close> (\<open>libsparse/sparse.c\<close>): cutting an image into pieces
  of a bounded length. The scan is first freed of its counting output file (\<open>move_scan_eq\<close>), then one
  call of \<open>move_chunks_up_to_len\<close> is described as a cut of the block list (\<open>move_chunks_ok\<close>), one turn of
  the loop keeps \<open>loop_inv\<close> and moves at least one block (\<open>resparse_turn_ok\<close>), so the loop ends.
\<close>

section \<open>The scan\<close>

definition chunks_size :: "env \<Rightarrow> int \<Rightarrow> int \<Rightarrow> backed_block list \<Rightarrow> int" where
  "chunks_size E bs last_block xs = int (length (concat (map (encode_chunk bs) (blocks_chunks E bs last_block xs))))"

text \<open>The scan without its counter.\<close>

fun scan_ref :: "env \<Rightarrow> int \<Rightarrow> int \<Rightarrow> int \<Rightarrow> int \<Rightarrow> nat option \<Rightarrow> backed_block list \<Rightarrow> scan_end" where
  "scan_ref E bs len last_block file_len last_bb [] = Scan_all last_bb"
| "scan_ref E bs len last_block file_len last_bb (b # rest) =
     (let n = file_len + chunks_size E bs last_block [b]
      in if n > len then Scan_stop (bb_addr b) last_bb (len - (file_len + 12))
         else scan_ref E bs len (bb_last bs b) n (Some (bb_addr b)) rest)"

lemma chunks_size_Nil [simp]: "chunks_size E bs last_block [] = 0"
  by (simp add: chunks_size_def)

lemma chunks_size_Cons:
  "chunks_size E bs last_block (b # xs) = chunks_size E bs last_block [b] + chunks_size E bs (bb_last bs b) xs"
  by (simp add: chunks_size_def)

lemma chunks_size_single:
  "chunks_size E bs last_block [b] =
     (if last_block < bb_block b then 12 else 0) + int (length (encode_chunk bs (bb_chunk E bs b)))"
  by (simp add: chunks_size_def skip_to_def)

lemma encode_bb_bound:
  assumes "0 < bs" "bb_ok bs b" "bb_writable E bs b"
  shows "int (length (encode_chunk bs (bb_chunk E bs b))) < 2147483648"
proof -
  have "int (length (expand_chunk bs (bb_chunk E bs b))) + 4096 \<le> 2147479552"
    using expand_bb_chunk(1) [OF assms] assms(3) by (simp add: bb_writable_def max_chunk_def max_rw_count_def)
  with encode_chunk_bound [of bs "bb_chunk E bs b"] show ?thesis by linarith
qed

lemma move_scan_eq:
  assumes "ops out = callback_file_ops out_counter_write" "is_sparse out" "block_size out = bs" "0 < bs"
    "\<forall>b \<in> set xs. bb_ok bs b \<and> bb_writable E bs b" "0 \<le> file_len" "file_len \<le> len" "len < 4294967296" "4 dvd bs"
  shows "move_scan E bs len out last_block file_len last_bb xs = Inr (scan_ref E bs len last_block file_len last_bb xs)"
  using assms
proof (induction xs arbitrary: out last_block file_len last_bb)
  case (Cons b xs)
  have b: "bb_ok bs b" "bb_writable E bs b" using Cons.prems by auto
  let ?n = "int (length (encode_chunk bs (bb_chunk E bs b)))"
  note eb = encode_bb_bound [OF Cons.prems(4) b]
  define k where "k = (if backed_block_block b > last_block then CHUNK_HEADER_LEN else 0)"
  have k: "0 \<le> k" "k \<le> 12" "k + ?n = chunks_size E bs last_block [b]"
    by (simp_all add: k_def chunks_size_single backed_block_block_def CHUNK_HEADER_LEN_def)
  obtain out' where out': "sparse_file_write_block E (out\<lparr>sink := k\<rparr>) b = Inr (0, out')"
      "ops out' = callback_file_ops out_counter_write" "is_sparse out'" "out_cfg out' = out_cfg (out\<lparr>sink := k\<rparr>)" "sink out' = k + ?n"
  proof -
    let ?o = "out\<lparr>sink := k\<rparr>"
    have "\<exists>out'. sparse_file_write_block E ?o b = Inr (0, out')
      \<and> (ops out' = callback_file_ops out_counter_write \<and> 0 \<le> sink out' \<and> is_sparse out' \<and> 0 < block_size out' \<and> 4 dvd block_size out')
      \<and> out_cfg out' = out_cfg ?o
      \<and> (sink out', crc_state out') = (fst (sink ?o, crc_state ?o) + ?n,
          map_option (\<lambda>k. sparse_crc32 k (summed_bytes bs (bb_chunk E bs b))) (snd (sink ?o, crc_state ?o)))"
      by (rule counter.sparse.write_block_ok) (use Cons.prems(1-4,9) b eb k(1,2) in simp_all)
    then show ?thesis using that by auto
  qed
  have bs': "block_size out' = bs" using out'(4) Cons.prems(3) by (simp add: out_cfg_def)
  have i: "i64 (file_len + (k + ?n)) = file_len + (k + ?n)"
    using Cons.prems(6-8) eb k(1,2) by (simp add: i64_id)
  have "move_scan E bs len out' (bb_last bs b) (file_len + (k + ?n)) (Some (bb_addr b)) xs
      = Inr (scan_ref E bs len (bb_last bs b) (file_len + (k + ?n)) (Some (bb_addr b)) xs)"
    if "file_len + (k + ?n) \<le> len"
    using Cons.prems that bs' out'(2,3) k(1) by (intro Cons.IH) auto
  then show ?case
    using out'(1,5) i Cons.prems(4)
    unfolding move_scan.simps scan_ref.simps k_def [symmetric] k(3) [symmetric]
    by (simp add: Let_def block_end_eq [OF Cons.prems(4) b(1)] CHUNK_HEADER_LEN_def)
qed simp

lemma scan_ref_cases:
  assumes "file_len \<le> len"
  shows "(scan_ref E bs len last_block file_len last_bb xs = Scan_all (if xs = [] then last_bb else Some (bb_addr (last xs)))
      \<and> file_len + chunks_size E bs last_block xs \<le> len) \<or>
    (\<exists>ys b zs. xs = ys @ b # zs \<and> file_len + chunks_size E bs last_block ys \<le> len
      \<and> len < file_len + chunks_size E bs last_block (ys @ [b])
      \<and> scan_ref E bs len last_block file_len last_bb xs =
          Scan_stop (bb_addr b) (if ys = [] then last_bb else Some (bb_addr (last ys)))
            (len - (file_len + chunks_size E bs last_block ys + 12)))"
  using assms
proof (induction xs arbitrary: last_block file_len last_bb)
  case (Cons b xs)
  let ?n = "file_len + chunks_size E bs last_block [b]"
  show ?case
  proof (cases "?n > len")
    case True
    then show ?thesis using Cons.prems
      by (intro disjI2 exI [of _ "[]"] exI [of _ b] exI [of _ xs]) (simp add: Let_def)
  next
    case False
    then have step: "scan_ref E bs len last_block file_len last_bb (b # xs) = scan_ref E bs len (bb_last bs b) ?n (Some (bb_addr b)) xs"
      by (simp add: Let_def)
    have add: "chunks_size E bs last_block (b # ys) = chunks_size E bs last_block [b] + chunks_size E bs (bb_last bs b) ys" for ys
      by (rule chunks_size_Cons)
    from False have "?n \<le> len" by simp
    from Cons.IH [OF this, of "bb_last bs b" "Some (bb_addr b)"] show ?thesis
    proof
      assume "scan_ref E bs len (bb_last bs b) ?n (Some (bb_addr b)) xs = Scan_all (if xs = [] then Some (bb_addr b) else Some (bb_addr (last xs)))
        \<and> ?n + chunks_size E bs (bb_last bs b) xs \<le> len"
      then show ?thesis unfolding step add [of xs] by auto
    next
      assume "\<exists>ys c zs. xs = ys @ c # zs \<and> ?n + chunks_size E bs (bb_last bs b) ys \<le> len
        \<and> len < ?n + chunks_size E bs (bb_last bs b) (ys @ [c])
        \<and> scan_ref E bs len (bb_last bs b) ?n (Some (bb_addr b)) xs =
          Scan_stop (bb_addr c) (if ys = [] then Some (bb_addr b) else Some (bb_addr (last ys)))
            (len - (?n + chunks_size E bs (bb_last bs b) ys + 12))"
      then obtain ys c zs where *: "xs = ys @ c # zs" "?n + chunks_size E bs (bb_last bs b) ys \<le> len"
        "len < ?n + chunks_size E bs (bb_last bs b) (ys @ [c])"
        "scan_ref E bs len (bb_last bs b) ?n (Some (bb_addr b)) xs =
          Scan_stop (bb_addr c) (if ys = [] then Some (bb_addr b) else Some (bb_addr (last ys)))
            (len - (?n + chunks_size E bs (bb_last bs b) ys + 12))"
        by blast
      have "b # xs = (b # ys) @ c # zs" using *(1) by simp
      moreover have "file_len + chunks_size E bs last_block (b # ys) \<le> len" using *(2) add [of ys] by linarith
      moreover have "len < file_len + chunks_size E bs last_block ((b # ys) @ [c])" using *(3) add [of "ys @ [c]"] by simp
      moreover have "scan_ref E bs len last_block file_len last_bb (b # xs) =
          Scan_stop (bb_addr c) (if b # ys = [] then last_bb else Some (bb_addr (last (b # ys))))
            (len - (file_len + chunks_size E bs last_block (b # ys) + 12))"
        unfolding step *(4) add [of ys] by (cases "ys = []") simp_all
      ultimately show ?thesis by blast
    qed
  qed
qed simp

section \<open>One piece\<close>

lemma chunks_size_append:
  "chunks_size E bs l (xs @ ys) = chunks_size E bs l xs + chunks_size E bs (blocks_end bs l xs) ys"
  by (simp add: chunks_size_def blocks_chunks_append)

lemma chunks_size_nonneg: "0 \<le> chunks_size E bs l xs"
  by (simp add: chunks_size_def)

lemma payload_bytes_split:
  assumes "payload_bytes E p n = Some d" "0 \<le> k" "k \<le> n" "4 dvd k"
  shows "payload_bytes E p k \<noteq> None" "payload_bytes E (payload_shift k p) (n - k) \<noteq> None"
proof -
  have fd: "fd_bytes E fd off k \<noteq> None \<and> fd_bytes E fd (i64 (off + k)) (n - k) \<noteq> None"
    if "fd_bytes E fd off n = Some d" for fd off
    using that assms(2,3) by (auto simp: fd_bytes_def i64_id split: sum.splits if_splits)
  show "payload_bytes E p k \<noteq> None"
    using assms fd by (cases p) (fastforce split: option.splits sum.splits if_splits)+
  show "payload_bytes E (payload_shift k p) (n - k) \<noteq> None"
    using assms fd by (cases p) (fastforce simp: payload_shift_def split: option.splits sum.splits if_splits)+
qed

lemma split_writable:
  assumes bs: "block_size_ok bs" and b: "bb_ok bs b" "bb_writable E bs b" and k: "0 < k" "k * bs < bb_len b"
  shows "bb_writable E bs (split_first bs k b)" "bb_writable E bs (split_second bs k a b)"
    "int (length (encode_chunk bs (bb_chunk E bs (split_first bs k b)))) \<le> 12 + k * bs"
proof -
  have pos: "0 < bs" "4 dvd bs" using bs by (auto simp: block_size_ok_def)
  obtain d where d: "payload_bytes E (bb_payload b) (bb_len b) = Some d"
    using b(2) by (auto simp: bb_writable_def)
  have kb: "0 < k * bs" using k(1) pos(1) by simp
  have "4 dvd k * bs" using pos(2) by simp
  note ps = payload_bytes_split [OF d, of "k * bs"]
  have ceil: "ceil_div (k * bs) bs = k" "ceil_div (bb_len b - k * bs) bs = ceil_div (bb_len b) bs - k"
    using pos(1) ceil_div_diff [of bs "bb_len b" k] by simp_all
  have bound: "ceil_div (bb_len b) bs * bs + 4096 \<le> max_chunk" "bb_len b \<le> ceil_div (bb_len b) bs * bs"
    using b(2) ceil_div_bounds(1) [OF pos(1)] by (auto simp: bb_writable_def)
  have dv: "bs dvd bb_len b \<Longrightarrow> bs dvd bb_len b - k * bs" by simp
  show w: "bb_writable E bs (split_first bs k b)"
    using ps(1) kb k(2) \<open>4 dvd k * bs\<close> bound ceil b(2)
    by (auto simp: bb_writable_def split_first_def split: bb_payload.splits)
  have "(ceil_div (bb_len b) bs - k) * bs + 4096 \<le> max_chunk"
    using bound kb by (simp add: left_diff_distrib)
  then show "bb_writable E bs (split_second bs k a b)"
    using ps(2) kb k(2) \<open>4 dvd k * bs\<close> ceil b(2) dv
    by (auto simp: bb_writable_def split_second_def payload_shift_def split: bb_payload.splits)
  have ok: "bb_ok bs (split_first bs k b)"
    using split_pair_ok(1) [OF bs b(1) k] by (simp add: split_first_def)
  have "bs \<le> k * bs" using k(1) pos(1) by (simp add: mult_le_cancel_right1)
  moreover have "4 \<le> bs" using pos by (auto elim!: dvdE)
  ultimately have four: "4 \<le> k * bs" by linarith
  have "int (length (expand_chunk bs (bb_chunk E bs (split_first bs k b)))) = k * bs"
    using expand_bb_chunk(1) [OF pos(1) ok w] ceil by (simp add: split_first_def)
  with four show "int (length (encode_chunk bs (bb_chunk E bs (split_first bs k b)))) \<le> 12 + k * bs"
    by (cases "bb_chunk E bs (split_first bs k b)") (auto simp del: le_bytes.simps simp: bb_chunk_def split: bb_payload.splits)
qed

lemma encode_whole:
  assumes "block_size_ok bs" "bb_ok bs b" "bb_writable E bs b" "0 < k" "bb_len b \<le> k * bs"
  shows "int (length (encode_chunk bs (bb_chunk E bs b))) \<le> 12 + k * bs"
proof -
  have pos: "0 < bs" "4 \<le> bs" using assms(1) by (auto simp: block_size_ok_def elim!: dvdE)
  have "ceil_div (bb_len b) bs \<le> k" using assms(5) pos by (simp add: ceil_div_le_iff)
  then have "int (length (expand_chunk bs (bb_chunk E bs b))) \<le> k * bs"
    using expand_bb_chunk(1) [OF pos(1) assms(2,3)] pos(1) by simp
  moreover have "bs \<le> k * bs" using assms(4) pos(1) by (simp add: mult_le_cancel_right1)
  then have "4 \<le> k * bs" using pos(2) by linarith
  ultimately show ?thesis
    by (cases "bb_chunk E bs b") (auto simp del: le_bytes.simps simp: bb_chunk_def split: bb_payload.splits)
qed

text \<open>
  \<open>xs\<close> cut in two, at a boundary or inside a block, whose second half is allocated between \<open>m\<close> and \<open>m'\<close>.
\<close>

definition cut_of :: "int \<Rightarrow> mem \<Rightarrow> mem \<Rightarrow> backed_block list \<Rightarrow> backed_block list \<Rightarrow> backed_block list \<Rightarrow> bool" where
  "cut_of bs m m' xs seg rest \<longleftrightarrow> mem_next m \<le> mem_next m' \<and>
     (seg @ rest = xs \<or>
      (\<exists>ys b zs k a. xs = ys @ b # zs \<and> seg = ys @ [split_first bs k b] \<and> rest = split_second bs k a b # zs \<and>
         0 < k \<and> k * bs < bb_len b \<and> mem_next m \<le> a \<and> a < mem_next m'))"

lemma cut_of_id: "mem_next m \<le> mem_next m' \<Longrightarrow> cut_of bs m m' (seg @ rest) seg rest"
  by (simp add: cut_of_def)

lemma cut_of_split:
  assumes "0 < k" "k * bs < bb_len b" "mem_next m \<le> a" "a < mem_next m'"
  shows "cut_of bs m m' (ys @ b # zs) (ys @ [split_first bs k b]) (split_second bs k a b # zs)"
proof -
  have "mem_next m \<le> mem_next m'" using assms(3,4) by simp
  with assms show ?thesis unfolding cut_of_def
    by (intro conjI disjI2 exI [of _ ys] exI [of _ b] exI [of _ zs] exI [of _ k] exI [of _ a]) simp_all
qed

lemma cut_of_mono: "cut_of bs m1 m2 xs seg rest \<Longrightarrow> mem_next m \<le> mem_next m1 \<Longrightarrow> cut_of bs m m2 xs seg rest"
  unfolding cut_of_def by (elim conjE disjE exE) (auto intro: le_trans)

lemma mem_fresh_mono: "mem_fresh m xs \<Longrightarrow> mem_next m \<le> mem_next m' \<Longrightarrow> mem_fresh m' xs"
  by (auto simp: mem_fresh_def)

definition blocks_total :: "int \<Rightarrow> backed_block list \<Rightarrow> int" where
  "blocks_total bs xs = sum_list (map (\<lambda>b. ceil_div (bb_len b) bs) xs)"

text \<open>
  \<open>xs\<close> says the same as \<open>ys\<close>: nothing is lost, the invariant holds, every block can still be written.
\<close>

definition same_image :: "env \<Rightarrow> int \<Rightarrow> mem \<Rightarrow> backed_block list \<Rightarrow> backed_block list \<Rightarrow> bool" where
  "same_image E bs m ys xs \<longleftrightarrow>
     bbl_wf bs xs \<and> bbl_view bs xs = bbl_view bs ys \<and> mem_fresh m xs \<and>
     (\<forall>b \<in> set xs. bb_writable E bs b) \<and> blocks_end bs 0 xs = blocks_end bs 0 ys \<and>
     blocks_total bs xs = blocks_total bs ys"

lemma same_image_split:
  assumes bs: "block_size_ok bs" and same: "same_image E bs m orig (ys @ b # zs)"
    and k: "0 < k" "k * bs < bb_len b" and a: "mem_next m \<le> a" "a < mem_next m'"
  shows "same_image E bs m' orig (ys @ split_first bs k b # split_second bs k a b # zs)"
proof -
  have s: "bbl_wf bs (ys @ b # zs)" "bbl_view bs (ys @ b # zs) = bbl_view bs orig" "mem_fresh m (ys @ b # zs)"
    "\<forall>b \<in> set (ys @ b # zs). bb_writable E bs b" "blocks_end bs 0 (ys @ b # zs) = blocks_end bs 0 orig"
    "blocks_total bs (ys @ b # zs) = blocks_total bs orig"
    using same unfolding same_image_def by blast+
  have b: "bb_ok bs b" "bb_writable E bs b" using s(1,4) by (auto simp: bbl_wf_def)
  have "\<forall>c \<in> set (ys @ b # zs). bb_addr c < a" using s(3) a(1) unfolding mem_fresh_def by (meson order_less_le_trans)
  note sl = split_list_ok [OF bs s(1) k this]
  have pos: "0 < bs" using bs by (simp add: block_size_ok_def)
  have "blocks_total bs (ys @ split_first bs k b # split_second bs k a b # zs) = blocks_total bs (ys @ b # zs)"
    using pos ceil_div_diff [of bs "bb_len b" k] by (simp add: blocks_total_def split_first_def split_second_def)
  moreover have "mem_fresh m' (ys @ split_first bs k b # split_second bs k a b # zs)"
    using mem_fresh_mono [OF s(3), of m'] a by (auto simp: mem_fresh_def split_first_def split_second_def)
  moreover have "\<forall>c \<in> set (ys @ split_first bs k b # split_second bs k a b # zs). bb_writable E bs c"
    using split_writable [OF bs b k] s(4) by simp
  moreover have "blocks_end bs 0 (ys @ split_first bs k b # split_second bs k a b # zs) = blocks_end bs 0 (ys @ b # zs)"
    using sl(3) by (simp add: blocks_end_append)
  ultimately show ?thesis using sl(1,2) s(2,5,6) unfolding same_image_def by simp
qed

lemma cut_same_image:
  assumes bs: "block_size_ok bs" and same: "same_image E bs m orig (pre @ xs)" and cut: "cut_of bs m m' xs seg rest"
  shows "same_image E bs m' orig (pre @ seg @ rest)"
  using cut unfolding cut_of_def
proof (elim conjE disjE exE)
  assume "mem_next m \<le> mem_next m'" "seg @ rest = xs"
  with same show ?thesis using mem_fresh_mono [of m "pre @ xs" m'] by (simp add: same_image_def)
next
  fix ys b zs k a
  assume "xs = ys @ b # zs" "seg = ys @ [split_first bs k b]" "rest = split_second bs k a b # zs"
    "0 < k" "k * bs < bb_len b" "mem_next m \<le> a" "a < mem_next m'"
  then show ?thesis using same_image_split [OF bs, of E m orig "pre @ ys" b zs k a m'] same by simp
qed

lemma move_lists_seg:
  assumes "sf_blocks from = seg @ rest" "seg \<noteq> []" "distinct (map bb_addr (seg @ rest))" "sf_blocks to = []"
  shows "move_lists from to (Some (bb_addr (hd seg))) (Some (bb_addr (last seg))) bb =
    Inr (from\<lparr>backed_block_list := (backed_block_list from)\<lparr>last_used := None, data_blocks := rest\<rparr>\<rparr>,
         to\<lparr>backed_block_list := (backed_block_list to)\<lparr>last_used := None, data_blocks := seg\<rparr>\<rparr>, bb)"
  using backed_block_list_move_seg [of "backed_block_list from" "[]" seg rest "backed_block_list to" "[]" "[]"] assms
  by (simp add: move_lists_def)

text \<open>What an iteration needs and keeps of the file that is cut.\<close>

definition cut_inv :: "env \<Rightarrow> int \<Rightarrow> int \<Rightarrow> mem \<Rightarrow> sparse_file \<Rightarrow> bool" where
  "cut_inv E bs n m s \<longleftrightarrow>
     image_ok E s \<and> sf_block_size s = bs \<and> sf_len s = n \<and> bbl_block_size (backed_block_list s) = bs \<and>
     mem_ok m \<and> mem_fresh m (sf_blocks s)"

definition empty_sf :: "int \<Rightarrow> int \<Rightarrow> sparse_file" where
  "empty_sf bs n = \<lparr>sf_block_size = bs, sf_len = n, sf_verbose = False,
     backed_block_list = \<lparr>data_blocks = [], last_used = None, bbl_block_size = bs\<rparr>\<rparr>"

lemma sparse_file_new_ok:
  "mem_ok m \<Longrightarrow> sparse_file_new m bs n = (Inr (Some (empty_sf bs n)), m\<lparr>mem_next := mem_next m + 2\<rparr>)"
  using malloc_ok [of m] malloc_ok [of "m\<lparr>mem_next := Suc (mem_next m)\<rparr>"]
  by (simp add: sparse_file_new_def backed_block_list_new_def empty_sf_def)

definition with_blocks :: "sparse_file \<Rightarrow> backed_block list \<Rightarrow> sparse_file" where
  "with_blocks s xs = s\<lparr>backed_block_list := (backed_block_list s)\<lparr>last_used := None, data_blocks := xs\<rparr>\<rparr>"

lemma with_blocks_simps [simp]:
  "sf_blocks (with_blocks s xs) = xs" "sf_block_size (with_blocks s xs) = sf_block_size s"
  "sf_len (with_blocks s xs) = sf_len s" "bbl_block_size (backed_block_list (with_blocks s xs)) = bbl_block_size (backed_block_list s)"
  by (simp_all add: with_blocks_def)

lemma empty_sf_simps [simp]:
  "sf_blocks (empty_sf bs n) = []" "sf_block_size (empty_sf bs n) = bs" "sf_len (empty_sf bs n) = n"
  "bbl_block_size (backed_block_list (empty_sf bs n)) = bs"
  by (simp_all add: empty_sf_def)

text \<open>
  The piece that fits, when the block that does not is left alone, taken whole, or split.
\<close>

lemma stop_cut:
  assumes inv: "cut_inv E bs n m s" and xs: "sf_blocks s = ys @ b # zs"
    and size: "chunks_size E bs 0 ys \<le> len" and room_def: "room = len - (chunks_size E bs 0 ys + 12)"
    and len: "8 * bs \<le> len" "len < 4294967296" and bb: "last_bb = (if ys = [] then None else Some (bb_addr (last ys)))"
    and start: "start = Some (bb_addr (hd (ys @ [b])))"
  shows "\<exists>seg rest m'. (if last_bb = None \<or> room > len div 8
      then (case backed_block_split m (backed_block_list s) (bb_addr b) (u32 room) of
              (r, m2) \<Rightarrow> (rbind r (\<lambda>(_, bbl). move_lists (s\<lparr>backed_block_list := bbl\<rparr>) (empty_sf bs n) start (Some (bb_addr b)) (Some (bb_addr b))), m2))
      else (move_lists s (empty_sf bs n) start last_bb (Some (bb_addr b)), m))
      = (Inr (with_blocks s rest, with_blocks (empty_sf bs n) seg, Some (bb_addr b)), m')
    \<and> mem_ok m' \<and> mem_next m \<le> mem_next m' \<and> cut_of bs m m' (sf_blocks s) seg rest \<and> seg \<noteq> []
    \<and> chunks_size E bs 0 seg \<le> len + 12"
proof -
  have im: "image_ok E s" "sf_block_size s = bs" "bbl_block_size (backed_block_list s) = bs" "mem_ok m" "mem_fresh m (sf_blocks s)"
    using inv by (auto simp: cut_inv_def)
  note i = image_okD [OF im(1,2)]
  have bs: "block_size_ok bs" "4 \<le> bs" using i(1-3) by (auto simp: block_size_ok_def elim!: dvdE)
  have d: "distinct (map bb_addr (ys @ b # zs))" using i(6) xs by (simp add: bbl_wf_def)
  have w: "\<forall>c \<in> set (ys @ b # zs). bb_writable E bs c" using i(8) xs by simp
  have b: "bb_ok bs b" "bb_writable E bs b" using i(8) xs by auto
  show ?thesis
  proof (cases "last_bb = None \<or> room > len div 8")
    case False
    then have ys: "ys \<noteq> []" "last_bb = Some (bb_addr (last ys))" using bb by auto
    have "move_lists s (empty_sf bs n) start last_bb (Some (bb_addr b))
        = Inr (with_blocks s (b # zs), with_blocks (empty_sf bs n) ys, Some (bb_addr b))"
      using move_lists_seg [of s ys "b # zs" "empty_sf bs n"] xs d ys start by (simp add: with_blocks_def)
    moreover have "cut_of bs m m (sf_blocks s) ys (b # zs)"
      unfolding xs by (intro cut_of_id) simp
    ultimately show ?thesis using False ys(1) size im(4)
      by (intro exI [of _ ys] exI [of _ "b # zs"] exI [of _ m]) auto
  next
    case True
    have room: "bs \<le> room" "room < 4294967296"
      using True bb size len bs(2) chunks_size_nonneg [of E bs 0 ys] unfolding room_def by (auto split: if_splits)
    have start': "start = Some (bb_addr (hd (ys @ [c])))" if "bb_addr c = bb_addr b" for c
      using start that by (cases ys) auto
    define k where "k = room div bs"
    have "room mod bs + k * bs = room" "0 \<le> room mod bs" using bs(2) by (simp_all add: k_def)
    then have "k * bs \<le> room" by linarith
    moreover have "0 < k" using room(1) bs(2) by (simp add: k_def pos_imp_zdiv_pos_iff)
    ultimately have k: "0 < k" "k * bs \<le> room" by simp_all
    have u: "u32 room = room" using room bs(2) by (simp add: u32_id)
    note sp = backed_block_split_eq [OF im(3) i(1) _ xs, of room k m]
    show ?thesis
    proof (cases "bb_len b \<le> k * bs")
      case whole: True
      have "move_lists s (empty_sf bs n) start (Some (bb_addr b)) (Some (bb_addr b))
          = Inr (with_blocks s zs, with_blocks (empty_sf bs n) (ys @ [b]), Some (bb_addr b))"
        using move_lists_seg [of s "ys @ [b]" zs "empty_sf bs n"] xs d start by (simp add: with_blocks_def)
      moreover have "s\<lparr>backed_block_list := backed_block_list s\<rparr> = s" by simp
      moreover have "cut_of bs m m (sf_blocks s) (ys @ [b]) zs"
        using cut_of_id [of m m bs "ys @ [b]" zs] xs by simp
      moreover have "chunks_size E bs 0 (ys @ [b]) \<le> len + 12"
      proof -
        have "int (length (encode_chunk bs (bb_chunk E bs b))) \<le> 12 + k * bs"
          by (rule encode_whole) (use bs b k whole in auto)
        with k(2) show ?thesis by (simp add: chunks_size_append chunks_size_single room_def)
      qed
      ultimately show ?thesis using True whole sp d xs room bs(2) u im(4)
        by (intro exI [of _ "ys @ [b]"] exI [of _ zs] exI [of _ m]) (simp add: k_def)
    next
      case False
      let ?a = "split_first bs k b" and ?c = "split_second bs k (mem_next m) b" and ?m = "m\<lparr>mem_next := Suc (mem_next m)\<rparr>"
      have f: "k * bs < bb_len b" using False by simp
      let ?s = "s\<lparr>backed_block_list := (backed_block_list s)\<lparr>data_blocks := ys @ ?a # ?c # zs\<rparr>\<rparr>"
      have cut: "cut_of bs m ?m (sf_blocks s) (ys @ [?a]) (?c # zs)"
        unfolding xs by (intro cut_of_split k f) simp_all
      have "same_image E bs m (ys @ b # zs) (ys @ b # zs)" using i(6) im(5) w xs by (simp add: same_image_def)
      from same_image_split [OF bs(1) this k(1) f, of "mem_next m" ?m]
      have "distinct (map bb_addr ((ys @ [?a]) @ ?c # zs))" by (simp add: same_image_def bbl_wf_def)
      then have mv: "move_lists ?s (empty_sf bs n) start (Some (bb_addr b)) (Some (bb_addr b))
          = Inr (with_blocks s (?c # zs), with_blocks (empty_sf bs n) (ys @ [?a]), Some (bb_addr b))"
        using move_lists_seg [of ?s "ys @ [?a]" "?c # zs" "empty_sf bs n"] start' [of ?a]
        by (simp add: with_blocks_def split_first_def)
      have sz: "chunks_size E bs 0 (ys @ [?a]) \<le> len + 12"
        using split_writable(3) [OF bs(1) b k(1) f] k(2) by (simp add: chunks_size_append chunks_size_single room_def)
      have mok: "mem_ok ?m" using im(4) by (simp add: mem_ok_def)
      have spl: "backed_block_split m (backed_block_list s) (bb_addr b) (u32 room) = (Inr (0, (backed_block_list s)\<lparr>data_blocks := ys @ ?a # ?c # zs\<rparr>), ?m)"
        using f sp d xs room bs(2) u im(4) k_def by (simp add: mem_ok_def)
      have "(if last_bb = None \<or> room > len div 8
        then (case backed_block_split m (backed_block_list s) (bb_addr b) (u32 room) of
              (r, m2) \<Rightarrow> (rbind r (\<lambda>(_, bbl). move_lists (s\<lparr>backed_block_list := bbl\<rparr>) (empty_sf bs n) start (Some (bb_addr b)) (Some (bb_addr b))), m2))
        else (move_lists s (empty_sf bs n) start last_bb (Some (bb_addr b)), m))
        = (Inr (with_blocks s (?c # zs), with_blocks (empty_sf bs n) (ys @ [?a]), Some (bb_addr b)), ?m)"
        using True spl mv by (simp only: if_True prod.case rbind_simps)
      moreover have "mem_next m \<le> mem_next ?m" "ys @ [?a] \<noteq> []" by simp_all
      ultimately show ?thesis using cut mok sz by blast
    qed
  qed
qed

definition sf_like :: "int \<Rightarrow> int \<Rightarrow> backed_block list \<Rightarrow> sparse_file \<Rightarrow> bool" where
  "sf_like bs n xs s \<longleftrightarrow> sf_block_size s = bs \<and> sf_len s = n \<and> bbl_block_size (backed_block_list s) = bs \<and> sf_blocks s = xs"

lemma move_chunks_ok:
  assumes inv: "cut_inv E bs n m s" and len: "8 * bs + 56 \<le> max_len" "max_len < 4294967296"
  shows "\<exists>s' t' seg rest bb m'. move_chunks_up_to_len m E s (empty_sf bs n) max_len = (Inr (s', t', bb), m')
    \<and> sf_like bs n rest s' \<and> sf_like bs n seg t' \<and> mem_ok m' \<and> mem_next m \<le> mem_next m'
    \<and> cut_of bs m m' (sf_blocks s) seg rest
    \<and> (bb = None \<longrightarrow> rest = []) \<and> (bb \<noteq> None \<longrightarrow> seg \<noteq> []) \<and> chunks_size E bs 0 seg \<le> max_len - 44"
proof -
  have im: "image_ok E s" "sf_block_size s = bs" "sf_len s = n" "bbl_block_size (backed_block_list s) = bs" "mem_ok m"
    "mem_fresh m (sf_blocks s)"
    using inv by (auto simp: cut_inv_def)
  note i = image_okD [OF im(1,2)]
  define l where "l = max_len - 56"
  have l: "8 * bs \<le> l" "l < 4294967296" "0 \<le> l" using len i(1) by (simp_all add: l_def)
  have u: "u32 (max_len - overhead) = l" using l by (simp add: l_def overhead_def format_defs u32_id)
  let ?m = "m\<lparr>mem_next := mem_next m + 3\<rparr>"
  obtain out where out: "output_file_open m (callback_file_ops out_counter_write) 0 bs n True 0 False = (Inr (Inr out), ?m)"
    "ops out = callback_file_ops out_counter_write" "is_sparse out" "block_size out = bs"
    using counter.output_file_open_ok [OF im(5) _ i(1,3), of 0 n True 0 False] by auto
  let ?xs = "sf_blocks s" and ?r = "scan_ref E bs l 0 0 None (sf_blocks s)"
  have scan: "move_scan E bs l out 0 0 None ?xs = Inr ?r"
    using i l by (intro move_scan_eq out) auto
  have fresh: "mem_fresh ?m ?xs" using mem_fresh_mono [OF im(6)] by simp
  have inv': "cut_inv E bs n ?m s" using inv fresh by (simp add: cut_inv_def)
  have cut: "cut_of bs m ?m ?xs ?xs []" using cut_of_id [of m ?m bs ?xs "[]"] by simp
  have like: "sf_like bs n xs (with_blocks s xs)" "sf_like bs n xs (with_blocks (empty_sf bs n) xs)" for xs
    using im by (simp_all add: sf_like_def)
  note mc = move_chunks_up_to_len_def Let_def u backed_block_iter_new_def output_file_open_callback_def
  from scan_ref_cases [OF l(3), of E bs 0 None ?xs] show ?thesis
  proof
    assume all: "?r = Scan_all (if ?xs = [] then None else Some (bb_addr (last ?xs))) \<and> 0 + chunks_size E bs 0 ?xs \<le> l"
    show ?thesis
    proof (cases "?xs = []")
      case True
      have "move_chunks_up_to_len m E s (empty_sf bs n) max_len = (Inr (s, empty_sf bs n, None), ?m)"
        using out(1) scan all True
        by (simp add: mc move_lists_def backed_block_list_move_def)
      with True cut im show ?thesis
        using l by (intro exI [of _ s] exI [of _ "empty_sf bs n"] exI [of _ "[]"] exI [of _ None] exI [of _ ?m])
          (auto simp: sf_like_def l_def)
    next
      case False
      then obtain b xs where xs: "?xs = b # xs" by (cases ?xs) auto
      have "move_lists s (empty_sf bs n) (Some (bb_addr b)) (Some (bb_addr (last ?xs))) None
          = Inr (with_blocks s [], with_blocks (empty_sf bs n) ?xs, None)"
        using move_lists_seg [of s ?xs "[]" "empty_sf bs n" None] i(6) xs by (simp add: bbl_wf_def with_blocks_def)
      then have "move_chunks_up_to_len m E s (empty_sf bs n) max_len = (Inr (with_blocks s [], with_blocks (empty_sf bs n) ?xs, None), ?m)"
        using out(1) scan all False xs by (simp add: mc)
      with all cut like im(5) l show ?thesis
        by (intro exI [of _ "with_blocks s []"] exI [of _ "with_blocks (empty_sf bs n) ?xs"] exI [of _ ?xs] exI [of _ "[]"]
            exI [of _ None] exI [of _ ?m]) (simp add: l_def)
    qed
  next
    assume "\<exists>ys b zs. ?xs = ys @ b # zs \<and> 0 + chunks_size E bs 0 ys \<le> l \<and> l < 0 + chunks_size E bs 0 (ys @ [b])
      \<and> ?r = Scan_stop (bb_addr b) (if ys = [] then None else Some (bb_addr (last ys))) (l - (0 + chunks_size E bs 0 ys + 12))"
    then obtain ys b zs where st: "?xs = ys @ b # zs" "chunks_size E bs 0 ys \<le> l"
      "?r = Scan_stop (bb_addr b) (if ys = [] then None else Some (bb_addr (last ys))) (l - (chunks_size E bs 0 ys + 12))"
      by auto
    define last_bb where "last_bb = (if ys = [] then None else Some (bb_addr (last ys)))"
    define room where "room = l - (chunks_size E bs 0 ys + 12)"
    define start where "start = Some (bb_addr (hd (ys @ [b])))"
    obtain seg rest m' where r: "(if last_bb = None \<or> room > l div 8
      then (case backed_block_split ?m (backed_block_list s) (bb_addr b) (u32 room) of
              (r, m2) \<Rightarrow> (rbind r (\<lambda>(_, bbl). move_lists (s\<lparr>backed_block_list := bbl\<rparr>) (empty_sf bs n) start (Some (bb_addr b)) (Some (bb_addr b))), m2))
      else (move_lists s (empty_sf bs n) start last_bb (Some (bb_addr b)), ?m))
      = (Inr (with_blocks s rest, with_blocks (empty_sf bs n) seg, Some (bb_addr b)), m')"
      "mem_ok m'" "mem_next ?m \<le> mem_next m'" "cut_of bs ?m m' ?xs seg rest" "seg \<noteq> []" "chunks_size E bs 0 seg \<le> l + 12"
      using stop_cut [OF inv' st(1,2) room_def l(1,2) last_bb_def start_def] by blast
    have hd: "(case ?xs of [] \<Rightarrow> None | b # _ \<Rightarrow> Some (bb_addr b)) = start"
      unfolding st(1) start_def by (cases ys) simp_all
    have "move_chunks_up_to_len m E s (empty_sf bs n) max_len
        = (Inr (with_blocks s rest, with_blocks (empty_sf bs n) seg, Some (bb_addr b)), m')"
      using out(1) scan unfolding mc hd st(3) last_bb_def [symmetric] room_def [symmetric] r(1) [symmetric] by simp
    moreover have "cut_of bs m m' ?xs seg rest" using cut_of_mono [OF r(4), of m] by simp
    moreover have "mem_next m \<le> mem_next m'" "chunks_size E bs 0 seg \<le> max_len - 44" using r(3,6) by (simp_all add: l_def)
    moreover have "Some (bb_addr b) = None \<longrightarrow> rest = []" by simp
    ultimately show ?thesis using r(2,5) like(1) [of rest] like(2) [of seg] by blast
  qed
qed

section \<open>The loop\<close>

lemma bbl_wf_sublist: "bbl_wf bs (xs @ ys @ zs) \<Longrightarrow> bbl_wf bs ys"
  by (auto simp: bbl_wf_def bbl_sorted_append image_Un intro: names_ok_mono)

lemma blocks_end_sublist:
  assumes bs: "0 < bs" and wf: "bbl_wf bs (xs @ ys @ zs)"
  shows "blocks_end bs 0 ys \<le> blocks_end bs 0 (xs @ ys @ zs)"
proof (cases "ys = []")
  case True
  then show ?thesis
    using wf blocks_end_ge [OF bs, of "xs @ ys @ zs" 0] by (auto simp: bbl_wf_def bb_ok_def)
next
  case False
  then have "blocks_end bs 0 ys = bb_last bs (last ys)" for l
    by (metis append_butlast_last_id blocks_end.simps blocks_end_append)
  moreover have "last ys \<in> set (xs @ ys @ zs)" using False by simp
  moreover have "bbl_sorted bs (xs @ ys @ zs)" "\<forall>b \<in> set (xs @ ys @ zs). bb_ok bs b \<and> 0 \<le> bb_block b"
    using wf unfolding bbl_wf_def bb_ok_def by blast+
  ultimately show ?thesis using blocks_end_last [OF bs, of "xs @ ys @ zs" 0 "last ys"] by simp
qed

text \<open>Any stretch of the blocks, in a file of the size of the original, is an image.\<close>

lemma same_image_part:
  assumes orig: "image_ok E s0" "sf_block_size s0 = bs" "sf_len s0 = n"
    and same: "same_image E bs m (sf_blocks s0) (xs @ ys @ zs)" and p: "sf_like bs n ys p"
  shows "image_ok E p"
proof -
  note i = image_okD [OF orig(1,2)]
  have wf: "bbl_wf bs (xs @ ys @ zs)" using same by (simp add: same_image_def)
  have "blocks_end bs 0 ys * bs \<le> blocks_end bs 0 (xs @ ys @ zs) * bs"
    using blocks_end_sublist [OF i(1) wf] i(1) by simp
  also have "\<dots> \<le> n" using same i(9) orig(3) by (simp add: same_image_def)
  finally show ?thesis
    using orig same p bbl_wf_sublist [OF wf] by (auto simp: image_ok_def sf_like_def same_image_def)
qed

lemma blocks_total_pos:
  assumes "0 < bs" "\<forall>b \<in> set xs. bb_ok bs b" "xs \<noteq> []"
  shows "0 < blocks_total bs xs"
  using assms(3,2)
proof (induction xs rule: list_nonempty_induct)
  case (single b)
  then show ?case using ceil_div_pos [OF assms(1)] by (simp add: blocks_total_def bb_ok_def)
next
  case (cons b xs)
  then show ?case using ceil_div_pos [OF assms(1), of "bb_len b"] by (simp add: blocks_total_def bb_ok_def)
qed

lemma blocks_total_append [simp]: "blocks_total bs (xs @ ys) = blocks_total bs xs + blocks_total bs ys"
  by (simp add: blocks_total_def)

lemma blocks_total_Nil [simp]: "blocks_total bs [] = 0"
  by (simp add: blocks_total_def)

text \<open>A piece: an image of the size of the original, small enough once written.\<close>

definition piece_ok :: "env \<Rightarrow> int \<Rightarrow> int \<Rightarrow> int \<Rightarrow> sparse_file \<Rightarrow> bool" where
  "piece_ok E bs n max_len p \<longleftrightarrow>
     image_ok E p \<and> sf_block_size p = bs \<and> sf_len p = n \<and> int (length (sparse_bytes E p None)) \<le> max_len"

lemma sparse_bytes_size:
  "int (length (sparse_bytes E p None)) \<le> 40 + chunks_size E (sf_block_size p) 0 (sf_blocks p)"
  by (simp add: sparse_bytes_def image_chunks_def chunks_size_def skip_to_def)

text \<open>
  What the loop keeps: the pieces stored, the blocks set aside and the blocks left over say together
  what the original said. The blocks set aside come after the pieces, so there are none while pieces
  are still stored.
\<close>

definition loop_inv ::
    "env \<Rightarrow> sparse_file \<Rightarrow> int \<Rightarrow> int \<Rightarrow> mem \<Rightarrow> sparse_file \<Rightarrow> sparse_file \<Rightarrow> sparse_file list \<Rightarrow> int \<Rightarrow> bool" where
  "loop_inv E s0 max_len count m s tmp outs c \<longleftrightarrow>
     mem_ok m \<and> 0 \<le> c \<and>
     sf_like (sf_block_size s0) (sf_len s0) (sf_blocks s) s \<and> sf_like (sf_block_size s0) (sf_len s0) (sf_blocks tmp) tmp \<and>
     same_image E (sf_block_size s0) m (sf_blocks s0) (concat (map sf_blocks outs) @ sf_blocks tmp @ sf_blocks s) \<and>
     (\<forall>p \<in> set outs. piece_ok E (sf_block_size s0) (sf_len s0) max_len p) \<and>
     (c \<le> count \<longrightarrow> sf_blocks tmp = [] \<and> int (length outs) = c) \<and> (count \<le> c \<longrightarrow> int (length outs) = max 0 count)"

text \<open>One turn of the loop up to the test that ends it.\<close>

definition resparse_turn ::
    "env \<Rightarrow> int \<Rightarrow> int \<Rightarrow> mem \<Rightarrow> sparse_file \<Rightarrow> sparse_file \<Rightarrow> sparse_file list \<Rightarrow> int
     \<Rightarrow> (sparse_file \<times> sparse_file \<times> sparse_file list \<times> nat option) res \<times> mem" where
  "resparse_turn E max_len out_s_count m in_s tmp out_s c =
     (case sparse_file_new m (sf_block_size in_s) (sf_len in_s) of
        (Inl e, m1) \<Rightarrow> (Inl e, m1)
      | (Inr None, m1) \<Rightarrow> (Inl Null_deref, m1)
      | (Inr (Some s), m1) \<Rightarrow>
          (case move_chunks_up_to_len m1 E in_s s max_len of
             (Inl e, m2) \<Rightarrow> (Inl e, m2)
           | (Inr (in_s1, s1, bb), m2) \<Rightarrow>
               (rbind (if c < out_s_count then Inr (tmp, out_s @ [s1])
                      else rbind (backed_block_list_move (backed_block_list s1) (backed_block_list tmp) None None)
                             (\<lambda>(_, t). Inr (tmp\<lparr>backed_block_list := t\<rparr>, out_s)))
                  (\<lambda>(tmp1, out_s1). Inr (in_s1, tmp1, out_s1, bb)), m2)))"

lemma resparse_loop_turn:
  "resparse_loop E max_len out_s_count m in_s tmp out_s c =
     (case resparse_turn E max_len out_s_count m in_s tmp out_s c of
        (Inl e, m2) \<Rightarrow> Some (Inl e, m2)
      | (Inr (in_s1, tmp1, out_s1, bb), m2) \<Rightarrow>
          if bb = None then Some (Inr (in_s1, tmp1, out_s1, i32 (c + 1)), m2)
          else resparse_loop E max_len out_s_count m2 in_s1 tmp1 out_s1 (i32 (c + 1)))"
  by (subst resparse_loop.simps) (simp add: resparse_turn_def rbind_def split: prod.split sum.split option.split)

lemma same_image_refl:
  "bbl_wf bs xs \<Longrightarrow> mem_fresh m xs \<Longrightarrow> \<forall>b \<in> set xs. bb_writable E bs b \<Longrightarrow> same_image E bs m xs xs"
  by (simp add: same_image_def)

lemma same_image_later: "same_image E bs m ys xs \<Longrightarrow> mem_next m \<le> mem_next m' \<Longrightarrow> same_image E bs m' ys xs"
  using mem_fresh_mono by (auto simp: same_image_def)

lemma same_image_suffix:
  assumes "same_image E bs m ys (pre @ xs)"
  shows "bbl_wf bs xs" "mem_fresh m xs" "\<forall>b \<in> set xs. bb_writable E bs b"
  using assms bbl_wf_sublist [of bs pre xs "[]"] by (simp_all add: same_image_def mem_fresh_def)

text \<open>The blocks of a piece are set aside behind those already there.\<close>

lemma set_aside:
  assumes wf: "bbl_wf bs (pre @ tb @ seg @ rest)" and bs: "0 < bs"
    and like: "sf_like bs n seg s1" "sf_like bs n tb tmp"
  shows "\<exists>f t. backed_block_list_move (backed_block_list s1) (backed_block_list tmp) None None = Inr (f, t)
    \<and> sf_like bs n (tb @ seg) (tmp\<lparr>backed_block_list := t\<rparr>)"
proof -
  have "distinct (map bb_addr seg)" using wf by (simp add: bbl_wf_def)
  moreover have "bb_block b \<le> bb_block (hd seg)" if "seg \<noteq> []" "b \<in> set tb" for b
  proof -
    have "bb_last bs b \<le> bb_block (hd seg)" "bb_ok bs b" using that wf by (auto simp: bbl_wf_def bbl_sorted_append)
    then show ?thesis using ceil_div_nonneg [OF bs, of "bb_len b"] by (simp add: bb_last_def bb_ok_def)
  qed
  ultimately obtain f t where "backed_block_list_move (backed_block_list s1) (backed_block_list tmp) None None = Inr (f, t)"
    "data_blocks t = tb @ seg" "bbl_block_size t = bbl_block_size (backed_block_list tmp)"
    using backed_block_list_move_all [of "backed_block_list s1" "backed_block_list tmp"] like by (auto simp: sf_like_def)
  then show ?thesis using like by (auto simp: sf_like_def)
qed

lemma resparse_turn_ok:
  assumes orig: "image_ok E s0" and len: "8 * sf_block_size s0 + 56 \<le> max_len" "max_len < 4294967296"
    and inv: "loop_inv E s0 max_len count m s tmp outs c"
  shows "\<exists>s' tmp' outs' bb m'. resparse_turn E max_len count m s tmp outs c = (Inr (s', tmp', outs', bb), m')
    \<and> loop_inv E s0 max_len count m' s' tmp' outs' (c + 1) \<and> (bb = None \<longrightarrow> sf_blocks s' = [])
    \<and> (bb \<noteq> None \<longrightarrow> blocks_total (sf_block_size s0) (sf_blocks s') < blocks_total (sf_block_size s0) (sf_blocks s))"
proof -
  define bs n where "bs = sf_block_size s0" and "n = sf_len s0"
  define pre where "pre = concat (map sf_blocks outs)"
  note i = image_okD [OF orig refl, folded bs_def]
  have bs: "block_size_ok bs" using i(1-3) by (simp add: block_size_ok_def)
  have l: "mem_ok m" "0 \<le> c" "sf_like bs n (sf_blocks s) s" "sf_like bs n (sf_blocks tmp) tmp"
    "same_image E bs m (sf_blocks s0) (pre @ sf_blocks tmp @ sf_blocks s)"
    "\<forall>p \<in> set outs. piece_ok E bs n max_len p"
    "c \<le> count \<longrightarrow> sf_blocks tmp = [] \<and> int (length outs) = c" "count \<le> c \<longrightarrow> int (length outs) = max 0 count"
    using inv by (auto simp: loop_inv_def bs_def n_def pre_def)
  define m1 where "m1 = m\<lparr>mem_next := mem_next m + 2\<rparr>"
  have m1: "mem_ok m1" "mem_next m \<le> mem_next m1" using l(1) by (simp_all add: m1_def mem_ok_def)
  have new: "sparse_file_new m (sf_block_size s) (sf_len s) = (Inr (Some (empty_sf bs n)), m1)"
    using sparse_file_new_ok [OF l(1)] l(3) by (simp add: sf_like_def m1_def)
  note same = same_image_later [OF l(5) m1(2)]
  note suf = same_image_suffix [of E bs m1 "sf_blocks s0" "pre @ sf_blocks tmp", simplified, OF same]
  have "image_ok E s"
    using same_image_part [OF orig _ _ _ l(3), of m1 "pre @ sf_blocks tmp" "[]"] same by (simp add: bs_def n_def)
  then have "cut_inv E bs n m1 s" using l(3) m1 suf(2) by (simp add: cut_inv_def sf_like_def)
  from move_chunks_ok [OF this len(1) [folded bs_def] len(2)]
  obtain s' t' seg rest bb m' where mv: "move_chunks_up_to_len m1 E s (empty_sf bs n) max_len = (Inr (s', t', bb), m')"
    "sf_like bs n rest s'" "sf_like bs n seg t'" "mem_ok m'" "mem_next m1 \<le> mem_next m'"
    "cut_of bs m1 m' (sf_blocks s) seg rest" "bb = None \<longrightarrow> rest = []" "bb \<noteq> None \<longrightarrow> seg \<noteq> []"
    "chunks_size E bs 0 seg \<le> max_len - 44"
    by blast
  have blocks: "sf_blocks s' = rest" "sf_blocks t' = seg" using mv(2,3) by (simp_all add: sf_like_def)
  have same': "same_image E bs m' (sf_blocks s0) (pre @ sf_blocks tmp @ seg @ rest)"
    using cut_same_image [OF bs _ mv(6), of E "sf_blocks s0" "pre @ sf_blocks tmp"] same by simp
  have less: "blocks_total bs rest < blocks_total bs (sf_blocks s)" if "bb \<noteq> None"
  proof -
    have "same_image E bs m' (sf_blocks s) ([] @ seg @ rest)"
      using cut_same_image [OF bs _ mv(6), of E "sf_blocks s" "[]"] same_image_refl [OF suf] by simp
    then have "blocks_total bs seg + blocks_total bs rest = blocks_total bs (sf_blocks s)" "\<forall>b \<in> set seg. bb_ok bs b"
      by (auto simp: same_image_def bbl_wf_def)
    with blocks_total_pos [OF i(1), of seg] mv(8) that show ?thesis by simp
  qed
  have piece: "piece_ok E bs n max_len t'"
  proof -
    have "image_ok E t'"
      using same_image_part [OF orig _ _ _ mv(3), of m' "pre @ sf_blocks tmp" rest] same' by (simp add: bs_def n_def)
    then show ?thesis using mv(3,9) sparse_bytes_size [of E t'] by (simp add: piece_ok_def sf_like_def)
  qed
  have fin: "bb = None \<longrightarrow> sf_blocks s' = []"
    "bb \<noteq> None \<longrightarrow> blocks_total (sf_block_size s0) (sf_blocks s') < blocks_total (sf_block_size s0) (sf_blocks s)"
    using mv(7) less blocks(1) by (simp_all add: bs_def)
  show ?thesis
  proof (cases "c < count")
    case True
    then have "resparse_turn E max_len count m s tmp outs c = (Inr (s', tmp, outs @ [t'], bb), m')"
      using new mv(1) by (simp add: resparse_turn_def)
    moreover have "loop_inv E s0 max_len count m' s' tmp (outs @ [t']) (c + 1)"
      using True l mv(2-4) piece same' blocks by (auto simp: loop_inv_def pre_def bs_def n_def)
    ultimately show ?thesis using fin by blast
  next
    case False
    have "bbl_wf bs (pre @ sf_blocks tmp @ seg @ rest)" using same' by (simp add: same_image_def)
    from set_aside [OF this i(1) mv(3) l(4)] obtain f t where
      st: "backed_block_list_move (backed_block_list t') (backed_block_list tmp) None None = Inr (f, t)"
        "sf_like bs n (sf_blocks tmp @ seg) (tmp\<lparr>backed_block_list := t\<rparr>)" by blast
    then have "resparse_turn E max_len count m s tmp outs c = (Inr (s', tmp\<lparr>backed_block_list := t\<rparr>, outs, bb), m')"
      using False new mv(1) by (simp add: resparse_turn_def)
    moreover have "data_blocks t = sf_blocks tmp @ seg" using st(2) by (simp add: sf_like_def)
    then have "loop_inv E s0 max_len count m' s' (tmp\<lparr>backed_block_list := t\<rparr>) outs (c + 1)"
      using False l mv(2-4) st(2) same' blocks by (auto simp: loop_inv_def pre_def bs_def n_def)
    ultimately show ?thesis using fin by blast
  qed
qed

lemma resparse_loop_ok:
  assumes orig: "image_ok E s0" and len: "8 * sf_block_size s0 + 56 \<le> max_len" "max_len < 4294967296"
    and inv: "loop_inv E s0 max_len count m s tmp outs c"
    and c: "c + blocks_total (sf_block_size s0) (sf_blocks s) + 1 < 2147483648"
  shows "\<exists>s' tmp' outs' c' m'. resparse_loop E max_len count m s tmp outs c = Some (Inr (s', tmp', outs', c'), m')
    \<and> loop_inv E s0 max_len count m' s' tmp' outs' c' \<and> sf_blocks s' = [] \<and> c < c'"
  using inv c
proof (induction "nat (blocks_total (sf_block_size s0) (sf_blocks s))" arbitrary: m s tmp outs c rule: less_induct)
  case less
  obtain s' tmp' outs' bb m' where t: "resparse_turn E max_len count m s tmp outs c = (Inr (s', tmp', outs', bb), m')"
    "loop_inv E s0 max_len count m' s' tmp' outs' (c + 1)" "bb = None \<longrightarrow> sf_blocks s' = []"
    "bb \<noteq> None \<longrightarrow> blocks_total (sf_block_size s0) (sf_blocks s') < blocks_total (sf_block_size s0) (sf_blocks s)"
    using resparse_turn_ok [OF orig len less.prems(1)] by blast
  have tot: "0 \<le> blocks_total (sf_block_size s0) xs" if "\<forall>b \<in> set xs. bb_ok (sf_block_size s0) b" for xs
    using blocks_total_pos [OF image_okD(1) [OF orig refl], of xs] that by (cases "xs = []") (simp_all add: less_imp_le)
  have ok: "\<forall>b \<in> set (sf_blocks s). bb_ok (sf_block_size s0) b" "\<forall>b \<in> set (sf_blocks s'). bb_ok (sf_block_size s0) b"
    using less.prems(1) t(2) by (auto simp: loop_inv_def same_image_def bbl_wf_def)
  have "0 \<le> c" using less.prems(1) by (simp add: loop_inv_def)
  then have i32: "i32 (c + 1) = c + 1" using less.prems(2) tot [OF ok(1)] by (simp add: i32_id)
  show ?case
  proof (cases "bb = None")
    case True
    then have "resparse_loop E max_len count m s tmp outs c = Some (Inr (s', tmp', outs', c + 1), m')"
      using t(1) i32 by (subst resparse_loop_turn) simp
    then show ?thesis using t(2,3) True by auto
  next
    case False
    then have "nat (blocks_total (sf_block_size s0) (sf_blocks s')) < nat (blocks_total (sf_block_size s0) (sf_blocks s))"
      using t(4) tot [OF ok(2)] by simp
    from less.hyps [OF this t(2)] False t(4) less.prems(2)
    obtain s2 tmp2 outs2 c2 m2 where
      "resparse_loop E max_len count m' s' tmp' outs' (c + 1) = Some (Inr (s2, tmp2, outs2, c2), m2)"
      "loop_inv E s0 max_len count m2 s2 tmp2 outs2 c2" "sf_blocks s2 = []" "c + 1 < c2" by force
    moreover from this(1) have "resparse_loop E max_len count m s tmp outs c = Some (Inr (s2, tmp2, outs2, c2), m2)"
      using t(1) False i32 by (subst resparse_loop_turn) auto
    ultimately show ?thesis by (intro exI conjI) (assumption | simp)+
  qed
qed

lemma blocks_total_end:
  assumes "0 < bs" "bbl_sorted bs xs" "\<forall>b \<in> set xs. bb_ok bs b \<and> l \<le> bb_block b"
  shows "l + blocks_total bs xs \<le> blocks_end bs l xs"
  using assms
proof (induction xs arbitrary: l)
  case (Cons b xs)
  then have "bb_last bs b + blocks_total bs xs \<le> blocks_end bs (bb_last bs b) xs"
    by (simp add: bbl_sorted_Cons)
  with Cons.prems show ?case by (simp add: blocks_total_def bb_last_def)
qed simp

text \<open>
  C24: \<open>sparse_file_resparse\<close> ends and loses nothing. For a maximal length of at least eight blocks and the
  headers, and any room \<open>count\<close> for pieces, it returns the number \<open>c\<close> of pieces the image takes; the first
  \<open>min c count\<close> of them are stored, each one an image of the same size whose sparse form has at most
  \<open>max_len\<close> bytes; the blocks of the other pieces are back in the input file, which is empty when there was
  room for all; and pieces and input file together give every byte of the image what the input file gave it.
\<close>

theorem sparse_file_resparse_ok:
  assumes "image_ok E s" "bbl_block_size (backed_block_list s) = sf_block_size s" "mem_ok m" "mem_fresh m (sf_blocks s)"
    "8 * sf_block_size s + 56 \<le> max_len" "max_len < 4294967296" "sf_len s div sf_block_size s < 2147483647"
  shows "\<exists>c s' outs m'. sparse_file_resparse m E s max_len count = Some (Inr (c, s', outs), m') \<and> 0 < c
    \<and> int (length outs) = min c (max 0 count) \<and> (c \<le> count \<longrightarrow> sf_blocks s' = [])
    \<and> (\<forall>p \<in> set outs. image_ok E p \<and> sf_block_size p = sf_block_size s \<and> sf_len p = sf_len s
         \<and> int (length (sparse_bytes E p None)) \<le> max_len)
    \<and> image_ok E s' \<and> sf_block_size s' = sf_block_size s \<and> sf_len s' = sf_len s
    \<and> bbl_wf (sf_block_size s) (concat (map sf_blocks outs) @ sf_blocks s')
    \<and> bbl_view (sf_block_size s) (concat (map sf_blocks outs) @ sf_blocks s') = bbl_view (sf_block_size s) (sf_blocks s)"
proof -
  define bs n where "bs = sf_block_size s" and "n = sf_len s"
  note i = image_okD [OF assms(1) refl, folded bs_def n_def]
  define m1 where "m1 = m\<lparr>mem_next := mem_next m + 2\<rparr>"
  have new: "sparse_file_new m (sf_block_size s) (sf_len s) = (Inr (Some (empty_sf bs n)), m1)"
    using sparse_file_new_ok [OF assms(3)] by (simp add: m1_def bs_def n_def)
  have fresh: "mem_fresh m1 (sf_blocks s)" using mem_fresh_mono [OF assms(4), of m1] by (simp add: m1_def)
  have "same_image E bs m1 (sf_blocks s) (sf_blocks s)" using same_image_refl [OF i(6) fresh] i(8) by simp
  then have inv: "loop_inv E s max_len count m1 s (empty_sf bs n) [] 0"
    using assms(2,3) by (simp add: loop_inv_def sf_like_def bs_def n_def m1_def mem_ok_def)
  have "blocks_total bs (sf_blocks s) \<le> blocks_end bs 0 (sf_blocks s)"
    using blocks_total_end [OF i(1,7), of 0] i(8) by simp
  then have "blocks_total bs (sf_blocks s) * bs \<le> n"
    using i(1,9) mult_right_mono [of "blocks_total bs (sf_blocks s)" "blocks_end bs 0 (sf_blocks s)" bs] by linarith
  then have "blocks_total bs (sf_blocks s) * bs div bs \<le> n div bs" by (rule zdiv_mono1) (rule i(1))
  then have "blocks_total bs (sf_blocks s) \<le> n div bs" using i(1) by simp
  then have c: "0 + blocks_total (sf_block_size s) (sf_blocks s) + 1 < 2147483648" using assms(7) by (simp add: bs_def n_def)
  obtain s1 tmp outs c m2 where l: "resparse_loop E max_len count m1 s (empty_sf bs n) [] 0 = Some (Inr (s1, tmp, outs, c), m2)"
    "loop_inv E s max_len count m2 s1 tmp outs c" "sf_blocks s1 = []" "0 < c"
    using resparse_loop_ok [OF assms(1,5,6) inv c] by blast
  have like: "sf_like bs n [] s1" "sf_like bs n (sf_blocks tmp) tmp"
    and same: "same_image E bs m2 (sf_blocks s) (concat (map sf_blocks outs) @ sf_blocks tmp)"
    using l(2,3) by (auto simp: loop_inv_def bs_def n_def)
  have wf: "bbl_wf bs (concat (map sf_blocks outs) @ [] @ sf_blocks tmp @ [])" using same by (simp add: same_image_def)
  obtain f t where mv: "backed_block_list_move (backed_block_list tmp) (backed_block_list s1) None None = Inr (f, t)"
    "sf_like bs n (sf_blocks tmp) (s1\<lparr>backed_block_list := t\<rparr>)"
    using set_aside [OF wf i(1) like(2,1)] by auto
  let ?s' = "s1\<lparr>backed_block_list := t\<rparr>"
  have "sparse_file_resparse m E s max_len count = Some (Inr (c, ?s', outs), m2)"
    using new l(1) mv(1) by (simp add: sparse_file_resparse_def)
  moreover have "sf_blocks ?s' = sf_blocks tmp" "sf_block_size ?s' = bs" "sf_len ?s' = n" using mv(2) by (simp_all add: sf_like_def)
  moreover have "image_ok E ?s'"
    using same_image_part [OF assms(1) _ _ _ mv(2), of m2 "concat (map sf_blocks outs)" "[]"] same by (simp add: bs_def n_def)
  moreover have "int (length outs) = min c (max 0 count)" "c \<le> count \<longrightarrow> sf_blocks tmp = []"
    "\<forall>p \<in> set outs. piece_ok E bs n max_len p"
    using l(2) by (auto simp: loop_inv_def bs_def n_def)
  ultimately show ?thesis using l(4) same
    by (intro exI [of _ c] exI [of _ ?s'] exI [of _ outs] exI [of _ m2]) (simp add: piece_ok_def same_image_def bs_def n_def)
qed

theorem sparse_file_resparse_ok_witness:
  "\<exists>c s' outs m'. sparse_file_resparse ex_mem ex_env ex_sf 88 5 = Some (Inr (c, s', outs), m') \<and> 0 < c
    \<and> int (length outs) = min c 5"
proof -
  have "bbl_block_size (backed_block_list ex_sf) = sf_block_size ex_sf" "mem_fresh ex_mem (sf_blocks ex_sf)"
    "8 * sf_block_size ex_sf + 56 \<le> 88" "sf_len ex_sf div sf_block_size ex_sf < 2147483647"
    by (simp_all add: ex_sf_def mem_fresh_def ex_mem_def)
  with sparse_file_resparse_ok [OF ex_image_ok _ ex_mem_ok, of 88 5] show ?thesis by fastforce
qed

end
