(* ===== verification/Heap_Ownership.thy ===== *)
theory Heap_Ownership
  imports Platform "HOL-Library.Multiset"
begin

text \<open>
  Ownership of heap blocks. A heap is the allocator of \<open>Platform\<close> with the list of the addresses given back to
  it. \<open>live xs h\<close> says that the blocks \<open>xs\<close> are allocated, distinct and not freed, and that no block was freed
  twice; \<open>grows xs h ys h'\<close> says that a step from \<open>h\<close> to \<open>h'\<close> turns the owner of \<open>xs\<close> into the owner of \<open>ys\<close>:
  nothing is leaked and nothing else is freed, and the blocks that are new are freshly allocated. The
  rules compose steps and let an owner of more blocks use a step of fewer (\<open>grows_frame\<close>).
\<close>

text \<open>A heap that also records what was given back to it, in the order of the calls.\<close>

record heap = mem +
  freed :: "nat list"

definition free_at :: "nat \<Rightarrow> heap \<Rightarrow> heap" where
  "free_at a h = h\<lparr>freed := freed h @ [a]\<rparr>"

lemma free_at_simps [simp]:
  "freed (free_at a h) = freed h @ [a]" "mem_next (free_at a h) = mem_next h" "mem_fail (free_at a h) = mem_fail h"
  by (simp_all add: free_at_def)

definition live :: "nat list \<Rightarrow> heap \<Rightarrow> bool" where
  "live xs h \<longleftrightarrow> distinct (xs @ freed h) \<and> (\<forall>a \<in> set (xs @ freed h). a < mem_next h)"

definition grows :: "nat list \<Rightarrow> heap \<Rightarrow> nat list \<Rightarrow> heap \<Rightarrow> bool" where
  "grows xs h ys h' \<longleftrightarrow>
     (\<exists>new. mset (ys @ freed h') = mset (new @ xs @ freed h) \<and> distinct new \<and>
        (\<forall>a \<in> set new. mem_next h \<le> a \<and> a < mem_next h') \<and> mem_next h \<le> mem_next h')"

lemma growsI:
  assumes "mset (ys @ freed h') = mset (new @ xs @ freed h)" "distinct new"
    "\<forall>a \<in> set new. mem_next h \<le> a \<and> a < mem_next h'" "mem_next h \<le> mem_next h'"
  shows "grows xs h ys h'"
  using assms unfolding grows_def by blast

lemma grows_live:
  assumes "live xs h" "grows xs h ys h'"
  shows "live ys h'"
proof -
  obtain new where new: "mset (ys @ freed h') = mset (new @ xs @ freed h)" "distinct new"
    "\<forall>a \<in> set new. mem_next h \<le> a \<and> a < mem_next h'" "mem_next h \<le> mem_next h'"
    using assms(2) unfolding grows_def by blast
  have old: "distinct (xs @ freed h)" "\<forall>a \<in> set (xs @ freed h). a < mem_next h"
    using assms(1) unfolding live_def by blast+
  have "set new \<inter> set (xs @ freed h) = {}" using old(2) new(3) by (meson disjoint_iff not_less)
  then have "distinct (new @ xs @ freed h)" using old(1) new(2) by (simp only: distinct_append)
  moreover have "\<forall>a \<in> set (new @ xs @ freed h). a < mem_next h'"
    using old(2) new(3,4) by (metis Un_iff order_less_le_trans set_append)
  ultimately show ?thesis
    unfolding live_def using mset_eq_imp_distinct_iff [OF new(1)] mset_eq_setD [OF new(1)] by simp
qed

lemma grows_next: "grows xs h ys h' \<Longrightarrow> mem_next h \<le> mem_next h'"
  by (auto simp: grows_def)

lemma grows_refl [simp]: "grows xs h xs h"
  by (rule growsI [of _ _ "[]"]) simp_all

lemma grows_mset:
  "grows xs h ys h' \<Longrightarrow> mset xs' = mset xs \<Longrightarrow> mset ys' = mset ys \<Longrightarrow> grows xs' h ys' h'"
  by (simp add: grows_def)

lemma grows_trans:
  assumes "grows xs h ys h1" "grows ys h1 zs h2"
  shows "grows xs h zs h2"
proof -
  obtain n1 where n1: "mset (ys @ freed h1) = mset (n1 @ xs @ freed h)" "distinct n1"
    "\<forall>a \<in> set n1. mem_next h \<le> a \<and> a < mem_next h1" "mem_next h \<le> mem_next h1"
    using assms(1) unfolding grows_def by blast
  obtain n2 where n2: "mset (zs @ freed h2) = mset (n2 @ ys @ freed h1)" "distinct n2"
    "\<forall>a \<in> set n2. mem_next h1 \<le> a \<and> a < mem_next h2" "mem_next h1 \<le> mem_next h2"
    using assms(2) unfolding grows_def by blast
  have "mset (zs @ freed h2) = mset ((n2 @ n1) @ xs @ freed h)" using n1(1) n2(1) by simp
  moreover have "distinct (n2 @ n1)" using n1(2,3) n2(2,3) by force
  moreover have "\<forall>a \<in> set (n2 @ n1). mem_next h \<le> a \<and> a < mem_next h2" using n1(3,4) n2(3,4) by force
  ultimately show ?thesis using n1(4) n2(4) by (intro growsI [of _ _ "n2 @ n1"]) simp_all
qed

lemma grows_frame: "grows xs h ys h' \<Longrightarrow> grows (zs @ xs) h (zs @ ys) h'"
  by (simp add: grows_def)

lemma grows_malloc:
  "malloc h = (Some a, h') \<Longrightarrow> grows xs h (a # xs) h'" "malloc h = (None, h') \<Longrightarrow> grows xs h xs h'"
  by (auto simp: malloc_def split: if_splits intro: growsI [of _ _ "[mem_next h]"] growsI [of _ _ "[]"])

lemma grows_free: "grows (a # xs) h xs (free_at a h)"
  by (rule growsI [of _ _ "[]"]) simp_all

lemma malloc_cases:
  obtains (fail) "mem_fail h (mem_next h)" "malloc h = (None, h\<lparr>mem_next := Suc (mem_next h)\<rparr>)"
  | (success) "\<not> mem_fail h (mem_next h)" "malloc h = (Some (mem_next h), h\<lparr>mem_next := Suc (mem_next h)\<rparr>)"
  by (cases "mem_fail h (mem_next h)") (simp_all add: malloc_def)

text \<open>A heap on which no allocation fails.\<close>

definition never_fails :: "heap \<Rightarrow> bool" where
  "never_fails h \<longleftrightarrow> (\<forall>a. \<not> mem_fail h a)"

lemma never_failsD [simp]: "never_fails h \<Longrightarrow> \<not> mem_fail h a"
  by (simp add: never_fails_def)

end
