(* ===== verification/Hashmap.thy ===== *)
theory Hashmap
  imports Heap_Ownership
begin

text \<open>
  The chained hash table of \<open>libcutils/hashmap.c\<close>.

  Keys and values are pointers: a key is an element of a type \<open>'k\<close> on which \<open>=\<close> is equality of
  pointers, a value is \<open>None\<close> for \<open>NULL\<close>. The functions \<open>hash\<close> and \<open>equals\<close> of a map are fields of its
  record, as in the source. A chain of entries linked by \<open>next\<close> is a list; every entry has an address, so that
  the walk of \<open>hashmapForEach\<close>, whose callback may change the map, follows the entries as they are
  when it reaches them. Integers: \<open>int\<close> hashes are \<open>32 word\<close> (the arithmetic of \<open>hashKey\<close> wraps),
  \<open>size_t\<close> is an \<open>int\<close> reduced by \<open>u64\<close>.

  The abstraction of a map is the function \<open>hm_lookup\<close> from keys to values, up to \<open>equals\<close>.
\<close>

unbundle bit_operations_syntax

section \<open>The code\<close>

record ('k, 'v) Entry =
  entry_addr :: nat
  entry_key :: 'k
  entry_hash :: "32 word"
  entry_value :: "'v option"

record ('k, 'v) Hashmap =
  map_addr :: nat
  buckets_addr :: nat
  buckets :: "('k, 'v) Entry list list"
  bucketCount :: int
  hash :: "'k \<Rightarrow> 32 word"
  equals :: "'k \<Rightarrow> 'k \<Rightarrow> bool"
  map_size :: int

text \<open>
  The doubling loop of \<open>hashmapCreate\<close>. It starts at 1 and its bound is below \<open>2^63\<close>, so the shift does not
  wrap (\<open>double_until_bounds\<close>); \<open>0 < n\<close> holds throughout.
\<close>

function double_until :: "int \<Rightarrow> int \<Rightarrow> int" where
  "double_until minimum n =
     (if 0 < n \<and> n \<le> minimum then double_until minimum (n * 2) else n)"
  by pat_completeness auto
termination
  by (relation "measure (\<lambda>(minimum, n). nat (minimum + 1 - n))") auto

declare double_until.simps [simp del]

definition hashmapCreate ::
    "int \<Rightarrow> ('k \<Rightarrow> 32 word) \<Rightarrow> ('k \<Rightarrow> 'k \<Rightarrow> bool) \<Rightarrow> heap \<Rightarrow> ('k, 'v) Hashmap option \<times> heap" where
  "hashmapCreate initialCapacity hash_fn equals_fn h =
     (case malloc h of
        (None, h1) \<Rightarrow> (None, h1)
      | (Some a, h1) \<Rightarrow>
          let minimumBucketCount = u64 (initialCapacity * 4) div 3;
              n = double_until minimumBucketCount 1
          in case malloc h1 of
               (None, h2) \<Rightarrow> (None, free_at a h2)
             | (Some b, h2) \<Rightarrow>
                 (Some \<lparr>map_addr = a, buckets_addr = b, buckets = replicate (nat n) [], bucketCount = n,
                    hash = hash_fn, equals = equals_fn, map_size = 0\<rparr>, h2))"

definition hashKey :: "('k, 'v) Hashmap \<Rightarrow> 'k \<Rightarrow> 32 word" where
  "hashKey hm key =
     (let h = hash hm key;
          h = h + NOT (push_bit 9 h);
          h = h XOR drop_bit 14 h;
          h = h + push_bit 4 h;
          h = h XOR drop_bit 10 h
      in h)"

definition hashmapSize :: "('k, 'v) Hashmap \<Rightarrow> int" where
  "hashmapSize hm = map_size hm"

definition calculateIndex :: "int \<Rightarrow> 32 word \<Rightarrow> nat" where
  "calculateIndex n h = unat ((signed h :: 64 word) AND (word_of_int n - 1))"

text \<open>Moving an entry to the front of its new chain.\<close>

definition move_entry :: "int \<Rightarrow> ('k, 'v) Entry \<Rightarrow> ('k, 'v) Entry list list \<Rightarrow> ('k, 'v) Entry list list" where
  "move_entry newBucketCount entry newBuckets =
     (let index = calculateIndex newBucketCount (entry_hash entry)
      in newBuckets[index := entry # newBuckets ! index])"

text \<open>Growing. A failed \<open>calloc\<close> is not reported, but \<open>calloc\<close> has set \<open>errno\<close>, which the callers may see.\<close>

definition expandIfNecessary :: "('k, 'v) Hashmap \<Rightarrow> heap \<Rightarrow> int option \<times> ('k, 'v) Hashmap \<times> heap" where
  "expandIfNecessary hm h =
     (if map_size hm > u64 (bucketCount hm * 3) div 4
      then let newBucketCount = u64 (bucketCount hm * 2)
           in case malloc h of
                (None, h1) \<Rightarrow> (Some ENOMEM, hm, h1)
              | (Some b, h1) \<Rightarrow>
                  (None,
                   hm\<lparr>buckets := fold (fold (move_entry newBucketCount)) (buckets hm) (replicate (nat newBucketCount) []),
                     buckets_addr := b, bucketCount := newBucketCount\<rparr>, free_at (buckets_addr hm) h1)
      else (None, hm, h))"

definition hashmapFree :: "('k, 'v) Hashmap \<Rightarrow> heap \<Rightarrow> heap" where
  "hashmapFree hm h =
     free_at (map_addr hm) (free_at (buckets_addr hm) (fold (fold (\<lambda>entry. free_at (entry_addr entry))) (buckets hm) h))"

text \<open>\<open>char\<close> is signed: \<open>signed\<close> extends its sign.\<close>

definition hashmapHash :: "8 word list \<Rightarrow> 32 word" where
  "hashmapHash data = foldl (\<lambda>h c. h * 31 + signed c) (of_nat (length data)) data"

definition createEntry :: "'k \<Rightarrow> 32 word \<Rightarrow> 'v option \<Rightarrow> heap \<Rightarrow> ('k, 'v) Entry option \<times> heap" where
  "createEntry key h value mm =
     (case malloc mm of
        (None, m1) \<Rightarrow> (None, m1)
      | (Some a, m1) \<Rightarrow> (Some \<lparr>entry_addr = a, entry_key = key, entry_hash = h, entry_value = value\<rparr>, m1))"

definition equalKeys :: "'k \<Rightarrow> 32 word \<Rightarrow> 'k \<Rightarrow> 32 word \<Rightarrow> ('k \<Rightarrow> 'k \<Rightarrow> bool) \<Rightarrow> bool" where
  "equalKeys keyA hashA keyB hashB eq =
     (if keyA = keyB then True else if hashA \<noteq> hashB then False else eq keyA keyB)"

text \<open>The chain an operation walks, and the walk to the first entry with the key.\<close>

definition bucket :: "('k, 'v) Hashmap \<Rightarrow> 'k \<Rightarrow> (nat \<times> ('k, 'v) Entry list) res" where
  "bucket hm key =
     (let index = calculateIndex (bucketCount hm) (hashKey hm key)
      in if index < length (buckets hm) then Inr (index, buckets hm ! index) else Inl Out_of_bounds)"

fun find_entry :: "('k, 'v) Hashmap \<Rightarrow> 'k \<Rightarrow> ('k, 'v) Entry list \<Rightarrow> ('k, 'v) Entry option" where
  "find_entry hm key [] = None"
| "find_entry hm key (entry # rest) =
     (if equalKeys (entry_key entry) (entry_hash entry) key (hashKey hm key) (equals hm) then Some entry
      else find_entry hm key rest)"

text \<open>The value of the first entry with the key replaced; the old value.\<close>

fun replace_value :: "('k, 'v) Hashmap \<Rightarrow> 'k \<Rightarrow> 'v option \<Rightarrow> ('k, 'v) Entry list \<Rightarrow> ('k, 'v) Entry list" where
  "replace_value hm key value [] = []"
| "replace_value hm key value (entry # rest) =
     (if equalKeys (entry_key entry) (entry_hash entry) key (hashKey hm key) (equals hm)
      then entry\<lparr>entry_value := value\<rparr> # rest
      else entry # replace_value hm key value rest)"

fun unlink_entry :: "('k, 'v) Hashmap \<Rightarrow> 'k \<Rightarrow> ('k, 'v) Entry list \<Rightarrow> ('k, 'v) Entry list" where
  "unlink_entry hm key [] = []"
| "unlink_entry hm key (entry # rest) =
     (if equalKeys (entry_key entry) (entry_hash entry) key (hashKey hm key) (equals hm) then rest
      else entry # unlink_entry hm key rest)"

definition append_entry :: "('k, 'v) Hashmap \<Rightarrow> nat \<Rightarrow> ('k, 'v) Entry \<Rightarrow> ('k, 'v) Hashmap" where
  "append_entry hm index entry =
     hm\<lparr>buckets := (buckets hm)[index := buckets hm ! index @ [entry]], map_size := u64 (map_size hm + 1)\<rparr>"

text \<open>
  \<open>hashmapPut\<close> and \<open>hashmapMemoize\<close> return the pointer, the \<open>errno\<close> they or the allocator set if any, and the map.
\<close>

definition hashmapPut ::
    "('k, 'v) Hashmap \<Rightarrow> 'k \<Rightarrow> 'v option \<Rightarrow> heap \<Rightarrow> ('v option \<times> int option \<times> ('k, 'v) Hashmap) res \<times> heap" where
  "hashmapPut hm key value h =
     (case bucket hm key of
        Inl e \<Rightarrow> (Inl e, h)
      | Inr (index, chain) \<Rightarrow>
          (case find_entry hm key chain of
             Some current \<Rightarrow>
               (Inr (entry_value current, None, hm\<lparr>buckets := (buckets hm)[index := replace_value hm key value chain]\<rparr>), h)
           | None \<Rightarrow>
               (case createEntry key (hashKey hm key) value h of
                  (None, h1) \<Rightarrow> (Inr (None, Some ENOMEM, hm), h1)
                | (Some entry, h1) \<Rightarrow>
                    (case expandIfNecessary (append_entry hm index entry) h1 of
                       (errno, map1, h2) \<Rightarrow> (Inr (None, errno, map1), h2)))))"

definition hashmapGet :: "('k, 'v) Hashmap \<Rightarrow> 'k \<Rightarrow> 'v option res" where
  "hashmapGet hm key =
     rbind (bucket hm key) (\<lambda>(_, chain).
       Inr (case find_entry hm key chain of Some entry \<Rightarrow> entry_value entry | None \<Rightarrow> None))"

definition hashmapContainsKey :: "('k, 'v) Hashmap \<Rightarrow> 'k \<Rightarrow> bool res" where
  "hashmapContainsKey hm key =
     rbind (bucket hm key) (\<lambda>(_, chain). Inr (find_entry hm key chain \<noteq> None))"

text \<open>
  \<open>hashmapMemoize\<close>. The entry is linked before \<open>initialValue\<close> runs; the callback gets the context,
  which it may change, and not the map.
\<close>

definition hashmapMemoize ::
    "('k, 'v) Hashmap \<Rightarrow> 'k \<Rightarrow> ('k \<Rightarrow> 'c \<Rightarrow> 'v option \<times> 'c) \<Rightarrow> 'c \<Rightarrow> heap
     \<Rightarrow> ('v option \<times> int option \<times> ('k, 'v) Hashmap \<times> 'c) res \<times> heap" where
  "hashmapMemoize hm key initialValue context h =
     (case bucket hm key of
        Inl e \<Rightarrow> (Inl e, h)
      | Inr (index, chain) \<Rightarrow>
          (case find_entry hm key chain of
             Some current \<Rightarrow> (Inr (entry_value current, None, hm, context), h)
           | None \<Rightarrow>
               (case createEntry key (hashKey hm key) None h of
                  (None, h1) \<Rightarrow> (Inr (None, Some ENOMEM, hm, context), h1)
                | (Some entry, h1) \<Rightarrow>
                    (case initialValue key context of
                       (value, context1) \<Rightarrow>
                         (case expandIfNecessary (append_entry hm index (entry\<lparr>entry_value := value\<rparr>)) h1 of
                            (errno, map1, h2) \<Rightarrow> (Inr (value, errno, map1, context1), h2))))))"

definition hashmapRemove ::
    "('k, 'v) Hashmap \<Rightarrow> 'k \<Rightarrow> heap \<Rightarrow> ('v option \<times> ('k, 'v) Hashmap) res \<times> heap" where
  "hashmapRemove hm key h =
     (case bucket hm key of
        Inl e \<Rightarrow> (Inl e, h)
      | Inr (index, chain) \<Rightarrow>
          (case find_entry hm key chain of
             None \<Rightarrow> (Inr (None, hm), h)
           | Some current \<Rightarrow>
               (Inr (entry_value current,
                  hm\<lparr>buckets := (buckets hm)[index := unlink_entry hm key chain], map_size := u64 (map_size hm - 1)\<rparr>),
                free_at (entry_addr current) h)))"

text \<open>
  \<open>hashmapForEach\<close>. The callback may change the map; the walk holds the address of an entry, and
  reads the entry, and the address of the next one, when it gets there.
\<close>

definition first_addr :: "('k, 'v) Entry list \<Rightarrow> nat option" where
  "first_addr chain = (case chain of [] \<Rightarrow> None | entry # _ \<Rightarrow> Some (entry_addr entry))"

fun locate_chain :: "nat \<Rightarrow> ('k, 'v) Entry list \<Rightarrow> (('k, 'v) Entry \<times> nat option) option" where
  "locate_chain a [] = None"
| "locate_chain a (entry # rest) =
     (if entry_addr entry = a then Some (entry, first_addr rest) else locate_chain a rest)"

fun locate :: "nat \<Rightarrow> ('k, 'v) Entry list list \<Rightarrow> (('k, 'v) Entry \<times> nat option) option" where
  "locate a [] = None"
| "locate a (chain # cs) = (case locate_chain a chain of None \<Rightarrow> locate a cs | Some r \<Rightarrow> Some r)"

type_synonym ('k, 'v, 'c) callback =
  "'k \<Rightarrow> 'v option \<Rightarrow> ('k, 'v) Hashmap \<Rightarrow> 'c \<Rightarrow> (bool \<times> ('k, 'v) Hashmap \<times> 'c) res"

partial_function (option) for_each_loop ::
    "('k, 'v, 'c) callback \<Rightarrow> ('k, 'v) Hashmap \<Rightarrow> 'c \<Rightarrow> nat \<Rightarrow> nat option \<Rightarrow> (('k, 'v) Hashmap \<times> 'c) res option" where
  "for_each_loop callback hm context i entry =
     (case entry of
        None \<Rightarrow>
          (if int i < bucketCount hm
           then if i < length (buckets hm)
                then for_each_loop callback hm context (Suc i) (first_addr (buckets hm ! i))
                else Some (Inl Out_of_bounds)
           else Some (Inr (hm, context)))
      | Some a \<Rightarrow>
          (case locate a (buckets hm) of
             None \<Rightarrow> Some (Inl Use_after_free)
           | Some (e, next) \<Rightarrow>
               (case callback (entry_key e) (entry_value e) hm context of
                  Inl f \<Rightarrow> Some (Inl f)
                | Inr (continue, map1, context1) \<Rightarrow>
                    if continue then for_each_loop callback map1 context1 i next
                    else Some (Inr (map1, context1)))))"

definition hashmapForEach ::
    "('k, 'v) Hashmap \<Rightarrow> ('k, 'v, 'c) callback \<Rightarrow> 'c \<Rightarrow> (('k, 'v) Hashmap \<times> 'c) res option" where
  "hashmapForEach hm callback context = for_each_loop callback hm context 0 None"

definition hashmapCurrentCapacity :: "('k, 'v) Hashmap \<Rightarrow> int" where
  "hashmapCurrentCapacity hm = u64 (bucketCount hm * 3) div 4"

fun chain_collisions :: "('k, 'v) Entry list \<Rightarrow> int \<Rightarrow> int" where
  "chain_collisions [] collisions = collisions"
| "chain_collisions (entry # rest) collisions =
     chain_collisions rest (if rest \<noteq> [] then u64 (collisions + 1) else collisions)"

definition hashmapCountCollisions :: "('k, 'v) Hashmap \<Rightarrow> int" where
  "hashmapCountCollisions hm = fold chain_collisions (buckets hm) 0"

text \<open>The key utilities; the key is the pointed-to \<open>int\<close>.\<close>

definition hashmapIntHash :: "32 word \<Rightarrow> 32 word" where
  "hashmapIntHash key = key"

definition hashmapIntEquals :: "32 word \<Rightarrow> 32 word \<Rightarrow> bool" where
  "hashmapIntEquals keyA keyB \<longleftrightarrow> keyA = keyB"

end
