(* ===== verification/Hashmap_Correct.thy ===== *)
theory Hashmap_Correct
  imports Hashmap
begin

text \<open>
  Correctness of \<open>libcutils/hashmap.c\<close>. \<open>hm_ok\<close> is the invariant (a power of two of chains, every entry in the
  chain of its hash, keys distinct up to \<open>equals\<close>), \<open>hm_lookup\<close> the abstraction to a function from keys to values.
  Each operation keeps the first and refines an operation on the second; what a client needs of that is the
  locale \<open>dictionary\<close>. The locale \<open>walker\<close> is the contract between \<open>hashmapForEach\<close> and its callbacks, which
  may remove the entry they are called with.
\<close>

section \<open>The invariant\<close>

definition entries :: "('k, 'v) Hashmap \<Rightarrow> ('k, 'v) Entry list" where
  "entries hm = concat (buckets hm)"

text \<open>What \<open>hashmapCreate\<close> expects of its arguments: equality of keys that equal hashes respect.\<close>

definition keys_ok :: "('k, 'v) Hashmap \<Rightarrow> bool" where
  "keys_ok hm \<longleftrightarrow> equivp (equals hm) \<and> (\<forall>a b. equals hm a b \<longrightarrow> hash hm a = hash hm b)"

definition placed :: "('k, 'v) Hashmap \<Rightarrow> int \<Rightarrow> ('k, 'v) Entry list list \<Rightarrow> bool" where
  "placed hm n bs \<longleftrightarrow>
     (\<forall>i < length bs. \<forall>e \<in> set (bs ! i). entry_hash e = hashKey hm (entry_key e) \<and> calculateIndex n (hashKey hm (entry_key e)) = i)"

definition distinct_keys :: "('k, 'v) Hashmap \<Rightarrow> ('k, 'v) Entry list \<Rightarrow> bool" where
  "distinct_keys hm es \<longleftrightarrow>
     distinct es \<and> (\<forall>a \<in> set es. \<forall>b \<in> set es. equals hm (entry_key a) (entry_key b) \<longrightarrow> a = b)"

definition hm_ok :: "('k, 'v) Hashmap \<Rightarrow> bool" where
  "hm_ok hm \<longleftrightarrow>
     keys_ok hm \<and> (\<exists>k < 62. bucketCount hm = 2 ^ k) \<and> int (length (buckets hm)) = bucketCount hm \<and>
     map_size hm = int (length (entries hm)) \<and> map_size hm \<le> 2 ^ 60 \<and> placed hm (bucketCount hm) (buckets hm) \<and> distinct_keys hm (entries hm)"

text \<open>The blocks of memory a map owns.\<close>

definition owned :: "('k, 'v) Hashmap \<Rightarrow> nat list" where
  "owned hm = map_addr hm # buckets_addr hm # map entry_addr (entries hm)"

text \<open>The abstraction: what the map holds for a key.\<close>

definition hm_lookup :: "('k, 'v) Hashmap \<Rightarrow> 'k \<Rightarrow> 'v option option" where
  "hm_lookup hm key = map_option entry_value (find (\<lambda>e. equals hm (entry_key e) key) (entries hm))"

lemma hashKey_cong: "hash hm' = hash hm \<Longrightarrow> hashKey hm' key = hashKey hm key"
  by (simp add: hashKey_def)

lemma hashKey_equals: "keys_ok hm \<Longrightarrow> equals hm a b \<Longrightarrow> hashKey hm a = hashKey hm b"
  by (simp add: hashKey_def keys_ok_def Let_def)

lemma keys_ok_refl [simp]: "keys_ok hm \<Longrightarrow> equals hm a a"
  by (simp add: keys_ok_def equivp_reflp)

lemma keys_ok_sym: "keys_ok hm \<Longrightarrow> equals hm a b \<Longrightarrow> equals hm b a"
  using equivp_symp by (auto simp: keys_ok_def)

lemma keys_ok_trans: "keys_ok hm \<Longrightarrow> equals hm a b \<Longrightarrow> equals hm b c \<Longrightarrow> equals hm a c"
  using equivp_transp by (auto simp: keys_ok_def)

lemma calculateIndex_less:
  assumes "n = 2 ^ k" "k < 63"
  shows "calculateIndex n h < nat n"
proof -
  have "(word_of_int n :: 64 word) - 1 = mask k"
    using assms(1) by (simp add: mask_eq_exp_minus_1 of_int_power)
  then have "calculateIndex n h = unat (take_bit k (signed h :: 64 word))"
    by (simp add: calculateIndex_def take_bit_eq_mask)
  also have "\<dots> < 2 ^ k" by (simp add: unsigned_take_bit_eq)
  finally show ?thesis using assms(1) by (simp add: nat_power_eq)
qed

lemma find_unique:
  assumes "distinct_keys hm es" "keys_ok hm"
  shows "find (\<lambda>e. equals hm (entry_key e) key) es = Some e \<longleftrightarrow> e \<in> set es \<and> equals hm (entry_key e) key"
proof
  assume "find (\<lambda>e. equals hm (entry_key e) key) es = Some e"
  then show "e \<in> set es \<and> equals hm (entry_key e) key" by (auto simp: find_Some_iff)
next
  assume e: "e \<in> set es \<and> equals hm (entry_key e) key"
  then obtain e' where e': "find (\<lambda>e. equals hm (entry_key e) key) es = Some e'"
    by (cases "find (\<lambda>e. equals hm (entry_key e) key) es") (auto simp: find_None_iff)
  then have "e' \<in> set es" "equals hm (entry_key e') key" by (auto simp: find_Some_iff)
  moreover have "equals hm (entry_key e) (entry_key e')"
    using e calculation(2) keys_ok_trans [OF assms(2)] keys_ok_sym [OF assms(2)] by blast
  ultimately show "find (\<lambda>e. equals hm (entry_key e) key) es = Some e"
    using e e' assms(1) by (auto simp: distinct_keys_def)
qed

lemma find_none: "find (\<lambda>e. equals hm (entry_key e) key) es = None \<longleftrightarrow> (\<forall>e \<in> set es. \<not> equals hm (entry_key e) key)"
  by (auto simp: find_None_iff)

lemma hm_lookup_Some:
  assumes "distinct_keys hm (entries hm)" "keys_ok hm"
  shows "hm_lookup hm key = Some v \<longleftrightarrow> (\<exists>e \<in> set (entries hm). equals hm (entry_key e) key \<and> entry_value e = v)"
  using find_unique [OF assms, of key] by (auto simp: hm_lookup_def)

lemma hm_lookup_None: "hm_lookup hm key = None \<longleftrightarrow> (\<forall>e \<in> set (entries hm). \<not> equals hm (entry_key e) key)"
  by (simp add: hm_lookup_def find_none)

text \<open>Maps with the same entries hold the same.\<close>

lemma hm_lookup_cong:
  assumes "distinct_keys hm (entries hm)" "keys_ok hm" "equals hm' = equals hm" "mset (entries hm') = mset (entries hm)"
  shows "hm_lookup hm' = hm_lookup hm"
proof
  fix key
  have s: "set (entries hm') = set (entries hm)" using assms(4) by (rule mset_eq_setD)
  show "hm_lookup hm' key = hm_lookup hm key"
  proof (cases "hm_lookup hm key")
    case None
    then show ?thesis using hm_lookup_None [of hm' key] hm_lookup_None [of hm key] s assms(3) by simp
  next
    case (Some v)
    then obtain e where e: "e \<in> set (entries hm)" "equals hm (entry_key e) key" "entry_value e = v"
      using hm_lookup_Some [OF assms(1,2)] by blast
    obtain e' where e': "find (\<lambda>e. equals hm (entry_key e) key) (entries hm') = Some e'"
      using e(1,2) s by (cases "find (\<lambda>e. equals hm (entry_key e) key) (entries hm')") (auto simp: find_None_iff)
    then have "e' \<in> set (entries hm)" "equals hm (entry_key e') key" using s by (auto simp: find_Some_iff)
    then have "e' = e" using e assms(1) keys_ok_trans [OF assms(2)] keys_ok_sym [OF assms(2)] unfolding distinct_keys_def by metis
    then have "hm_lookup hm' key = Some v" using e' e(3) assms(3) by (simp add: hm_lookup_def)
    then show ?thesis using Some by simp
  qed
qed

section \<open>The chain of a key\<close>

lemma placedD:
  assumes "placed hm n bs" "i < length bs" "e \<in> set (bs ! i)"
  shows "entry_hash e = hashKey hm (entry_key e)" "calculateIndex n (hashKey hm (entry_key e)) = i"
  using assms by (simp_all add: placed_def)

lemma equalKeys_eq:
  assumes "keys_ok hm"
  shows "equalKeys a (hashKey hm a) key (hashKey hm key) (equals hm) \<longleftrightarrow> equals hm a key"
  using assms hashKey_equals [OF assms] by (auto simp: equalKeys_def)

lemma find_entry_eq:
  assumes "keys_ok hm" "\<forall>e \<in> set chain. entry_hash e = hashKey hm (entry_key e)"
  shows "find_entry hm key chain = find (\<lambda>e. equals hm (entry_key e) key) chain"
  using assms(2) by (induction chain) (simp_all add: equalKeys_eq [OF assms(1)])

lemma find_append: "find P (xs @ ys) = (case find P xs of Some x \<Rightarrow> Some x | None \<Rightarrow> find P ys)"
  by (induction xs) simp_all

text \<open>The chain, between the chains before it and after it, which hold no entry with the key.\<close>

lemma bucket_split:
  assumes "hm_ok hm"
  obtains B1 chain B2 where "buckets hm = B1 @ chain # B2" "bucket hm key = Inr (length B1, chain)"
    "calculateIndex (bucketCount hm) (hashKey hm key) = length B1"
    "\<forall>e \<in> set (concat B1) \<union> set (concat B2). \<not> equals hm (entry_key e) key"
    "\<forall>e \<in> set chain. entry_hash e = hashKey hm (entry_key e) \<and> calculateIndex (bucketCount hm) (hashKey hm (entry_key e)) = length B1"
    "find_entry hm key chain = find (\<lambda>e. equals hm (entry_key e) key) (entries hm)"
proof -
  define index where "index = calculateIndex (bucketCount hm) (hashKey hm key)"
  have ok: "keys_ok hm" "int (length (buckets hm)) = bucketCount hm" "placed hm (bucketCount hm) (buckets hm)"
    using assms by (auto simp: hm_ok_def)
  obtain k where "bucketCount hm = 2 ^ k" "k < 62" using assms by (auto simp: hm_ok_def)
  then have less: "index < length (buckets hm)"
    using calculateIndex_less [of "bucketCount hm" k "hashKey hm key"] ok(2) by (simp add: index_def nat_power_eq)
  define B1 chain B2 where "B1 = take index (buckets hm)" and "chain = buckets hm ! index" and "B2 = drop (Suc index) (buckets hm)"
  have split: "buckets hm = B1 @ chain # B2" "length B1 = index"
    using less id_take_nth_drop by (auto simp: B1_def chain_def B2_def)
  have other: "\<not> equals hm (entry_key e) key" if e: "e \<in> set (concat B1) \<union> set (concat B2)" for e
  proof
    assume eq: "equals hm (entry_key e) key"
    obtain c where c: "c \<in> set B1 \<union> set B2" "e \<in> set c" using e by auto
    from c(1) have "\<exists>j < length (buckets hm). j \<noteq> index \<and> buckets hm ! j = c"
    proof
      assume "c \<in> set B1"
      then obtain j where "j < length B1" "B1 ! j = c" by (auto simp: in_set_conv_nth)
      then show ?thesis using less by (intro exI [of _ j]) (simp add: B1_def)
    next
      assume "c \<in> set B2"
      then obtain j where "j < length B2" "B2 ! j = c" by (auto simp: in_set_conv_nth)
      then show ?thesis using less by (intro exI [of _ "Suc (index + j)"]) (simp add: B2_def)
    qed
    then obtain j where j: "j < length (buckets hm)" "j \<noteq> index" "buckets hm ! j = c" by blast
    then show False using placedD(2) [OF ok(3) j(1), of e] c(2) hashKey_equals [OF ok(1) eq] by (simp add: index_def)
  qed
  have chain: "\<forall>e \<in> set chain. entry_hash e = hashKey hm (entry_key e) \<and> calculateIndex (bucketCount hm) (hashKey hm (entry_key e)) = length B1"
    using placedD [OF ok(3) less] split(2) by (simp add: chain_def)
  have "find_entry hm key chain = find (\<lambda>e. equals hm (entry_key e) key) (entries hm)"
  proof -
    have "find (\<lambda>e. equals hm (entry_key e) key) (concat B1) = None"
      "find (\<lambda>e. equals hm (entry_key e) key) (concat B2) = None"
      using other by (auto simp: find_None_iff)
    then show ?thesis using find_entry_eq [OF ok(1)] chain split(1)
      by (simp add: entries_def find_append split: option.split)
  qed
  moreover have "bucket hm key = Inr (length B1, chain)"
    using less split(2) by (simp add: bucket_def index_def [symmetric] chain_def Let_def)
  moreover have "calculateIndex (bucketCount hm) (hashKey hm key) = length B1" using split(2) by (simp add: index_def)
  ultimately show ?thesis using that [OF split(1)] other chain by blast
qed

section \<open>Changing one chain\<close>

lemma concat_update:
  "i < length bs \<Longrightarrow> mset (concat (bs[i := c])) + mset (bs ! i) = mset (concat bs) + mset c"
proof -
  assume i: "i < length bs"
  have "mset (concat (bs[i := c])) = mset (concat (take i bs)) + mset c + mset (concat (drop (Suc i) bs))"
    using i by (simp add: upd_conv_take_nth_drop)
  moreover have "mset (concat bs) = mset (concat (take i bs)) + mset (bs ! i) + mset (concat (drop (Suc i) bs))"
    by (subst id_take_nth_drop [OF i]) simp
  ultimately show ?thesis by (simp add: add.commute add.left_commute)
qed

lemma placed_update:
  assumes "placed hm n bs" "\<forall>e \<in> set c. entry_hash e = hashKey hm (entry_key e) \<and> calculateIndex n (hashKey hm (entry_key e)) = i"
  shows "placed hm n (bs[i := c])"
  using assms unfolding placed_def by (cases "i < length bs") (auto simp: nth_list_update)

lemma placed_cong: "hash hm' = hash hm \<Longrightarrow> placed hm' n bs = placed hm n bs"
  by (simp add: placed_def hashKey_cong [of hm' hm])

lemma replace_value_eq:
  assumes "keys_ok hm" "\<forall>e \<in> set chain. entry_hash e = hashKey hm (entry_key e)" "find_entry hm key chain = Some e"
  shows "\<exists>xs ys. chain = xs @ [e] @ ys \<and> (\<forall>v. replace_value hm key v chain = xs @ [e\<lparr>entry_value := v\<rparr>] @ ys)
    \<and> unlink_entry hm key chain = xs @ [] @ ys"
  using assms(2,3)
proof (induction chain)
  case (Cons a chain)
  show ?case
  proof (cases "equals hm (entry_key a) key")
    case True
    then show ?thesis using Cons.prems equalKeys_eq [OF assms(1), of "entry_key a" key]
      by (intro exI [of _ "[]"] exI [of _ chain]) simp
  next
    case False
    with Cons equalKeys_eq [OF assms(1), of "entry_key a" key] obtain xs ys where
      "chain = xs @ [e] @ ys" "\<forall>v. replace_value hm key v chain = xs @ [e\<lparr>entry_value := v\<rparr>] @ ys" "unlink_entry hm key chain = xs @ [] @ ys"
      by auto
    then show ?thesis using False Cons.prems equalKeys_eq [OF assms(1), of "entry_key a" key]
      by (intro exI [of _ "a # xs"] exI [of _ ys]) simp
  qed
qed simp

section \<open>Growing\<close>

lemma move_entry_ok:
  assumes "calculateIndex n (entry_hash e) < length bs" "entry_hash e = hashKey hm (entry_key e)" "placed hm n bs"
  shows "length (move_entry n e bs) = length bs" "mset (concat (move_entry n e bs)) = add_mset e (mset (concat bs))"
    "placed hm n (move_entry n e bs)"
proof -
  let ?i = "calculateIndex n (entry_hash e)"
  show "length (move_entry n e bs) = length bs" by (simp add: move_entry_def Let_def)
  have "mset (concat (bs[?i := e # bs ! ?i])) + mset (bs ! ?i) = add_mset e (mset (concat bs)) + mset (bs ! ?i)"
    using concat_update [OF assms(1), of "e # bs ! ?i"] by simp
  then show "mset (concat (move_entry n e bs)) = add_mset e (mset (concat bs))"
    by (simp add: move_entry_def Let_def)
  show "placed hm n (move_entry n e bs)"
    unfolding move_entry_def Let_def using assms placedD [OF assms(3,1)]
    by (intro placed_update) auto
qed

lemma move_entries_ok:
  assumes "\<forall>e \<in> set es. entry_hash e = hashKey hm (entry_key e)" "\<forall>h. calculateIndex n h < length bs" "placed hm n bs"
  shows "length (fold (move_entry n) es bs) = length bs
    \<and> mset (concat (fold (move_entry n) es bs)) = mset es + mset (concat bs) \<and> placed hm n (fold (move_entry n) es bs)"
  using assms
proof (induction es arbitrary: bs)
  case (Cons e es)
  then show ?case using move_entry_ok [of n e bs hm] by simp
qed simp

lemma fold_concat: "fold (fold f) xss s = fold f (concat xss) s"
  by (induction xss arbitrary: s) simp_all

lemma placed_hash: "placed hm n bs \<Longrightarrow> e \<in> set (concat bs) \<Longrightarrow> entry_hash e = hashKey hm (entry_key e)"
  by (metis UN_E in_set_conv_nth placedD(1) set_concat)

lemma pow2_three_quarters:
  assumes "c = 2 ^ k" "k < 62"
  shows "u64 (c * 3) = c * 3" "u64 (c * 2) = c * 2" "0 < c" "c * 2 = 2 ^ Suc k"
proof -
  have "c \<le> 2 ^ 61" unfolding assms(1) using assms(2) by (intro power_increasing) simp_all
  moreover show "0 < c" using assms by simp
  ultimately show "u64 (c * 3) = c * 3" "u64 (c * 2) = c * 2" by (simp_all add: u64_id)
  show "c * 2 = 2 ^ Suc k" using assms by simp
qed

lemma distinct_keys_mset:
  "distinct_keys hm es \<Longrightarrow> mset es' = mset es \<Longrightarrow> equals hm' = equals hm \<Longrightarrow> distinct_keys hm' es'"
  by (auto simp: distinct_keys_def dest: mset_eq_setD mset_eq_imp_distinct_iff)

lemma mset_owned: "mset (owned hm) = {#map_addr hm, buckets_addr hm#} + image_mset entry_addr (mset (entries hm))"
  by (simp add: owned_def)

text \<open>Growing keeps the entries; it gives back the old array exactly when it has a new one.\<close>

lemma expandIfNecessary_ok:
  assumes ok: "hm_ok hm"
  obtains err hm' h' where "expandIfNecessary hm h = (err, hm', h')" "hm_ok hm'" "grows (owned hm) h (owned hm') h'" "mset (entries hm') = mset (entries hm)"
    "equals hm' = equals hm" "hash hm' = hash hm" "map_size hm' = map_size hm" "map_addr hm' = map_addr hm"
    "mem_fail h' = mem_fail h" "mem_next h \<le> mem_next h'" "hm_lookup hm' = hm_lookup hm"
    "bucketCount hm' = bucketCount hm \<or> bucketCount hm' = 2 * bucketCount hm"
    "\<forall>a. \<not> mem_fail h a \<Longrightarrow> map_size hm \<le> bucketCount hm * 3 div 4 + 1 \<Longrightarrow> map_size hm' \<le> bucketCount hm' * 3 div 4"
    "err = (if map_size hm > hashmapCurrentCapacity hm \<and> mem_fail h (mem_next h) then Some ENOMEM else None)"
proof -
  obtain k where k: "bucketCount hm = 2 ^ k" "k < 62" using ok by (auto simp: hm_ok_def)
  note p = pow2_three_quarters [OF k]
  have hm: "keys_ok hm" "int (length (buckets hm)) = bucketCount hm" "map_size hm = int (length (entries hm))"
    "placed hm (bucketCount hm) (buckets hm)" "distinct_keys hm (entries hm)" and room: "map_size hm \<le> 2 ^ 60"
    using ok by (auto simp: hm_ok_def)
  have cap: "hashmapCurrentCapacity hm = bucketCount hm * 3 div 4" by (simp add: hashmapCurrentCapacity_def p(1))
  show ?thesis
  proof (cases "map_size hm > bucketCount hm * 3 div 4")
    case False
    then have "expandIfNecessary hm h = (None, hm, h)" by (simp add: expandIfNecessary_def p(1,2))
    then show ?thesis using that [of None hm h] ok False cap by simp
  next
    case True
    show ?thesis
    proof (cases rule: malloc_cases [of h])
      case fail
      then have "expandIfNecessary hm h = (Some ENOMEM, hm, h\<lparr>mem_next := Suc (mem_next h)\<rparr>)"
        using True by (simp add: expandIfNecessary_def p(1,2))
      moreover have "grows (owned hm) h (owned hm) (h\<lparr>mem_next := Suc (mem_next h)\<rparr>)" by (rule grows_malloc(2)) (rule fail)
      ultimately show ?thesis using that [of "Some ENOMEM" hm "h\<lparr>mem_next := Suc (mem_next h)\<rparr>"] ok fail True cap by auto
    next
      case success
      define n where "n = bucketCount hm * 2"
      define bs where "bs = fold (fold (move_entry n)) (buckets hm) (replicate (nat n) [])"
      define hm' where "hm' = hm\<lparr>buckets := bs, buckets_addr := mem_next h, bucketCount := n\<rparr>"
      define h' where "h' = free_at (buckets_addr hm) (h\<lparr>mem_next := Suc (mem_next h)\<rparr>)"
      have small: "k < 61"
      proof (rule ccontr)
        assume "\<not> k < 61"
        then have "(2::int) ^ 61 \<le> bucketCount hm" unfolding k(1) by (intro power_increasing) simp_all
        then show False using True room by simp
      qed
      have n: "n = 2 ^ Suc k" "0 < n" using p by (simp_all add: n_def)
      have idx: "calculateIndex n e < length (replicate (nat n) [])" for e
        using calculateIndex_less [OF n(1), of e] small by simp
      have b: "length bs = nat n" "mset (concat bs) = mset (entries hm)" "placed hm n bs"
        using move_entries_ok [of "concat (buckets hm)" hm n "replicate (nat n) []"] placed_hash [OF hm(4)] idx
        by (auto simp: bs_def fold_concat entries_def placed_def)
      have e: "mset (entries hm') = mset (entries hm)" using b(2) by (simp add: entries_def hm'_def)
      have eq: "expandIfNecessary hm h = (None, hm', h')"
        using True success by (simp add: expandIfNecessary_def p(1,2) hm'_def h'_def n_def bs_def Let_def)
      have keys: "keys_ok hm'" using hm(1) by (simp add: keys_ok_def hm'_def)
      have len: "length (entries hm') = length (entries hm)" using e by (metis size_mset)
      have "placed hm' n bs" using b(3) placed_cong [of hm' hm] by (simp add: hm'_def)
      then have "hm_ok hm'"
        unfolding hm_ok_def using keys n small b hm(3,5) room len distinct_keys_mset [OF hm(5) e]
        by (intro conjI exI [of _ "Suc k"]) (auto simp: hm'_def)
      moreover have "grows (owned hm) h (owned hm') h'"
        by (rule growsI [of _ _ "[mem_next h]"])
          (use mset_owned [of hm'] mset_owned [of hm] e in \<open>simp_all add: h'_def hm'_def\<close>)
      moreover have "hm_lookup hm' = hm_lookup hm"
        by (rule hm_lookup_cong [OF hm(5,1)]) (use e in \<open>simp_all add: hm'_def\<close>)
      moreover have "map_size hm \<le> n * 3 div 4" if "map_size hm \<le> bucketCount hm * 3 div 4 + 1"
        using that p(3) by (simp add: n_def)
      ultimately show ?thesis using that [OF eq] e success(1) by (simp add: hm'_def h'_def n_def)
    qed
  qed
qed

section \<open>The operations on the abstraction\<close>

text \<open>The entries when one chain is replaced by \<open>xs @ mid @ ys\<close>.\<close>

lemma entries_upd:
  assumes "buckets hm = B1 @ (xs @ old @ ys) # B2"
  shows "entries hm = (concat B1 @ xs) @ old @ (ys @ concat B2)"
    "concat ((buckets hm)[length B1 := xs @ mid @ ys]) = (concat B1 @ xs) @ mid @ (ys @ concat B2)"
  using assms by (simp_all add: entries_def list_update_append)

lemma hm_ok_upd:
  assumes ok: "hm_ok hm" and chain: "buckets hm = B1 @ (xs @ old @ ys) # B2"
    and mid: "\<forall>e \<in> set mid. entry_hash e = hashKey hm (entry_key e) \<and> calculateIndex (bucketCount hm) (hashKey hm (entry_key e)) = length B1"
    and keys: "distinct_keys hm ((concat B1 @ xs) @ mid @ (ys @ concat B2))"
    and size: "n = map_size hm + int (length mid) - int (length old)" "n \<le> 2 ^ 60"
  shows "hm_ok (hm\<lparr>buckets := (buckets hm)[length B1 := xs @ mid @ ys], map_size := n\<rparr>)" (is "hm_ok ?hm")
proof -
  have p: "placed hm (bucketCount hm) (buckets hm)" using ok by (simp add: hm_ok_def)
  have "\<forall>e \<in> set (xs @ mid @ ys). entry_hash e = hashKey hm (entry_key e) \<and> calculateIndex (bucketCount hm) (hashKey hm (entry_key e)) = length B1"
    using mid placedD [OF p, of "length B1"] chain by auto
  then have "placed hm (bucketCount hm) (buckets ?hm)" using placed_update [OF p] by simp
  then have "placed ?hm (bucketCount ?hm) (buckets ?hm)" using placed_cong [of ?hm hm] by simp
  moreover have "distinct_keys ?hm (entries ?hm)"
    using keys entries_upd(2) [OF chain, of mid] by (simp add: distinct_keys_def entries_def)
  moreover have "n = int (length (entries ?hm))"
    using size(1) ok entries_upd(1) [OF chain] entries_upd(2) [OF chain, of mid] by (simp add: hm_ok_def entries_def)
  ultimately show ?thesis using ok size(2) by (simp add: hm_ok_def keys_ok_def)
qed

lemma createEntry_cases:
  obtains (fail) "mem_fail h (mem_next h)" "createEntry key k v h = (None, h\<lparr>mem_next := Suc (mem_next h)\<rparr>)"
  | (success) "\<not> mem_fail h (mem_next h)"
      "createEntry key k v h = (Some \<lparr>entry_addr = mem_next h, entry_key = key, entry_hash = k, entry_value = v\<rparr>,
         h\<lparr>mem_next := Suc (mem_next h)\<rparr>)"
  by (cases rule: malloc_cases [of h]) (auto simp: createEntry_def)

text \<open>A new entry for a key the map does not hold.\<close>

lemma add_entry_ok:
  assumes ok: "hm_ok hm" and room: "map_size hm < 2 ^ 60"
    and split: "buckets hm = B1 @ chain # B2" "calculateIndex (bucketCount hm) (hashKey hm key) = length B1"
    and none: "hm_lookup hm key = None"
    and e_def: "e = \<lparr>entry_addr = mem_next h, entry_key = key, entry_hash = hashKey hm key, entry_value = v\<rparr>"
  defines "hm1 \<equiv> append_entry hm (length B1) e" and "h1 \<equiv> h\<lparr>mem_next := Suc (mem_next h)\<rparr>"
  shows "hm_ok hm1" "grows (owned hm) h (owned hm1) h1" "map_size hm1 = map_size hm + 1" "equals hm1 = equals hm" "hash hm1 = hash hm"
    "hm_lookup hm1 = (\<lambda>k. if equals hm key k then Some v else hm_lookup hm k)" "bucketCount hm1 = bucketCount hm"
    "mset (entries hm1) = add_mset e (mset (entries hm))"
proof -
  have keys: "keys_ok hm" "distinct_keys hm (entries hm)" and size: "map_size hm = int (length (entries hm))"
    using ok by (auto simp: hm_ok_def)
  have u: "u64 (map_size hm + 1) = map_size hm + 1" using room size by (simp add: u64_id)
  have other: "\<forall>c \<in> set (entries hm). \<not> equals hm (entry_key c) key" using none by (simp add: hm_lookup_None)
  have hm1: "hm1 = hm\<lparr>buckets := (buckets hm)[length B1 := chain @ [e] @ []], map_size := map_size hm + 1\<rparr>"
    using split(1) u by (simp add: hm1_def append_entry_def)
  have chain: "buckets hm = B1 @ (chain @ [] @ []) # B2" using split(1) by simp
  note en = entries_upd(1) [OF chain] entries_upd(2) [OF chain, of "[e]"]
  show ent: "mset (entries hm1) = add_mset e (mset (entries hm))"
    using en unfolding hm1 by (simp add: entries_def)
  have "e \<notin> set (entries hm)" using other keys(1) by (auto simp: e_def)
  moreover have "\<not> equals hm key (entry_key c)" if "c \<in> set (entries hm)" for c
    using that other keys_ok_sym [OF keys(1)] by blast
  ultimately have "distinct_keys hm (e # entries hm)" using keys other by (auto simp: distinct_keys_def e_def)
  then have dk: "distinct_keys hm ((concat B1 @ chain) @ [e] @ ([] @ concat B2))"
    by (rule distinct_keys_mset) (use en(1) in simp_all)
  show ok1: "hm_ok hm1" unfolding hm1
    by (rule hm_ok_upd [OF ok chain _ dk]) (use split(2) room in \<open>simp_all add: e_def\<close>)
  show "grows (owned hm) h (owned hm1) h1"
    by (rule growsI [of _ _ "[mem_next h]"])
      (use mset_owned [of hm1] mset_owned [of hm] ent in \<open>simp_all add: h1_def hm1 e_def\<close>)
  show "map_size hm1 = map_size hm + 1" and eq: "equals hm1 = equals hm" and "hash hm1 = hash hm" "bucketCount hm1 = bucketCount hm"
    by (simp_all add: hm1)
  have keys1: "keys_ok hm1" "distinct_keys hm1 (entries hm1)" using ok1 by (auto simp: hm_ok_def)
  have set1: "set (entries hm1) = insert e (set (entries hm))" using ent by (metis set_mset_add_mset_insert set_mset_mset)
  show "hm_lookup hm1 = (\<lambda>k. if equals hm key k then Some v else hm_lookup hm k)"
  proof
    fix k
    show "hm_lookup hm1 k = (if equals hm key k then Some v else hm_lookup hm k)"
    proof (cases "equals hm key k")
      case True
      then show ?thesis using hm_lookup_Some [OF keys1(2,1), of k v] set1 eq by (simp add: e_def)
    next
      case False
      then have "hm_lookup hm1 k = Some x \<longleftrightarrow> hm_lookup hm k = Some x" for x
        using hm_lookup_Some [OF keys1(2,1), of k x] hm_lookup_Some [OF keys(2,1), of k x] set1 eq by (auto simp: e_def)
      then show ?thesis using False by (metis not_None_eq)
    qed
  qed
qed

text \<open>Replacing an entry by one with the same key, or removing it.\<close>

lemma change_entry_ok:
  assumes ok: "hm_ok hm" and chain: "buckets hm = B1 @ (xs @ [e] @ ys) # B2"
    and key: "equals hm (entry_key e) key" and mid: "mid = [e\<lparr>entry_value := v\<rparr>] \<or> mid = []"
    and n: "n = map_size hm + int (length mid) - 1"
  defines "hm1 \<equiv> hm\<lparr>buckets := (buckets hm)[length B1 := xs @ mid @ ys], map_size := n\<rparr>"
  shows "hm_ok hm1" "hm_lookup hm1 = (\<lambda>k. if equals hm key k then (if mid = [] then None else Some v) else hm_lookup hm k)"
    "mset (owned hm) = mset (owned hm1) + (if mid = [] then {#entry_addr e#} else {#})"
    "add_mset e (mset (entries hm1)) = mset mid + mset (entries hm)"
proof -
  have keys: "keys_ok hm" "distinct_keys hm (entries hm)" using ok by (auto simp: hm_ok_def)
  define as bs where "as = concat B1 @ xs" and "bs = ys @ concat B2"
  have en: "entries hm = as @ [e] @ bs" "entries hm1 = as @ mid @ bs"
    using entries_upd(1) [OF chain] entries_upd(2) [OF chain, of mid] by (simp_all add: as_def bs_def hm1_def entries_def)
  show "add_mset e (mset (entries hm1)) = mset mid + mset (entries hm)" unfolding en by simp
  have other: "\<not> equals hm (entry_key c) key" if "c \<in> set (as @ bs)" for c
  proof
    assume "equals hm (entry_key c) key"
    then have "equals hm (entry_key c) (entry_key e)" using key keys_ok_sym [OF keys(1)] keys_ok_trans [OF keys(1)] by blast
    then show False using that keys(2) en(1) by (auto simp: distinct_keys_def)
  qed
  have dk: "distinct_keys hm (as @ mid @ bs)"
  proof -
    have "e\<lparr>entry_value := v\<rparr> \<notin> set (as @ bs)" using other [of "e\<lparr>entry_value := v\<rparr>"] key by auto
    moreover have "\<not> equals hm (entry_key c) (entry_key e) \<and> \<not> equals hm (entry_key e) (entry_key c)" if "c \<in> set (as @ bs)" for c
      using other [OF that] key keys_ok_sym [OF keys(1)] keys_ok_trans [OF keys(1)] by blast
    ultimately show ?thesis using keys(2) mid unfolding en(1) by (auto simp: distinct_keys_def)
  qed
  have p: "placed hm (bucketCount hm) (buckets hm)" using ok by (simp add: hm_ok_def)
  have "e \<in> set (buckets hm ! length B1)" "length B1 < length (buckets hm)" using chain by simp_all
  moreover have "map_size hm \<le> 2 ^ 60" using ok by (simp add: hm_ok_def)
  moreover note placedD [OF p calculation(2,1)]
  ultimately
  show ok1: "hm_ok hm1" unfolding hm1_def
    by (intro hm_ok_upd [OF ok chain]) (use mid dk n in \<open>auto simp: as_def bs_def\<close>)
  have eq: "equals hm1 = equals hm" by (simp add: hm1_def)
  have keys1: "keys_ok hm1" "distinct_keys hm1 (entries hm1)" using ok1 by (auto simp: hm_ok_def)
  have ek: "equals hm (entry_key e) k \<longleftrightarrow> equals hm key k" for k
    using key keys_ok_sym [OF keys(1)] keys_ok_trans [OF keys(1)] by blast
  have rest: "\<not> equals hm (entry_key c) k" if "c \<in> set (as @ bs)" "equals hm key k" for c k
    using other [OF that(1)] that(2) keys_ok_sym [OF keys(1)] keys_ok_trans [OF keys(1)] by blast
  show "hm_lookup hm1 = (\<lambda>k. if equals hm key k then (if mid = [] then None else Some v) else hm_lookup hm k)"
  proof
    fix k
    have L: "hm_lookup hm1 k = Some x \<longleftrightarrow> (\<exists>c \<in> set (as @ mid @ bs). equals hm (entry_key c) k \<and> entry_value c = x)"
      "hm_lookup hm k = Some x \<longleftrightarrow> (\<exists>c \<in> set (as @ [e] @ bs). equals hm (entry_key c) k \<and> entry_value c = x)" for x
      using hm_lookup_Some [OF keys1(2,1), of k x] hm_lookup_Some [OF keys(2,1), of k x] unfolding en eq by simp_all
    show "hm_lookup hm1 k = (if equals hm key k then (if mid = [] then None else Some v) else hm_lookup hm k)"
    proof (cases "equals hm key k")
      case True
      show ?thesis
      proof (cases "mid = []")
        case m: True
        then show ?thesis using hm_lookup_None [of hm1 k] rest [OF _ True] True unfolding en eq by auto
      next
        case False
        then show ?thesis using mid True L(1) [of v] ek by auto
      qed
    next
      case False
      then have "hm_lookup hm1 k = Some x \<longleftrightarrow> hm_lookup hm k = Some x" for x
        using L mid ek [of k] by auto
      then show ?thesis using False by (metis not_None_eq)
    qed
  qed
  show "mset (owned hm) = mset (owned hm1) + (if mid = [] then {#entry_addr e#} else {#})"
    using mid mset_owned [of hm] mset_owned [of hm1] unfolding en by (auto simp: hm1_def)
qed

lemma hashmapGet_eq: "hm_ok hm \<Longrightarrow> hashmapGet hm key = Inr (Option.bind (hm_lookup hm key) (\<lambda>v. v))"
  by (erule bucket_split [where key = key]) (auto simp: hashmapGet_def hm_lookup_def split: option.split)

lemma hashmapContainsKey_eq: "hm_ok hm \<Longrightarrow> hashmapContainsKey hm key = Inr (hm_lookup hm key \<noteq> None)"
  by (erule bucket_split [where key = key]) (auto simp: hashmapContainsKey_def hm_lookup_def)

text \<open>What an entry found in a chain is.\<close>

lemma found_entry:
  assumes "hm_ok hm" "buckets hm = B1 @ chain # B2" "find_entry hm key chain = find (\<lambda>e. equals hm (entry_key e) key) (entries hm)"
    "\<forall>e \<in> set chain. entry_hash e = hashKey hm (entry_key e) \<and> calculateIndex (bucketCount hm) (hashKey hm (entry_key e)) = length B1"
    "find_entry hm key chain = Some e"
  obtains xs ys where "buckets hm = B1 @ (xs @ [e] @ ys) # B2" "equals hm (entry_key e) key" "hm_lookup hm key = Some (entry_value e)"
    "\<And>v. replace_value hm key v chain = xs @ [e\<lparr>entry_value := v\<rparr>] @ ys" "unlink_entry hm key chain = xs @ [] @ ys"
proof -
  have keys: "keys_ok hm" using assms(1) by (simp add: hm_ok_def)
  have k: "\<forall>e \<in> set chain. entry_hash e = hashKey hm (entry_key e)" using assms(4) by blast
  obtain xs ys where "chain = xs @ [e] @ ys" "\<And>v. replace_value hm key v chain = xs @ [e\<lparr>entry_value := v\<rparr>] @ ys"
    "unlink_entry hm key chain = xs @ [] @ ys" using replace_value_eq [OF keys k assms(5)] by blast
  moreover have "find (\<lambda>e. equals hm (entry_key e) key) (entries hm) = Some e" using assms(3,5) by simp
  then have "equals hm (entry_key e) key" "hm_lookup hm key = Some (entry_value e)"
    by (auto simp: find_Some_iff hm_lookup_def)
  ultimately show ?thesis using that assms(2) by simp
qed


lemma insert_new_ok:
  assumes ok: "hm_ok hm" and room: "map_size hm < 2 ^ 60"
    and split: "buckets hm = B1 @ chain # B2" "calculateIndex (bucketCount hm) (hashKey hm key) = length B1"
    and none: "hm_lookup hm key = None"
    and e_def: "e = \<lparr>entry_addr = mem_next h, entry_key = key, entry_hash = hashKey hm key, entry_value = v\<rparr>"
  shows "\<exists>hm' h'. expandIfNecessary (append_entry hm (length B1) e) (h\<lparr>mem_next := Suc (mem_next h)\<rparr>)
        = (if map_size hm \<ge> hashmapCurrentCapacity hm \<and> mem_fail h (Suc (mem_next h)) then Some ENOMEM else None, hm', h')
    \<and> hm_ok hm' \<and> grows (owned hm) h (owned hm') h' \<and> equals hm' = equals hm \<and> hash hm' = hash hm \<and> map_size hm' = map_size hm + 1
    \<and> mem_fail h' = mem_fail h \<and> hm_lookup hm' = (\<lambda>k. if equals hm key k then Some v else hm_lookup hm k)
    \<and> ((\<forall>a. \<not> mem_fail h a) \<longrightarrow> map_size hm \<le> bucketCount hm * 3 div 4 \<longrightarrow> map_size hm' \<le> bucketCount hm' * 3 div 4)
    \<and> mset (entries hm') = add_mset e (mset (entries hm))"
proof -
  note a = add_entry_ok [OF assms]
  have append: "map_size (append_entry hm (length B1) e) > hashmapCurrentCapacity (append_entry hm (length B1) e)
      \<longleftrightarrow> map_size hm \<ge> hashmapCurrentCapacity hm"
    using ok room by (auto simp: append_entry_def hashmapCurrentCapacity_def u64_id hm_ok_def)
  show ?thesis
    by (rule expandIfNecessary_ok [OF a(1), of "h\<lparr>mem_next := Suc (mem_next h)\<rparr>"])
      (use a(3-8) grows_trans [OF a(2)] append in auto)
qed

text \<open>How a put changes the entries.\<close>

definition put_entries :: "('k, 'v) Hashmap \<Rightarrow> 'k \<Rightarrow> 'v option \<Rightarrow> ('k, 'v) Hashmap \<Rightarrow> bool" where
  "put_entries hm key v hm' \<longleftrightarrow>
     (case find (\<lambda>e. equals hm (entry_key e) key) (entries hm) of
        Some e \<Rightarrow> add_mset e (mset (entries hm')) = add_mset (e\<lparr>entry_value := v\<rparr>) (mset (entries hm))
      | None \<Rightarrow> \<exists>e. entry_key e = key \<and> entry_value e = v \<and> mset (entries hm') = add_mset e (mset (entries hm)))"

text \<open>
  When adding a key fails, and the \<open>errno\<close> it leaves: \<open>ENOMEM\<close> also when only the larger table could not be
  had, and the key was added all the same.
\<close>

definition put_fails :: "('k, 'v) Hashmap \<Rightarrow> 'k \<Rightarrow> heap \<Rightarrow> bool" where
  "put_fails hm key h \<longleftrightarrow> hm_lookup hm key = None \<and> mem_fail h (mem_next h)"

definition grow_fails :: "('k, 'v) Hashmap \<Rightarrow> 'k \<Rightarrow> heap \<Rightarrow> bool" where
  "grow_fails hm key h \<longleftrightarrow>
     hm_lookup hm key = None \<and> hashmapSize hm \<ge> hashmapCurrentCapacity hm \<and> mem_fail h (Suc (mem_next h))"

definition put_errno :: "('k, 'v) Hashmap \<Rightarrow> 'k \<Rightarrow> heap \<Rightarrow> int option" where
  "put_errno hm key h = (if put_fails hm key h \<or> grow_fails hm key h then Some ENOMEM else None)"

lemma put_errno_never: "never_fails h \<Longrightarrow> \<not> put_fails hm key h \<and> put_errno hm key h = None"
  by (simp add: put_fails_def grow_fails_def put_errno_def)

lemma hashmapPut_step:
  assumes ok: "hm_ok hm" and room: "map_size hm < 2 ^ 60"
  shows "\<exists>ret err hm' h'. hashmapPut hm key v h = (Inr (ret, err, hm'), h') \<and> hm_ok hm' \<and> grows (owned hm) h (owned hm') h'
    \<and> equals hm' = equals hm \<and> hash hm' = hash hm \<and> mem_fail h' = mem_fail h
    \<and> ((\<forall>a. \<not> mem_fail h a) \<longrightarrow> map_size hm \<le> bucketCount hm * 3 div 4 \<longrightarrow> map_size hm' \<le> bucketCount hm' * 3 div 4)
    \<and> err = put_errno hm key h
    \<and> (if put_fails hm key h then ret = None \<and> hm' = hm
       else put_entries hm key v hm' \<and> ret = Option.bind (hm_lookup hm key) (\<lambda>v. v)
          \<and> hm_lookup hm' = (\<lambda>k. if equals hm key k then Some v else hm_lookup hm k)
          \<and> map_size hm' = map_size hm + (if hm_lookup hm key = None then 1 else 0))"
proof -
  obtain B1 chain B2 where b: "buckets hm = B1 @ chain # B2" "bucket hm key = Inr (length B1, chain)"
    "calculateIndex (bucketCount hm) (hashKey hm key) = length B1"
    "\<forall>e \<in> set chain. entry_hash e = hashKey hm (entry_key e) \<and> calculateIndex (bucketCount hm) (hashKey hm (entry_key e)) = length B1"
    "find_entry hm key chain = find (\<lambda>e. equals hm (entry_key e) key) (entries hm)"
    by (rule bucket_split [OF ok, of key]) blast
  show ?thesis
  proof (cases "find_entry hm key chain")
    case (Some e)
    from found_entry [OF ok b(1,5,4) Some] obtain xs ys where
      f: "buckets hm = B1 @ (xs @ [e] @ ys) # B2" "equals hm (entry_key e) key" "hm_lookup hm key = Some (entry_value e)"
      "\<And>v. replace_value hm key v chain = xs @ [e\<lparr>entry_value := v\<rparr>] @ ys" by metis
    let ?hm = "hm\<lparr>buckets := (buckets hm)[length B1 := xs @ [e\<lparr>entry_value := v\<rparr>] @ ys], map_size := map_size hm\<rparr>"
    have "hashmapPut hm key v h = (Inr (entry_value e, None, ?hm), h)"
      using Some b(2) f(4) by (simp add: hashmapPut_def)
    moreover note c = change_entry_ok [OF ok f(1,2), of "[e\<lparr>entry_value := v\<rparr>]" v "map_size hm"]
    have "grows (owned hm) h (owned ?hm) h"
      by (rule growsI [of _ _ "[]"]) (use c(3) in simp_all)
    moreover have "put_entries hm key v ?hm" using Some b(5) c(4) by (simp add: put_entries_def)
    ultimately show ?thesis using c(1,2) f(3)
      by (intro exI [of _ "entry_value e"] exI [of _ None] exI [of _ ?hm] exI [of _ h]) (simp add: put_fails_def grow_fails_def put_errno_def)
  next
    case None
    then have none: "hm_lookup hm key = None" using b(5) by (simp add: hm_lookup_def)
    show ?thesis
    proof (cases rule: createEntry_cases [of h key "hashKey hm key" v])
      case fail
      then have "hashmapPut hm key v h = (Inr (None, Some ENOMEM, hm), h\<lparr>mem_next := Suc (mem_next h)\<rparr>)"
        using None b(2) by (simp add: hashmapPut_def)
      moreover have "grows (owned hm) h (owned hm) (h\<lparr>mem_next := Suc (mem_next h)\<rparr>)"
        by (rule growsI [of _ _ "[]"]) simp_all
      ultimately show ?thesis using ok none fail(1) by (auto simp: put_fails_def put_errno_def)
    next
      case success
      from insert_new_ok [OF ok room b(1,3) none refl, of h v]
      obtain hm' h' where x: "expandIfNecessary (append_entry hm (length B1)
          \<lparr>entry_addr = mem_next h, entry_key = key, entry_hash = hashKey hm key, entry_value = v\<rparr>) (h\<lparr>mem_next := Suc (mem_next h)\<rparr>)
          = (if map_size hm \<ge> hashmapCurrentCapacity hm \<and> mem_fail h (Suc (mem_next h)) then Some ENOMEM else None, hm', h')"
        "hm_ok hm'" "grows (owned hm) h (owned hm') h'" "equals hm' = equals hm" "hash hm' = hash hm" "map_size hm' = map_size hm + 1" "mem_fail h' = mem_fail h"
        "(\<forall>a. \<not> mem_fail h a) \<longrightarrow> map_size hm \<le> bucketCount hm * 3 div 4 \<longrightarrow> map_size hm' \<le> bucketCount hm' * 3 div 4"
        "hm_lookup hm' = (\<lambda>k. if equals hm key k then Some v else hm_lookup hm k)"
        "mset (entries hm') = add_mset \<lparr>entry_addr = mem_next h, entry_key = key, entry_hash = hashKey hm key, entry_value = v\<rparr> (mset (entries hm))"
        by blast
      have "put_entries hm key v hm'" using None b(5) x(10) by (auto simp: put_entries_def)
      moreover from x(1) have "hashmapPut hm key v h = (Inr (None, put_errno hm key h, hm'), h')"
        using None b(2) success none by (auto simp: hashmapPut_def put_errno_def put_fails_def grow_fails_def hashmapSize_def)
      moreover have "\<not> put_fails hm key h" using success(1) by (simp add: put_fails_def)
      ultimately show ?thesis using x(2-9) none by (intro exI [of _ None] exI [of _ "put_errno hm key h"] exI [of _ hm'] exI [of _ h']) simp
    qed
  qed
qed

lemma hashmapMemoize_step:
  assumes ok: "hm_ok hm" and room: "map_size hm < 2 ^ 60"
    and init: "initialValue key ctx = (v, ctx1)"
  shows "\<exists>ret err hm' ctx' h'. hashmapMemoize hm key initialValue ctx h = (Inr (ret, err, hm', ctx'), h') \<and> hm_ok hm' \<and> grows (owned hm) h (owned hm') h'
    \<and> equals hm' = equals hm
    \<and> (case hm_lookup hm key of
         Some old \<Rightarrow> ret = old \<and> err = None \<and> hm' = hm \<and> ctx' = ctx
       | None \<Rightarrow> err = put_errno hm key h
           \<and> (if put_fails hm key h then ret = None \<and> hm' = hm \<and> ctx' = ctx
              else ret = v \<and> ctx' = ctx1 \<and> hm_lookup hm' = (\<lambda>k. if equals hm key k then Some v else hm_lookup hm k)
                \<and> map_size hm' = map_size hm + 1))"
proof -
  obtain B1 chain B2 where b: "buckets hm = B1 @ chain # B2" "bucket hm key = Inr (length B1, chain)"
    "calculateIndex (bucketCount hm) (hashKey hm key) = length B1"
    "find_entry hm key chain = find (\<lambda>e. equals hm (entry_key e) key) (entries hm)"
    by (rule bucket_split [OF ok, of key]) blast
  show ?thesis
  proof (cases "find_entry hm key chain")
    case (Some e)
    then have "hm_lookup hm key = Some (entry_value e)" using b(4) by (simp add: hm_lookup_def)
    moreover have "hashmapMemoize hm key initialValue ctx h = (Inr (entry_value e, None, hm, ctx), h)"
      using Some b(2) by (simp add: hashmapMemoize_def)
    ultimately show ?thesis using ok by auto
  next
    case None
    then have none: "hm_lookup hm key = None" using b(4) by (simp add: hm_lookup_def)
    show ?thesis
    proof (cases rule: malloc_cases [of h])
      case fail
      then have "hashmapMemoize hm key initialValue ctx h = (Inr (None, Some ENOMEM, hm, ctx), h\<lparr>mem_next := Suc (mem_next h)\<rparr>)"
        using None b(2) by (simp add: hashmapMemoize_def createEntry_def)
      moreover have "grows (owned hm) h (owned hm) (h\<lparr>mem_next := Suc (mem_next h)\<rparr>)"
        by (rule growsI [of _ _ "[]"]) simp_all
      ultimately show ?thesis using ok none fail(1) by (auto simp: put_fails_def put_errno_def)
    next
      case success
      from insert_new_ok [OF ok room b(1,3) none refl, of h v]
      obtain hm' h' where x: "expandIfNecessary (append_entry hm (length B1)
          \<lparr>entry_addr = mem_next h, entry_key = key, entry_hash = hashKey hm key, entry_value = v\<rparr>) (h\<lparr>mem_next := Suc (mem_next h)\<rparr>)
          = (if map_size hm \<ge> hashmapCurrentCapacity hm \<and> mem_fail h (Suc (mem_next h)) then Some ENOMEM else None, hm', h')"
        "hm_ok hm'" "grows (owned hm) h (owned hm') h'" "equals hm' = equals hm" "map_size hm' = map_size hm + 1"
        "hm_lookup hm' = (\<lambda>k. if equals hm key k then Some v else hm_lookup hm k)"
        by blast
      then have "hashmapMemoize hm key initialValue ctx h = (Inr (v, put_errno hm key h, hm', ctx1), h')"
        using None b(2) success init none
        by (auto simp: hashmapMemoize_def createEntry_def put_errno_def put_fails_def grow_fails_def hashmapSize_def)
      moreover have "\<not> put_fails hm key h" using success(1) by (simp add: put_fails_def)
      ultimately show ?thesis using x(2-) none
        by (intro exI [of _ v] exI [of _ "put_errno hm key h"] exI [of _ hm'] exI [of _ ctx1] exI [of _ h']) simp
    qed
  qed
qed

text \<open>
  Removal. When the key is held, exactly its entry leaves the map and is given back to the heap.
\<close>

lemma hashmapRemove_step:
  assumes ok: "hm_ok hm"
  shows "\<exists>hm' h'. hashmapRemove hm key h = (Inr (Option.bind (hm_lookup hm key) (\<lambda>v. v), hm'), h') \<and> hm_ok hm' \<and> grows (owned hm) h (owned hm') h'
    \<and> equals hm' = equals hm \<and> hash hm' = hash hm \<and> mem_fail h' = mem_fail h \<and> mem_next h' = mem_next h
    \<and> map_addr hm' = map_addr hm \<and> buckets_addr hm' = buckets_addr hm \<and> bucketCount hm' = bucketCount hm
    \<and> hm_lookup hm' = (\<lambda>k. if equals hm key k then None else hm_lookup hm k)
    \<and> (case find (\<lambda>e. equals hm (entry_key e) key) (entries hm) of
         None \<Rightarrow> hm' = hm \<and> h' = h
       | Some e \<Rightarrow> h' = free_at (entry_addr e) h \<and> map_size hm' = map_size hm - 1 \<and> buckets hm' = map (filter (\<lambda>x. x \<noteq> e)) (buckets hm))"
proof -
  obtain B1 chain B2 where b: "buckets hm = B1 @ chain # B2" "bucket hm key = Inr (length B1, chain)"
    "calculateIndex (bucketCount hm) (hashKey hm key) = length B1"
    "\<forall>e \<in> set chain. entry_hash e = hashKey hm (entry_key e) \<and> calculateIndex (bucketCount hm) (hashKey hm (entry_key e)) = length B1"
    "find_entry hm key chain = find (\<lambda>e. equals hm (entry_key e) key) (entries hm)"
    by (rule bucket_split [OF ok, of key]) blast
  have keys: "keys_ok hm" using ok by (simp add: hm_ok_def)
  show ?thesis
  proof (cases "find_entry hm key chain")
    case None
    then have none: "hm_lookup hm key = None" using b(5) by (simp add: hm_lookup_def)
    then have "hm_lookup hm k = None" if "equals hm key k" for k
      using that keys_ok_trans [OF keys] keys_ok_sym [OF keys] by (metis hm_lookup_None)
    then have "hm_lookup hm = (\<lambda>k. if equals hm key k then None else hm_lookup hm k)" by auto
    moreover have "hashmapRemove hm key h = (Inr (None, hm), h)" using None b(2) by (simp add: hashmapRemove_def)
    ultimately show ?thesis using ok none None b(5) by (intro exI [of _ hm] exI [of _ h]) simp
  next
    case (Some e)
    from found_entry [OF ok b(1,5,4) Some] obtain xs ys where
      f: "buckets hm = B1 @ (xs @ [e] @ ys) # B2" "equals hm (entry_key e) key" "hm_lookup hm key = Some (entry_value e)"
      "unlink_entry hm key chain = xs @ [] @ ys" by metis
    have sz: "map_size hm = int (length (entries hm))" "distinct (entries hm)" using ok by (auto simp: hm_ok_def distinct_keys_def)
    have en: "entries hm = (concat B1 @ xs) @ e # ys @ concat B2" using f(1) by (simp add: entries_def)
    let ?hm = "hm\<lparr>buckets := (buckets hm)[length B1 := xs @ [] @ ys], map_size := map_size hm - 1\<rparr>"
    have u: "u64 (map_size hm - 1) = map_size hm - 1" using sz en ok by (simp add: u64_id hm_ok_def)
    note c = change_entry_ok [OF ok f(1,2), of "[]" None "map_size hm - 1", simplified]
    have rm: "hashmapRemove hm key h = (Inr (entry_value e, ?hm), free_at (entry_addr e) h)"
      using Some b(2) f(4) u by (simp add: hashmapRemove_def)
    have "grows (owned hm) h (owned ?hm) (free_at (entry_addr e) h)"
      by (rule growsI [of _ _ "[]"]) (use c(3) in simp_all)
    moreover have "buckets ?hm = map (filter (\<lambda>x. x \<noteq> e)) (buckets hm)"
    proof -
      have "filter (\<lambda>x. x \<noteq> e) c = c" if "e \<notin> set c" for c :: "('a, 'b) Entry list"
        using that by (auto simp: filter_id_conv)
      then show ?thesis using sz(2) unfolding en unfolding f(1) by (auto simp: list_update_append intro!: map_idI [symmetric])
    qed
    ultimately show ?thesis using rm c f(3) Some b(5) by (intro exI [of _ ?hm] exI [of _ "free_at (entry_addr e) h"]) simp
  qed
qed

section \<open>Walking over the entries\<close>

text \<open>The calls a walk makes: one per entry of \<open>es\<close>, in order, until one says stop.\<close>

fun visit :: "('k, 'v, 'c) callback \<Rightarrow> ('k, 'v) Hashmap \<Rightarrow> 'c \<Rightarrow> ('k, 'v) Entry list \<Rightarrow> (('k, 'v) Hashmap \<times> 'c) res" where
  "visit callback hm ctx [] = Inr (hm, ctx)"
| "visit callback hm ctx (e # es) =
     (case callback (entry_key e) (entry_value e) hm ctx of
        Inl f \<Rightarrow> Inl f
      | Inr (continue, hm1, ctx1) \<Rightarrow> if continue then visit callback hm1 ctx1 es else Inr (hm1, ctx1))"

definition walk_ok :: "('k, 'v) Hashmap \<Rightarrow> bool" where
  "walk_ok hm \<longleftrightarrow> int (length (buckets hm)) = bucketCount hm \<and> distinct (map entry_addr (entries hm))"

lemma locate_chain_mid:
  "entry_addr e \<notin> entry_addr ` set pre \<Longrightarrow> locate_chain (entry_addr e) (pre @ e # post) = Some (e, first_addr post)"
  by (induction pre) auto

lemma locate_chain_none: "a \<notin> entry_addr ` set chain \<Longrightarrow> locate_chain a chain = None"
  by (induction chain) auto

lemma locate_mid:
  assumes "i < length bs" "bs ! i = pre @ e # post" "distinct (map entry_addr (concat bs))"
  shows "locate (entry_addr e) bs = Some (e, first_addr post)"
  using assms
proof (induction bs arbitrary: i)
  case (Cons c bs)
  show ?case
  proof (cases i)
    case 0
    then show ?thesis using Cons.prems locate_chain_mid [of e pre post] by simp
  next
    case (Suc j)
    then have j: "j < length bs" "bs ! j = pre @ e # post" using Cons.prems by simp_all
    then have "e \<in> set (concat bs)" by (metis UN_I in_set_conv_decomp nth_mem set_concat)
    then have "entry_addr e \<notin> entry_addr ` set c" using Cons.prems(3) by auto
    then show ?thesis using Cons.IH [OF j] Cons.prems(3) locate_chain_none [of "entry_addr e" c] by simp
  qed
qed simp

text \<open>After a callback the rest of the walk is as before.\<close>

lemma filter_absent: "e \<notin> set c \<Longrightarrow> filter (\<lambda>x. x \<noteq> e) c = c"
  by (auto simp: filter_id_conv)

lemma rest_kept:
  assumes w: "walk_ok hm" and i: "i < length (buckets hm)" "buckets hm ! i = pre @ e # post"
    and bs: "buckets hm1 = buckets hm \<or> buckets hm1 = map (filter (\<lambda>x. x \<noteq> e)) (buckets hm)" and n: "bucketCount hm1 = bucketCount hm"
  shows "walk_ok hm1" "\<exists>pre'. buckets hm1 ! i = pre' @ post" "drop (Suc i) (buckets hm1) = drop (Suc i) (buckets hm)"
    "length (buckets hm1) = length (buckets hm)"
proof -
  have d: "distinct (map entry_addr (concat (buckets hm)))" using w by (simp add: walk_ok_def entries_def)
  have split: "buckets hm = take i (buckets hm) @ (pre @ e # post) # drop (Suc i) (buckets hm)"
    using id_take_nth_drop [OF i(1)] i(2) by simp
  have "distinct (map entry_addr (concat (take i (buckets hm) @ (pre @ e # post) # drop (Suc i) (buckets hm))))"
    using d split by simp
  then have e: "e \<notin> set pre" "e \<notin> set post" "\<forall>c \<in> set (drop (Suc i) (buckets hm)). e \<notin> set c"
    by auto
  show "length (buckets hm1) = length (buckets hm)" using bs by auto
  show "walk_ok hm1"
  proof (cases "buckets hm1 = buckets hm")
    case False
    then have b: "buckets hm1 = map (filter (\<lambda>x. x \<noteq> e)) (buckets hm)" using bs by simp
    then have "entries hm1 = filter (\<lambda>x. x \<noteq> e) (entries hm)" by (simp add: entries_def filter_concat)
    then show ?thesis using w n b by (simp add: walk_ok_def distinct_map_filter)
  qed (use w n in \<open>simp add: walk_ok_def entries_def\<close>)
  show "\<exists>pre'. buckets hm1 ! i = pre' @ post"
    using bs i e(1,2) by (auto simp: filter_absent intro: exI [of _ pre] exI [of _ "pre @ [e]"])
  have "map (filter (\<lambda>x. x \<noteq> e)) (drop (Suc i) (buckets hm)) = drop (Suc i) (buckets hm)"
    using e(3) by (intro map_idI) (auto simp: filter_absent)
  then show "drop (Suc i) (buckets hm1) = drop (Suc i) (buckets hm)" using bs by (auto simp: drop_map)
qed

definition at_bucket :: "('k, 'v) Hashmap \<Rightarrow> nat \<Rightarrow> nat option \<Rightarrow> ('k, 'v) Entry list \<Rightarrow> bool" where
  "at_bucket hm i entry es \<longleftrightarrow> (entry = None \<and> i \<le> length (buckets hm) \<and> es = concat (drop i (buckets hm))) \<or>
     (\<exists>j pre e post. i = Suc j \<and> entry = Some (entry_addr e) \<and> j < length (buckets hm) \<and> buckets hm ! j = pre @ e # post
        \<and> es = e # post @ concat (drop i (buckets hm)))"

lemma at_bucket_next:
  assumes "j < length (buckets hm)" "buckets hm ! j = pre @ post"
  shows "at_bucket hm (Suc j) (first_addr post) (post @ concat (drop (Suc j) (buckets hm)))"
proof (cases post)
  case (Cons e post')
  then show ?thesis using assms unfolding at_bucket_def first_addr_def
    by (intro disjI2 exI [of _ j] exI [of _ pre] exI [of _ e] exI [of _ post']) simp
qed (use assms in \<open>simp add: at_bucket_def first_addr_def\<close>)

text \<open>
  The contract of a callback: it leaves the map alone, or removes the entry it is called with. \<open>P\<close> is an
  invariant of its own.
\<close>

locale walker =
  fixes callback :: "('k, 'v, 'c) callback" and P :: "('k, 'v) Hashmap \<Rightarrow> 'c \<Rightarrow> bool"
  assumes callback_keeps:
    "P hm ctx \<Longrightarrow> walk_ok hm \<Longrightarrow> e \<in> set (entries hm) \<Longrightarrow>
     callback (entry_key e) (entry_value e) hm ctx = Inr (continue, hm1, ctx1) \<Longrightarrow>
     P hm1 ctx1 \<and> bucketCount hm1 = bucketCount hm \<and>
     (buckets hm1 = buckets hm \<or> buckets hm1 = map (filter (\<lambda>x. x \<noteq> e)) (buckets hm))"
begin

lemma loop_visits:
  assumes "P hm ctx" "walk_ok hm" "at_bucket hm i entry es"
  shows "for_each_loop callback hm ctx i entry = Some (visit callback hm ctx es)"
  using assms
proof (induction "length es + (length (buckets hm) - i)" arbitrary: hm ctx i entry es rule: less_induct)
  case less
  have n: "int (length (buckets hm)) = bucketCount hm" using less.prems(2) by (simp add: walk_ok_def)
  from less.prems(3) show ?case unfolding at_bucket_def
  proof (elim disjE conjE exE)
    assume at: "entry = None" "i \<le> length (buckets hm)" "es = concat (drop i (buckets hm))"
    show ?thesis
    proof (cases "i < length (buckets hm)")
      case True
      then have es: "es = buckets hm ! i @ concat (drop (Suc i) (buckets hm))"
        unfolding at(3) Cons_nth_drop_Suc [OF True, symmetric] by simp
      have "at_bucket hm (Suc i) (first_addr (buckets hm ! i)) es"
        using at_bucket_next [OF True, of "[]"] es by simp
      from less.hyps [OF _ less.prems(1,2) this] True n at(1) show ?thesis
        by (subst for_each_loop.simps) simp
    next
      case False
      then show ?thesis using at n by (subst for_each_loop.simps) simp
    qed
  next
    fix j pre e post
    assume at: "i = Suc j" "entry = Some (entry_addr e)" "j < length (buckets hm)" "buckets hm ! j = pre @ e # post"
      "es = e # post @ concat (drop i (buckets hm))"
    have loc: "locate (entry_addr e) (buckets hm) = Some (e, first_addr post)"
      using locate_mid [OF at(3,4)] less.prems(2) by (simp add: walk_ok_def entries_def)
    show ?thesis
    proof (cases "callback (entry_key e) (entry_value e) hm ctx")
      case (Inl f)
      then show ?thesis using at(2,5) loc by (subst for_each_loop.simps) simp
    next
      case (Inr r)
      obtain continue hm1 ctx1 where r: "callback (entry_key e) (entry_value e) hm ctx = Inr (continue, hm1, ctx1)"
        using Inr by (cases r) auto
      have "e \<in> set (buckets hm ! j)" using at(4) by simp
      then have "e \<in> set (entries hm)" using at(3) by (auto simp: entries_def intro!: bexI [of _ "buckets hm ! j"])
      note k = callback_keeps [OF less.prems(1,2) this r]
      note rk = rest_kept [OF less.prems(2) at(3,4), of hm1]
      obtain pre' where pre': "buckets hm1 ! j = pre' @ post" using rk(2) k by blast
      have "at_bucket hm1 i (first_addr post) (post @ concat (drop i (buckets hm)))"
        using at_bucket_next [of j hm1 pre' post] pre' rk(3,4) k at(1,3) by simp
      then have "for_each_loop callback hm1 ctx1 i (first_addr post)
          = Some (visit callback hm1 ctx1 (post @ concat (drop i (buckets hm))))"
        using less.hyps [of "post @ concat (drop i (buckets hm))" hm1 i ctx1 "first_addr post"] rk(1,4) k at(5) by simp
      then show ?thesis using at(2,5) loc r by (subst for_each_loop.simps) simp
    qed
  qed
qed

lemma for_each_visits:
  assumes "P hm ctx" "walk_ok hm"
  shows "hashmapForEach hm callback ctx = Some (visit callback hm ctx (entries hm))"
  using loop_visits [OF assms, of 0 None "entries hm"] by (simp add: hashmapForEach_def entries_def at_bucket_def)

end

lemma hm_ok_walk: "hm_ok hm \<Longrightarrow> live (owned hm) h \<Longrightarrow> walk_ok hm"
  by (auto simp: hm_ok_def walk_ok_def live_def owned_def)

text \<open>A callback that only reads the map.\<close>

definition read_only :: "('k \<Rightarrow> 'v option \<Rightarrow> 'c \<Rightarrow> bool) \<Rightarrow> ('k \<Rightarrow> 'v option \<Rightarrow> 'c \<Rightarrow> 'c) \<Rightarrow> ('k, 'v, 'c) callback" where
  "read_only go f key value hm ctx = Inr (go key value ctx, hm, f key value ctx)"

interpretation reader: walker "read_only go f" "\<lambda>_ _. True" for go f
  by unfold_locales (simp add: read_only_def)

fun fold_until :: "('k \<Rightarrow> 'v option \<Rightarrow> 'c \<Rightarrow> bool) \<Rightarrow> ('k \<Rightarrow> 'v option \<Rightarrow> 'c \<Rightarrow> 'c) \<Rightarrow> ('k, 'v) Entry list \<Rightarrow> 'c \<Rightarrow> 'c" where
  "fold_until go f [] ctx = ctx"
| "fold_until go f (e # es) ctx =
     (if go (entry_key e) (entry_value e) ctx then fold_until go f es (f (entry_key e) (entry_value e) ctx)
      else f (entry_key e) (entry_value e) ctx)"

lemma visit_read_only: "visit (read_only go f) hm ctx es = Inr (hm, fold_until go f es ctx)"
  by (induction es arbitrary: ctx) (simp_all add: read_only_def)

section \<open>Creation, deletion, statistics\<close>

lemma double_until_bounds:
  assumes "n = 2 ^ j"
  shows "\<exists>k. double_until m n = 2 ^ k \<and> m < double_until m n \<and> double_until m n \<le> max n (2 * m)"
  using assms
proof (induction m n arbitrary: j rule: double_until.induct)
  case (1 m n)
  show ?case
  proof (cases "n \<le> m")
    case True
    moreover have "0 < n" using 1(2) by simp
    moreover have "n * 2 = 2 ^ Suc j" using 1(2) by simp
    ultimately obtain k where "double_until m (n * 2) = 2 ^ k" "m < double_until m (n * 2)"
      "double_until m (n * 2) \<le> max (n * 2) (2 * m)" using 1(1) by blast
    then show ?thesis using True \<open>0 < n\<close> by (subst (1 2 3) double_until.simps) auto
  next
    case False
    then show ?thesis using 1(2) by (subst (1 2 3) double_until.simps) auto
  qed
qed


lemma hashmapCreate_step:
  assumes cap: "0 \<le> cap" "cap < 2 ^ 60" and fns: "equivp eq" "\<And>a b. eq a b \<Longrightarrow> hf a = hf b"
  shows "\<exists>r h'. hashmapCreate cap hf eq h = (r, h') \<and> mem_fail h' = mem_fail h
    \<and> (case r of
         None \<Rightarrow> grows [] h [] h' \<and> (mem_fail h (mem_next h) \<or> mem_fail h (Suc (mem_next h)))
       | Some hm \<Rightarrow> hm_ok hm \<and> grows [] h (owned hm) h' \<and> hm_lookup hm = (\<lambda>_. None) \<and> map_size hm = 0
           \<and> cap \<le> hashmapCurrentCapacity hm \<and> equals hm = eq)"
proof -
  let ?h1 = "h\<lparr>mem_next := Suc (mem_next h)\<rparr>" and ?h2 = "h\<lparr>mem_next := Suc (Suc (mem_next h))\<rparr>"
  consider (one) "mem_fail h (mem_next h)" | (two) "\<not> mem_fail h (mem_next h)" "mem_fail h (Suc (mem_next h))"
    | (ok) "\<not> mem_fail h (mem_next h)" "\<not> mem_fail h (Suc (mem_next h))" by blast
  then show ?thesis
  proof cases
    case one
    then have "hashmapCreate cap hf eq h = (None, ?h1)" by (simp add: hashmapCreate_def malloc_def)
    moreover have "grows [] h [] ?h1" by (rule growsI [of _ _ "[]"]) simp_all
    ultimately show ?thesis using one by (intro exI [of _ None] exI [of _ ?h1]) simp
  next
    case two
    then have "hashmapCreate cap hf eq h = (None, free_at (mem_next h) ?h2)"
      by (simp add: hashmapCreate_def malloc_def Let_def)
    moreover have "grows [] h [] (free_at (mem_next h) ?h2)" by (rule growsI [of _ _ "[mem_next h]"]) simp_all
    ultimately show ?thesis using two by (intro exI [of _ None] exI [of _ "free_at (mem_next h) ?h2"]) simp
  next
    case ok
    define n where "n = double_until (cap * 4 div 3) 1"
    have u: "u64 (cap * 4) = cap * 4" using cap by (simp add: u64_id)
    obtain k where k: "n = 2 ^ k" "cap * 4 div 3 < n" "n \<le> max 1 (2 * (cap * 4 div 3))"
      using double_until_bounds [of 1 0 "cap * 4 div 3"] by (auto simp: n_def)
    have "n < 2 ^ 62" using k(3) cap by (simp add: max_def split: if_splits)
    then have k62: "k < 62" unfolding k(1) by (rule power_less_imp_less_exp [rotated]) simp
    define hm :: "('a, 'b) Hashmap" where "hm = \<lparr>map_addr = mem_next h, buckets_addr = Suc (mem_next h), buckets = replicate (nat n) [],
      bucketCount = n, hash = hf, equals = eq, map_size = 0\<rparr>"
    have e: "entries hm = []" by (simp add: entries_def hm_def)
    have "hashmapCreate cap hf eq h = (Some hm, ?h2)"
      using ok u by (simp add: hashmapCreate_def malloc_def Let_def n_def hm_def)
    moreover have "hm_ok hm"
      using fns k k62 e unfolding hm_ok_def
      by (intro conjI exI [of _ k]) (auto simp: hm_def keys_ok_def placed_def distinct_keys_def)
    moreover have "grows [] h (owned hm) ?h2"
      by (rule growsI [of _ _ "[mem_next h, Suc (mem_next h)]"]) (simp_all add: owned_def e, simp_all add: hm_def)
    moreover have "hm_lookup hm = (\<lambda>_. None)" by (simp add: fun_eq_iff hm_lookup_def e)
    moreover have "cap \<le> hashmapCurrentCapacity hm"
      using k(2) pow2_three_quarters(1) [OF k(1) k62] by (simp add: hashmapCurrentCapacity_def hm_def)
    moreover have "map_size hm = 0" "equals hm = eq" by (simp_all add: hm_def)
    ultimately show ?thesis by (intro exI [of _ "Some hm"] exI [of _ ?h2]) simp
  qed
qed

lemma fold_free: "freed (fold (\<lambda>e. free_at (entry_addr e)) es h) = freed h @ map entry_addr es"
  "mem_next (fold (\<lambda>e. free_at (entry_addr e)) es h) = mem_next h"
  by (induction es arbitrary: h) simp_all

lemma hashmapFree_step: "grows (owned hm) h [] (hashmapFree hm h)"
  by (rule growsI [of _ _ "[]"]) (simp_all add: hashmapFree_def fold_concat fold_free owned_def entries_def)

lemma chain_collisions_eq:
  assumes "0 \<le> n" "n + int (length c) < 2 ^ 64"
  shows "chain_collisions c n = n + int (length c - 1)"
  using assms
proof (induction c arbitrary: n)
  case (Cons e c)
  then show ?case using Cons.IH [of n] Cons.IH [of "n + 1"] by (cases c) (simp_all add: u64_id)
qed simp

lemma collisions_eq:
  assumes "0 \<le> n" "n + int (length (concat bs)) < 2 ^ 64"
  shows "fold chain_collisions bs n + int (length (filter (\<lambda>c. c \<noteq> []) bs)) = n + int (length (concat bs))"
  using assms
proof (induction bs arbitrary: n)
  case (Cons c bs)
  have c: "chain_collisions c n = n + int (length c - 1)" using Cons.prems by (intro chain_collisions_eq) auto
  have "length c - 1 \<le> length c" by simp
  then have "fold chain_collisions bs (n + int (length c - 1)) + int (length (filter (\<lambda>c. c \<noteq> []) bs))
      = n + int (length c - 1) + int (length (concat bs))"
    using Cons.prems by (intro Cons.IH) simp_all
  then show ?case using c by (cases c) simp_all
qed simp

text \<open>A sequence of insertions.\<close>

fun put_seq ::
    "('m \<Rightarrow> 'k \<Rightarrow> 'v option \<Rightarrow> 'h \<Rightarrow> ('v option \<times> int option \<times> 'm) res \<times> 'h) \<Rightarrow> ('k \<times> 'v option) list \<Rightarrow> 'm \<Rightarrow> 'h \<Rightarrow> 'm res \<times> 'h" where
  "put_seq put [] m h = (Inr m, h)"
| "put_seq put ((k, v) # kvs) m h =
     (case put m k v h of (Inl f, h1) \<Rightarrow> (Inl f, h1) | (Inr (_, _, m1), h1) \<Rightarrow> put_seq put kvs m1 h1)"

text \<open>
  What a client of a map relies on: with room for \<open>n\<close> more keys and memory, the operations read and
  update a function from keys to values.
\<close>

locale dictionary =
  fixes ok :: "nat \<Rightarrow> 'm \<Rightarrow> 'h \<Rightarrow> bool" and lookup :: "'m \<Rightarrow> 'k \<Rightarrow> 'v option option" and same :: "'k \<Rightarrow> 'k \<Rightarrow> bool"
    and get :: "'m \<Rightarrow> 'k \<Rightarrow> 'v option res"
    and put :: "'m \<Rightarrow> 'k \<Rightarrow> 'v option \<Rightarrow> 'h \<Rightarrow> ('v option \<times> int option \<times> 'm) res \<times> 'h"
    and remove :: "'m \<Rightarrow> 'k \<Rightarrow> 'h \<Rightarrow> ('v option \<times> 'm) res \<times> 'h"
  assumes same_refl: "ok n m h \<Longrightarrow> same key key"
    and get_ok: "ok n m h \<Longrightarrow> get m key = Inr (Option.bind (lookup m key) (\<lambda>v. v))"
    and put_ok: "ok (Suc n) m h \<Longrightarrow> \<exists>m' h'. put m key v h = (Inr (Option.bind (lookup m key) (\<lambda>v. v), None, m'), h') \<and> ok n m' h'
        \<and> lookup m' = (\<lambda>k. if same key k then Some v else lookup m k)"
    and remove_ok: "ok n m h \<Longrightarrow> \<exists>m' h'. remove m key h = (Inr (Option.bind (lookup m key) (\<lambda>v. v), m'), h') \<and> ok n m' h'
        \<and> lookup m' = (\<lambda>k. if same key k then None else lookup m k)"
begin

lemma put_seq_lookup:
  assumes "ok (length kvs + n) m h"
  shows "\<exists>m' h'. put_seq put kvs m h = (Inr m', h') \<and> ok n m' h'
    \<and> lookup m' = (\<lambda>k. case find (\<lambda>(k', v). same k' k) (rev kvs) of Some (_, v) \<Rightarrow> Some v | None \<Rightarrow> lookup m k)"
  using assms
proof (induction kvs arbitrary: m h)
  case (Cons kv kvs)
  obtain k v where kv: "kv = (k, v)" by fastforce
  obtain m1 h1 where 1: "put m k v h = (Inr (Option.bind (lookup m k) (\<lambda>v. v), None, m1), h1)" "ok (length kvs + n) m1 h1"
    "lookup m1 = (\<lambda>k'. if same k k' then Some v else lookup m k')"
    using put_ok [of "length kvs + n" m h k v] Cons.prems by auto
  obtain m2 h2 where 2: "put_seq put kvs m1 h1 = (Inr m2, h2)" "ok n m2 h2"
    "lookup m2 = (\<lambda>k. case find (\<lambda>(k', v). same k' k) (rev kvs) of Some (_, v) \<Rightarrow> Some v | None \<Rightarrow> lookup m1 k)"
    using Cons.IH [OF 1(2)] by blast
  show ?case using 1(1,3) 2 kv by (auto simp: fun_eq_iff find_append split: option.split)
qed simp

text \<open>After any insertions and then a removal: the last value put, and nothing for the removed key.\<close>

lemma put_seq_get:
  assumes "ok (length kvs) m h"
  shows "\<exists>m' h' m2 h2 old. put_seq put kvs m h = (Inr m', h') \<and> remove m' key h' = (Inr (old, m2), h2)
    \<and> get m' k = (case find (\<lambda>(k', v). same k' k) (rev kvs) of Some (_, v) \<Rightarrow> Inr v | None \<Rightarrow> get m k)
    \<and> Inr old = get m' key \<and> get m2 k = (if same key k then Inr None else get m' k)"
proof -
  obtain m' h' where 1: "put_seq put kvs m h = (Inr m', h')" "ok 0 m' h'"
    "lookup m' = (\<lambda>k. case find (\<lambda>(k', v). same k' k) (rev kvs) of Some (_, v) \<Rightarrow> Some v | None \<Rightarrow> lookup m k)"
    using put_seq_lookup [of kvs 0 m h] assms by auto
  obtain m2 h2 where 2: "remove m' key h' = (Inr (Option.bind (lookup m' key) (\<lambda>v. v), m2), h2)" "ok 0 m2 h2"
    "lookup m2 = (\<lambda>k. if same key k then None else lookup m' k)"
    using remove_ok [OF 1(2)] by blast
  note g = get_ok [OF 1(2)] get_ok [OF 2(2)] get_ok [OF assms]
  show ?thesis
    using 1(1,3) 2(1,3) g by (intro exI [of _ m'] exI [of _ h'] exI [of _ m2] exI [of _ h2] exI) (auto split: option.split)
qed

end

definition dict_ok :: "('k \<Rightarrow> 'k \<Rightarrow> bool) \<Rightarrow> nat \<Rightarrow> ('k, 'v) Hashmap \<Rightarrow> heap \<Rightarrow> bool" where
  "dict_ok eq n hm h \<longleftrightarrow> hm_ok hm \<and> never_fails h \<and> equals hm = eq \<and> map_size hm + int n \<le> 2 ^ 60"

interpretation hm_dict: dictionary "dict_ok eq" hm_lookup eq hashmapGet hashmapPut hashmapRemove for eq :: "'k \<Rightarrow> 'k \<Rightarrow> bool"
proof unfold_locales
  fix n and m :: "('k, 'v) Hashmap" and h key
  assume "dict_ok eq n m h"
  then show "eq key key" "hashmapGet m key = Inr (Option.bind (hm_lookup m key) (\<lambda>v. v))"
    using keys_ok_refl [of m key] hashmapGet_eq [of m key] by (auto simp: dict_ok_def hm_ok_def)
next
  fix n and m :: "('k, 'v) Hashmap" and h key v
  assume a: "dict_ok eq (Suc n) m h"
  then have m: "hm_ok m" "map_size m < 2 ^ 60" "never_fails h" "equals m = eq" "map_size m + int n + 1 \<le> 2 ^ 60"
    by (auto simp: dict_ok_def)
  from hashmapPut_step [OF m(1,2), of key v h] m(3-5)
  show "\<exists>m' h'. hashmapPut m key v h = (Inr (Option.bind (hm_lookup m key) (\<lambda>v. v), None, m'), h') \<and> dict_ok eq n m' h'
    \<and> hm_lookup m' = (\<lambda>k. if eq key k then Some v else hm_lookup m k)"
    using put_errno_never [OF m(3), of m key] by (fastforce simp: dict_ok_def never_fails_def split: if_splits)
next
  fix n and m :: "('k, 'v) Hashmap" and h key
  assume a: "dict_ok eq n m h"
  then have m: "hm_ok m" "never_fails h" "equals m = eq" "map_size m + int n \<le> 2 ^ 60"
    by (auto simp: dict_ok_def)
  from hashmapRemove_step [OF m(1), of key h] m(2-4)
  show "\<exists>m' h'. hashmapRemove m key h = (Inr (Option.bind (hm_lookup m key) (\<lambda>v. v), m'), h') \<and> dict_ok eq n m' h'
    \<and> hm_lookup m' = (\<lambda>k. if eq key k then None else hm_lookup m k)"
    by (fastforce simp: dict_ok_def never_fails_def split: option.splits)
qed

section \<open>Properties\<close>

text \<open>
  C26: \<open>hashmapPut\<close> refines the update of a function from keys to values. It keeps the invariant, returns
  the value the map held for the key (\<open>NULL\<close> if none), and afterwards the map holds the new value for that key
  and for the other keys what it held before, also when the table is rehashed; the size grows by one for a
  new key. Only a failed allocation of the entry makes it fail, with \<open>ENOMEM\<close>, and then the map is as before;
  \<open>errno\<close> is also \<open>ENOMEM\<close> when the entry was added and only the larger table could not be had. Either way no
  block of memory is leaked or freed twice.
\<close>

theorem hashmapPut_refines:
  assumes "hm_ok hm" "map_size hm < 2 ^ 60"
  shows "\<exists>ret err hm' h'. hashmapPut hm key v h = (Inr (ret, err, hm'), h') \<and> hm_ok hm'
    \<and> grows (owned hm) h (owned hm') h' \<and> equals hm' = equals hm
    \<and> err = (if put_fails hm key h \<or> grow_fails hm key h then Some ENOMEM else None)
    \<and> (if put_fails hm key h then ret = None \<and> hm' = hm
       else ret = Option.bind (hm_lookup hm key) (\<lambda>v. v) \<and> hm_lookup hm' = (\<lambda>k. if equals hm key k then Some v else hm_lookup hm k)
          \<and> map_size hm' = map_size hm + (if hm_lookup hm key = None then 1 else 0))"
  using hashmapPut_step [OF assms, of key v h] by (auto simp: put_errno_def split: if_splits)

text \<open>
  C27: after any sequence of insertions, \<open>hashmapGet\<close> returns the last value put for the key, and what the
  map held before if the key was not among them; a following \<open>hashmapRemove\<close> returns that value, and then
  \<open>hashmapGet\<close> returns \<open>NULL\<close> for the removed key and for every other key what it did. \<open>dict_ok\<close> asks for the
  invariant, a heap that does not fail, and a size that stays below \<open>2^60\<close>.
\<close>

theorem hashmap_sequence:
  assumes "dict_ok eq (length kvs) hm h"
  shows "\<exists>hm' h' hm2 h2 old. put_seq hashmapPut kvs hm h = (Inr hm', h') \<and> hashmapRemove hm' key h' = (Inr (old, hm2), h2)
    \<and> hashmapGet hm' k = (case find (\<lambda>(k', v). eq k' k) (rev kvs) of Some (_, v) \<Rightarrow> Inr v | None \<Rightarrow> hashmapGet hm k)
    \<and> Inr old = hashmapGet hm' key \<and> hashmapGet hm2 k = (if eq key k then Inr None else hashmapGet hm' k)"
  by (rule hm_dict.put_seq_get [OF assms])

text \<open>
  C28: \<open>hashmapRemove\<close> refines the removal of a key. It keeps the invariant and returns the value held; when there
  is an entry for the key, exactly that entry is freed and leaves its chain, and the size shrinks by
  one; otherwise nothing changes.
\<close>

theorem hashmapRemove_refines:
  assumes "hm_ok hm"
  shows "\<exists>hm' h'. hashmapRemove hm key h = (Inr (Option.bind (hm_lookup hm key) (\<lambda>v. v), hm'), h') \<and> hm_ok hm'
    \<and> grows (owned hm) h (owned hm') h'
    \<and> hm_lookup hm' = (\<lambda>k. if equals hm key k then None else hm_lookup hm k)
    \<and> (if hm_lookup hm key = None then hm' = hm \<and> h' = h
       else map_size hm' = map_size hm - 1 \<and> (\<exists>a \<in> set (owned hm). freed h' = freed h @ [a]))"
proof -
  from hashmapRemove_step [OF assms, of key h] obtain hm' h' where
    r: "hashmapRemove hm key h = (Inr (Option.bind (hm_lookup hm key) (\<lambda>v. v), hm'), h')" "hm_ok hm'"
      "grows (owned hm) h (owned hm') h'" "hm_lookup hm' = (\<lambda>k. if equals hm key k then None else hm_lookup hm k)"
    and f: "case find (\<lambda>e. equals hm (entry_key e) key) (entries hm) of
         None \<Rightarrow> hm' = hm \<and> h' = h
       | Some e \<Rightarrow> h' = free_at (entry_addr e) h \<and> map_size hm' = map_size hm - 1 \<and> buckets hm' = map (filter (\<lambda>x. x \<noteq> e)) (buckets hm)"
    by blast
  have "if hm_lookup hm key = None then hm' = hm \<and> h' = h
       else map_size hm' = map_size hm - 1 \<and> (\<exists>a \<in> set (owned hm). freed h' = freed h @ [a])"
  proof (cases "find (\<lambda>e. equals hm (entry_key e) key) (entries hm)")
    case (Some e)
    then have "e \<in> set (entries hm)" by (auto simp: find_Some_iff)
    then show ?thesis using f Some by (auto simp: hm_lookup_def owned_def)
  qed (use f in \<open>simp add: hm_lookup_def\<close>)
  with r show ?thesis by blast
qed

text \<open>
  C29: \<open>hashmapMemoize\<close> returns the value held for the key without calling the callback; when there is
  none it calls it once, stores and returns what it gave, with every other key unchanged. If the
  entry cannot be allocated the callback is not called, the map is unchanged and \<open>ENOMEM\<close> is set.
\<close>

theorem hashmapMemoize_once:
  assumes "hm_ok hm" "map_size hm < 2 ^ 60" "initialValue key ctx = (v, ctx1)"
  shows "\<exists>ret err hm' ctx' h'. hashmapMemoize hm key initialValue ctx h = (Inr (ret, err, hm', ctx'), h') \<and> hm_ok hm'
    \<and> grows (owned hm) h (owned hm') h'
    \<and> (case hm_lookup hm key of
         Some old \<Rightarrow> ret = old \<and> err = None \<and> hm' = hm \<and> ctx' = ctx
       | None \<Rightarrow> err = put_errno hm key h
           \<and> (if put_fails hm key h then ret = None \<and> hm' = hm \<and> ctx' = ctx
              else ret = v \<and> ctx' = ctx1 \<and> hm_lookup hm' = (\<lambda>k. if equals hm key k then Some v else hm_lookup hm k)
                \<and> map_size hm' = map_size hm + 1))"
  using hashmapMemoize_step [of hm initialValue key ctx, OF assms, of h] by (elim exE conjE) (intro exI conjI; assumption)

text \<open>
  C30: \<open>hashmapForEach\<close> ends and calls a callback that reads the map exactly once on every entry, in the order of
  the buckets, until the callback returns \<open>false\<close>; it never follows a dangling pointer.
\<close>

theorem hashmapForEach_once:
  assumes "hm_ok hm" "live (owned hm) h"
  shows "hashmapForEach hm (read_only go f) ctx = Some (Inr (hm, fold_until go f (entries hm) ctx))"
  using reader.for_each_visits [OF _ hm_ok_walk [OF assms]] by (simp add: visit_read_only)

text \<open>
  C31: for an initial capacity below \<open>2^60\<close>, \<open>hashmapCreate\<close> returns an empty map that can hold that many entries
  before it grows, or \<open>NULL\<close> if one of its two allocations fails, and then what it allocated is freed.
\<close>

theorem hashmapCreate_ok:
  fixes hf :: "'k \<Rightarrow> 32 word"
  assumes "0 \<le> cap" "cap < 2 ^ 60" "equivp eq" "\<forall>a b. eq a b \<longrightarrow> hf a = hf b"
  shows "\<exists>(r :: ('k, 'v) Hashmap option) h'. hashmapCreate cap hf eq h = (r, h')
    \<and> (case r of
         None \<Rightarrow> grows [] h [] h' \<and> (mem_fail h (mem_next h) \<or> mem_fail h (Suc (mem_next h)))
       | Some hm \<Rightarrow> hm_ok hm \<and> grows [] h (owned hm) h' \<and> (\<forall>key. hashmapGet hm key = Inr None) \<and> hashmapSize hm = 0
           \<and> cap \<le> hashmapCurrentCapacity hm)"
proof -
  obtain r :: "('k, 'v) Hashmap option" and h' where r: "hashmapCreate cap hf eq h = (r, h')" "case r of
         None \<Rightarrow> grows [] h [] h' \<and> (mem_fail h (mem_next h) \<or> mem_fail h (Suc (mem_next h)))
       | Some hm \<Rightarrow> hm_ok hm \<and> grows [] h (owned hm) h' \<and> hm_lookup hm = (\<lambda>_. None) \<and> map_size hm = 0
           \<and> cap \<le> hashmapCurrentCapacity hm \<and> equals hm = eq"
    using hashmapCreate_step [OF assms(1-3), of hf h] assms(4) by blast
  then show ?thesis
    by (intro exI [of _ r] exI [of _ h']) (auto simp: hashmapSize_def hashmapGet_eq split: option.splits)
qed

text \<open>
  The load factor: as long as memory lasts, a map with no more entries than its capacity (as
  \<open>hashmapCreate\<close> returns it) still has no more after \<open>hashmapPut\<close>.
\<close>

theorem hashmapPut_load:
  assumes "hm_ok hm" "map_size hm < 2 ^ 60" "never_fails h" "hashmapSize hm \<le> hashmapCurrentCapacity hm"
  shows "\<exists>ret hm' h'. hashmapPut hm key v h = (Inr (ret, None, hm'), h') \<and> hashmapSize hm' \<le> hashmapCurrentCapacity hm'"
proof -
  have c: "hashmapCurrentCapacity m = bucketCount m * 3 div 4" if "hm_ok m" for m :: "('a, 'b) Hashmap"
    using that pow2_three_quarters(1) [of "bucketCount m"] by (auto simp: hm_ok_def hashmapCurrentCapacity_def)
  obtain ret err hm' h' where p: "hashmapPut hm key v h = (Inr (ret, err, hm'), h')" "hm_ok hm'"
    "(\<forall>a. \<not> mem_fail h a) \<longrightarrow> map_size hm \<le> bucketCount hm * 3 div 4 \<longrightarrow> map_size hm' \<le> bucketCount hm' * 3 div 4"
    "err = put_errno hm key h"
    using hashmapPut_step [OF assms(1,2), of key v h] by blast
  have "err = None" using p(4) put_errno_never [OF assms(3), of hm key] by simp
  with p c assms(1,3,4) show ?thesis by (auto simp: hashmapSize_def never_fails_def)
qed

text \<open>
  \<open>hashmapCountCollisions\<close> counts every entry but one per chain that is not empty.
\<close>

theorem hashmapCountCollisions_eq:
  assumes "hm_ok hm"
  shows "hashmapCountCollisions hm + int (length (filter (\<lambda>c. c \<noteq> []) (buckets hm))) = hashmapSize hm"
proof -
  have "int (length (concat (buckets hm))) = map_size hm" "map_size hm \<le> 2 ^ 60" using assms by (auto simp: hm_ok_def entries_def)
  then show ?thesis using collisions_eq [of 0 "buckets hm"] by (simp add: hashmapCountCollisions_def hashmapSize_def)
qed

text \<open>An example: a map of \<open>int\<close> keys with one chain and one entry.\<close>

definition ex_heap :: heap where
  "ex_heap = \<lparr>mem_next = 4, mem_fail = \<lambda>_. False, freed = []\<rparr>"

definition ex_empty :: "(32 word, nat) Hashmap" where
  "ex_empty = \<lparr>map_addr = 0, buckets_addr = 1, buckets = [[]], bucketCount = 1,
     hash = hashmapIntHash, equals = hashmapIntEquals, map_size = 0\<rparr>"

definition ex_map :: "(32 word, nat) Hashmap" where
  "ex_map = ex_empty\<lparr>buckets := [[\<lparr>entry_addr = 2, entry_key = 5, entry_hash = hashKey ex_empty 5, entry_value = Some 7\<rparr>]],
     map_size := 1\<rparr>"

lemma ex_keys: "equivp hashmapIntEquals"
  by (auto simp: equivp_def fun_eq_iff hashmapIntEquals_def)

lemma ex_map_ok: "hm_ok ex_map" "map_size ex_map < 2 ^ 60"
proof -
  have "hashKey ex_map 5 = hashKey ex_empty 5" by (simp add: hashKey_def ex_map_def)
  then show "hm_ok ex_map"
    using ex_keys by (auto simp: hm_ok_def ex_map_def ex_empty_def keys_ok_def placed_def distinct_keys_def entries_def
        hashmapIntEquals_def calculateIndex_def intro!: exI [of _ 0])
qed (simp add: ex_map_def)

lemma ex_lookup: "hm_lookup ex_map 5 = Some (Some 7)" "hm_lookup ex_map 6 = None" "equals ex_map = hashmapIntEquals"
  by (simp_all add: hm_lookup_def entries_def ex_map_def ex_empty_def hashmapIntEquals_def)

lemma ex_heap_ok: "never_fails ex_heap" "live (owned ex_map) ex_heap"
  by (simp_all add: never_fails_def ex_heap_def live_def owned_def entries_def ex_map_def ex_empty_def)

theorem hashmapPut_refines_witness:
  "\<exists>ret err hm' h'. hashmapPut ex_map 6 (Some 8) ex_heap = (Inr (ret, err, hm'), h') \<and> hm_ok hm' \<and> err = None
    \<and> hm_lookup hm' 6 = Some (Some 8) \<and> hm_lookup hm' 5 = Some (Some 7) \<and> map_size hm' = 2"
proof -
  have "map_size ex_map = 1" by (simp add: ex_map_def)
  then show ?thesis
    using hashmapPut_refines [OF ex_map_ok, of 6 "Some 8" ex_heap] ex_lookup ex_heap_ok(1)
    by (elim exE) (auto simp: hashmapIntEquals_def put_fails_def grow_fails_def)
qed

theorem hashmap_sequence_witness:
  "\<exists>hm' h' hm2 h2 old. put_seq hashmapPut [(6, Some 8), (6, Some 9)] ex_map ex_heap = (Inr hm', h')
    \<and> hashmapRemove hm' 6 h' = (Inr (old, hm2), h2) \<and> hashmapGet hm' 6 = Inr (Some 9) \<and> hashmapGet hm2 6 = Inr None"
proof -
  have "dict_ok hashmapIntEquals (length [(6::32 word, Some (8::nat)), (6, Some 9)]) ex_map ex_heap"
    using ex_map_ok ex_heap_ok ex_lookup by (simp add: dict_ok_def ex_map_def)
  from hashmap_sequence [OF this, of 6 6] show ?thesis by (auto simp: hashmapIntEquals_def)
qed

theorem hashmapRemove_refines_witness:
  "\<exists>hm' h'. hashmapRemove ex_map 5 ex_heap = (Inr (Some 7, hm'), h') \<and> hm_ok hm' \<and> hm_lookup hm' 5 = None"
  using hashmapRemove_refines [OF ex_map_ok(1), of 5 ex_heap] ex_lookup by (auto simp: hashmapIntEquals_def)

theorem hashmapMemoize_once_witness:
  "\<exists>ret err hm' ctx' h'. hashmapMemoize ex_map 6 (\<lambda>k c. (Some (unat k), Suc c)) 0 ex_heap = (Inr (ret, err, hm', ctx'), h')
    \<and> ret = Some 6 \<and> ctx' = 1"
  proof -
  have "(\<lambda>k c. (Some (unat k), Suc c)) (6 :: 32 word) 0 = (Some 6, 1)" by simp
  from hashmapMemoize_once [of ex_map "\<lambda>k c. (Some (unat k), Suc c)" 6 0, OF ex_map_ok this, of ex_heap]
  show ?thesis using ex_lookup ex_heap_ok(1) by (elim exE) (simp add: put_fails_def)
qed

theorem hashmapForEach_once_witness:
  "hashmapForEach ex_map (read_only (\<lambda>_ _ _. True) (\<lambda>k v c. (k, v) # c)) [] = Some (Inr (ex_map, [(5, Some 7)]))"
  using hashmapForEach_once [OF ex_map_ok(1) ex_heap_ok(2), of "\<lambda>_ _ _. True" "\<lambda>k v c. (k, v) # c" "[]"]
  by (simp add: entries_def ex_map_def)

theorem hashmapCreate_ok_witness:
  "\<exists>hm h'. hashmapCreate 5 hashmapIntHash hashmapIntEquals ex_heap = (Some (hm :: (32 word, nat) Hashmap), h') \<and> hm_ok hm
    \<and> 5 \<le> hashmapCurrentCapacity hm"
proof -
  have "\<forall>a b. hashmapIntEquals a b \<longrightarrow> hashmapIntHash a = hashmapIntHash b" by (simp add: hashmapIntEquals_def)
  from hashmapCreate_ok [OF _ _ ex_keys this, of 5 ex_heap, where 'v = nat] ex_heap_ok(1) show ?thesis
    by (auto split: option.splits)
qed

theorem hashmapPut_load_witness:
  "\<exists>ret hm' h'. hashmapPut ex_empty 5 (Some 7) ex_heap = (Inr (ret, None, hm'), h') \<and> hashmapSize hm' \<le> hashmapCurrentCapacity hm'"
proof -
  have "hm_ok ex_empty" using ex_keys
    by (auto simp: hm_ok_def ex_empty_def keys_ok_def placed_def distinct_keys_def entries_def hashmapIntEquals_def intro!: exI [of _ 0])
  then show ?thesis
    by (rule hashmapPut_load) (use ex_heap_ok in \<open>simp_all add: ex_empty_def hashmapSize_def hashmapCurrentCapacity_def u64_def\<close>)
qed

theorem hashmapCountCollisions_eq_witness: "hashmapCountCollisions ex_map + 1 = hashmapSize ex_map"
  using hashmapCountCollisions_eq [OF ex_map_ok(1)] by (simp add: ex_map_def)

end
