(* ===== verification/Hashmap_Reach.thy ===== *)
theory Hashmap_Reach
  imports Hashmap_Correct
begin

text \<open>
  The states a program can bring a hash map into: what \<open>hashmapCreate\<close> returns, and then any sequence of the operations
  that change a map, with every allocation failure. The invariant holds in all of them and no operation faults.
\<close>

text \<open>
  \<open>reachable hf eq h0 hm h\<close>: from the heap \<open>h0\<close>, calls led to the map \<open>hm\<close> and the heap \<open>h\<close>. The bound on the size is
  what fits into an address space: an entry has 32 bytes. \<open>other\<close> is an allocation by another part of the program.
\<close>

inductive reachable :: "('k \<Rightarrow> 32 word) \<Rightarrow> ('k \<Rightarrow> 'k \<Rightarrow> bool) \<Rightarrow> heap \<Rightarrow> ('k, 'v) Hashmap \<Rightarrow> heap \<Rightarrow> bool"
  for hf eq h0 where
  create: "hashmapCreate cap hf eq h0 = (Some hm, h) \<Longrightarrow> 0 \<le> cap \<Longrightarrow> cap < 2 ^ 60 \<Longrightarrow> reachable hf eq h0 hm h"
| put: "reachable hf eq h0 hm h \<Longrightarrow> map_size hm < 2 ^ 60 \<Longrightarrow> hashmapPut hm key v h = (Inr (ret, err, hm'), h') \<Longrightarrow> reachable hf eq h0 hm' h'"
| memoize: "reachable hf eq h0 hm h \<Longrightarrow> map_size hm < 2 ^ 60 \<Longrightarrow>
    hashmapMemoize hm key initialValue (ctx :: nat) h = (Inr (ret, err, hm', ctx'), h') \<Longrightarrow> reachable hf eq h0 hm' h'"
| remove: "reachable hf eq h0 hm h \<Longrightarrow> hashmapRemove hm key h = (Inr (ret, hm'), h') \<Longrightarrow> reachable hf eq h0 hm' h'"
| other: "reachable hf eq h0 hm h \<Longrightarrow> malloc h = (p, h') \<Longrightarrow> reachable hf eq h0 hm h'"

definition reach_ok :: "('k, 'v) Hashmap \<Rightarrow> heap \<Rightarrow> bool" where
  "reach_ok hm h \<longleftrightarrow> hm_ok hm \<and> live (owned hm) h"

lemma reachable_ok:
  fixes hm :: "('k, 'v) Hashmap"
  assumes "reachable hf eq h0 hm h" "equivp eq" "\<And>a b. eq a b \<Longrightarrow> hf a = hf b" "live [] h0"
  shows "reach_ok hm h"
  using assms(1)
proof induction
  case (create cap hm h)
  obtain r :: "('k, 'v) Hashmap option" and h' where "hashmapCreate cap hf eq h0 = (r, h')"
    "case r of None \<Rightarrow> True | Some hm \<Rightarrow> hm_ok hm \<and> grows [] h0 (owned hm) h'"
    using hashmapCreate_step [OF create(2,3) assms(2), of hf h0] assms(3) by (fastforce split: option.splits)
  then show ?case using create(1) grows_live [OF assms(4)] by (auto simp: reach_ok_def)
next
  case (put hm h key v ret err hm' h')
  then show ?case using hashmapPut_step [of hm key v h] grows_live by (fastforce simp: reach_ok_def)
next
  case (memoize hm h key initialValue ctx ret err hm' ctx' h')
  obtain v ctx1 where "initialValue key ctx = (v, ctx1)" by (cases "initialValue key ctx") auto
  from hashmapMemoize_step [of hm initialValue key ctx v ctx1 h, OF _ memoize(2) this] show ?case
    using memoize grows_live by (fastforce simp: reach_ok_def)
next
  case (remove hm h key ret hm' h')
  then show ?case using hashmapRemove_step [of hm key h] grows_live by (fastforce simp: reach_ok_def)
next
  case (other hm h p h')
  have "mem_next h \<le> mem_next h'" "freed h' = freed h" using other(2) by (auto simp: malloc_def split: if_splits)
  then show ?case using other(3) unfolding reach_ok_def live_def by (metis less_le_trans)
qed

text \<open>
  C25: every map a program can make is well-formed: from \<open>hashmapCreate\<close>, with a hash that respects the equality of
  keys, through any sequence of insertions, memoizations and removals and any failures of \<open>malloc\<close>, the number of
  chains stays a power of two, every entry stands in the chain of its hash with the hash of its key, no two entries have
  equal keys, the size is the number of entries, and the map owns only memory that is allocated. In each of these
  states every operation returns, without a fault.
\<close>

theorem hashmap_well_formed:
  fixes hm :: "('k, 'v) Hashmap"
  assumes "reachable hf eq h0 hm h" "equivp eq" "\<forall>a b. eq a b \<longrightarrow> hf a = hf b" "live [] h0"
  shows "hm_ok hm \<and> live (owned hm) h \<and> (\<exists>v. hashmapGet hm key = Inr v) \<and> (\<exists>b. hashmapContainsKey hm key = Inr b)
    \<and> (\<exists>r hm' h'. hashmapRemove hm key h = (Inr (r, hm'), h'))
    \<and> (map_size hm < 2 ^ 60 \<longrightarrow> (\<exists>r err hm' h'. hashmapPut hm key v h = (Inr (r, err, hm'), h')))
    \<and> (map_size hm < 2 ^ 60 \<longrightarrow> (\<exists>r err hm' c h'. hashmapMemoize hm key f (ctx :: 'c) h = (Inr (r, err, hm', c), h')))"
proof -
  have ok: "hm_ok hm" "live (owned hm) h" using reachable_ok [OF assms(1,2)] assms(3,4) by (auto simp: reach_ok_def)
  obtain v1 ctx1 where f: "f key ctx = (v1, ctx1)" by (cases "f key ctx") auto
  show ?thesis using ok hashmapGet_eq [OF ok(1)] hashmapContainsKey_eq [OF ok(1)] hashmapRemove_step [OF ok(1), of key h]
      hashmapPut_step [OF ok(1), of key v h] hashmapMemoize_step [of hm f key ctx v1 ctx1 h, OF ok(1) _ f] by auto
qed

theorem hashmap_well_formed_witness:
  "\<exists>(hm :: (32 word, nat) Hashmap) h. reachable hashmapIntHash hashmapIntEquals ex_heap hm h \<and> hm_ok hm \<and> live (owned hm) h \<and> map_size hm = 1"
proof -
  have eq: "\<forall>a b. hashmapIntEquals a b \<longrightarrow> hashmapIntHash a = hashmapIntHash b" by (simp add: hashmapIntEquals_def)
  have l: "live [] ex_heap" by (simp add: live_def ex_heap_def)
  obtain hm :: "(32 word, nat) Hashmap" and h where c: "hashmapCreate 5 hashmapIntHash hashmapIntEquals ex_heap = (Some hm, h)"
    "hm_ok hm" "map_size hm = 0" "hm_lookup hm = (\<lambda>_. None)" "mem_fail h = mem_fail ex_heap"
    using hashmapCreate_step [OF _ _ ex_keys, of 5 hashmapIntHash ex_heap, where 'b = nat] eq ex_heap_ok(1)
    by (fastforce simp: never_fails_def split: option.splits)
  obtain ret err hm' h' where p: "hashmapPut hm 5 (Some 7) h = (Inr (ret, err, hm'), h')" "map_size hm' = 1"
  proof -
    have r: "map_size hm < 2 ^ 60" "\<not> put_fails hm 5 h" using c(3,5) by (simp_all add: put_fails_def ex_heap_def)
    obtain ret err hm' h' where q: "hashmapPut hm 5 (Some 7) h = (Inr (ret, err, hm'), h')"
      "map_size hm' = map_size hm + (if hm_lookup hm 5 = None then 1 else 0)"
      using hashmapPut_step [OF c(2) r(1), of 5 "Some 7" h] unfolding if_not_P [OF r(2)] by blast
    show thesis using q(2) c(3,4) by (intro that [OF q(1)]) simp
  qed
  have "reachable hashmapIntHash hashmapIntEquals ex_heap hm h" using c(1) by (rule reachable.create) simp_all
  moreover have "map_size hm < 2 ^ 60" using c(3) by simp
  ultimately have r: "reachable hashmapIntHash hashmapIntEquals ex_heap hm' h'" using p(1) by (rule reachable.put)
  have "hm_ok hm' \<and> live (owned hm') h'"
    using hashmap_well_formed [OF r ex_keys eq l, where key = 5 and v = None and f = "\<lambda>_ c. (None, c)" and ctx = "0 :: nat"] by simp
  then show ?thesis using r p(2) by blast
qed

end
