(* ===== verification/Str_Parms.thy ===== *)
theory Str_Parms
  imports Hashmap
begin

text \<open>
  The key-value strings of \<open>libcutils/str_parms.c\<close>, on top of the hash table.

  A \<open>char *\<close> is an address with the string stored there (up to its terminating NUL), \<open>None\<close> is \<open>NULL\<close>;
  strings are never written after they are made. The heap records what is freed, so that ownership of the
  keys and values, which the comments of the source describe, is part of the model. \<open>strdup\<close>,
  \<open>strtok_r\<close>, \<open>strchr\<close>, \<open>strlcpy\<close>, \<open>asprintf\<close> and \<open>strtol\<close> are modelled as the C standard and POSIX describe them.
  A \<open>NULL\<close> key handed to the map (\<open>str_parms_create_str\<close> does not check \<open>strdup\<close>) is a fault. The conversions
  of \<open>float\<close> values are not modelled.
\<close>

section \<open>The C library\<close>

type_synonym cstr = "nat \<times> string"

definition strdup :: "string \<Rightarrow> heap \<Rightarrow> cstr option \<times> heap" where
  "strdup s h = (case malloc h of (None, h1) \<Rightarrow> (None, h1) | (Some a, h1) \<Rightarrow> (Some (a, s), h1))"

definition free_str :: "cstr option \<Rightarrow> heap \<Rightarrow> heap" where
  "free_str p h = (case p of None \<Rightarrow> h | Some (a, _) \<Rightarrow> free_at a h)"

text \<open>\<open>strtok_r\<close>: the token and the rest of the string.\<close>

definition strtok_r :: "char \<Rightarrow> string \<Rightarrow> (string \<times> string) option" where
  "strtok_r d s =
     (let t = dropWhile (\<lambda>c. c = d) s
      in if t = [] then None else Some (takeWhile (\<lambda>c. c \<noteq> d) t, drop 1 (dropWhile (\<lambda>c. c \<noteq> d) t)))"

lemma strtok_r_less:
  assumes "strtok_r d s = Some (t, rest)"
  shows "length rest < length s"
proof -
  let ?u = "dropWhile (\<lambda>c. c = d) s"
  have u: "?u \<noteq> []" "rest = drop 1 (dropWhile (\<lambda>c. c \<noteq> d) ?u)"
    using assms by (auto simp: strtok_r_def Let_def split: if_splits)
  then have "hd ?u \<noteq> d" using hd_dropWhile [of "\<lambda>c. c = d" s] by simp
  then have "length (dropWhile (\<lambda>c. c \<noteq> d) ?u) < length ?u"
    using u(1) length_dropWhile_le [of "\<lambda>c. c \<noteq> d" "tl ?u"] by (cases ?u) auto
  moreover have "length ?u \<le> length s" by (rule length_dropWhile_le)
  ultimately show ?thesis using u(2) by simp
qed

text \<open>\<open>strlcpy\<close> into a buffer of \<open>n\<close> bytes: its result, and what the buffer then holds as a string.\<close>

definition strlcpy :: "string \<Rightarrow> int \<Rightarrow> int \<times> string option" where
  "strlcpy src n = (int (length src), if n = 0 then None else Some (take (nat (n - 1)) src))"

text \<open>\<open>snprintf\<close> with \<open>%d\<close> into a buffer that is large enough, and \<open>strtol\<close> with base 0 of a 64-bit \<open>long\<close>.\<close>

definition digit_char :: "nat \<Rightarrow> char" where
  "digit_char n = char_of (48 + n)"

fun nat_string :: "nat \<Rightarrow> string" where
  "nat_string n = (if n < 10 then [digit_char n] else nat_string (n div 10) @ [digit_char (n mod 10)])"

definition int_string :: "int \<Rightarrow> string" where
  "int_string i = (if i < 0 then CHR ''-'' # nat_string (nat (- i)) else nat_string (nat i))"

definition isspace_c :: "char \<Rightarrow> bool" where
  "isspace_c c \<longleftrightarrow> of_char c \<in> {9, 10, 11, 12, 13, 32 :: nat}"

definition digit_value :: "nat \<Rightarrow> char \<Rightarrow> nat option" where
  "digit_value base c =
     (let n = of_char c :: nat;
          v = (if 48 \<le> n \<and> n \<le> 57 then n - 48 else if 97 \<le> n \<and> n \<le> 122 then n - 87
               else if 65 \<le> n \<and> n \<le> 90 then n - 55 else 36)
      in if v < base then Some v else None)"

fun digits :: "nat \<Rightarrow> int \<Rightarrow> string \<Rightarrow> int \<times> string" where
  "digits base acc [] = (acc, [])"
| "digits base acc (c # cs) =
     (case digit_value base c of None \<Rightarrow> (acc, c # cs) | Some v \<Rightarrow> digits base (acc * int base + int v) cs)"

definition strtol_base :: "string \<Rightarrow> nat \<times> string" where
  "strtol_base s =
     (case s of
        z # x # d # r \<Rightarrow>
          (if z = CHR ''0'' \<and> (x = CHR ''x'' \<or> x = CHR ''X'') \<and> digit_value 16 d \<noteq> None then (16, d # r)
           else if z = CHR ''0'' then (8, s) else (10, s))
      | z # _ \<Rightarrow> (if z = CHR ''0'' then (8, s) else (10, s))
      | [] \<Rightarrow> (10, s))"

text \<open>The number and what follows it; the whole string follows when there is no digit.\<close>

definition strtol :: "string \<Rightarrow> int \<times> string" where
  "strtol s =
     (let t = dropWhile isspace_c s;
          neg = (t \<noteq> [] \<and> hd t = CHR ''-'');
          u = (if t \<noteq> [] \<and> (hd t = CHR ''-'' \<or> hd t = CHR ''+'') then tl t else t)
      in case strtol_base u of
           (base, v) \<Rightarrow>
             if v = [] \<or> digit_value base (hd v) = None then (0, s)
             else case digits base 0 v of
                    (n, rest) \<Rightarrow> (max (- 9223372036854775808) (min 9223372036854775807 (if neg then - n else n)), rest))"

section \<open>The code\<close>

record str_parms =
  sp_addr :: nat
  sp_map :: "(cstr, cstr) Hashmap"

definition str_eq :: "cstr \<Rightarrow> cstr \<Rightarrow> bool" where
  "str_eq key_a key_b \<longleftrightarrow> snd key_a = snd key_b"

definition str_hash_fn :: "cstr \<Rightarrow> 32 word" where
  "str_hash_fn str = foldl (\<lambda>hash p. (push_bit 5 hash + hash) + signed (of_char p :: 8 word)) 5381 (snd str)"

definition str_parms_create :: "heap \<Rightarrow> str_parms option \<times> heap" where
  "str_parms_create h =
     (case malloc h of
        (None, h1) \<Rightarrow> (None, h1)
      | (Some a, h1) \<Rightarrow>
          (case hashmapCreate 5 str_hash_fn str_eq h1 of
             (None, h2) \<Rightarrow> (None, free_at a h2)
           | (Some m, h2) \<Rightarrow> (Some \<lparr>sp_addr = a, sp_map = m\<rparr>, h2)))"

text \<open>The callback of the removals. Its context is the key to remove, \<open>None\<close> for all, and the heap.\<close>

definition do_remove :: "bool \<Rightarrow> (cstr, cstr, heap) callback" where
  "do_remove should_continue key value hm h =
     (case hashmapRemove hm key h of
        (Inl e, _) \<Rightarrow> Inl e
      | (Inr (_, hm1), h1) \<Rightarrow> Inr (should_continue, hm1, free_str value (free_str (Some key) h1)))"

definition remove_pair :: "string option \<Rightarrow> (cstr, cstr, heap) callback" where
  "remove_pair ctxt_key key value hm h =
     (case ctxt_key of
        None \<Rightarrow> do_remove True key value hm h
      | Some k \<Rightarrow> if k = snd key then do_remove False key value hm h else Inr (True, hm, h))"

definition str_parms_del :: "str_parms \<Rightarrow> string option \<Rightarrow> heap \<Rightarrow> (str_parms \<times> heap) res option" where
  "str_parms_del sp key h =
     map_option (\<lambda>r. rbind r (\<lambda>(m, h1). Inr (sp\<lparr>sp_map := m\<rparr>, h1))) (hashmapForEach (sp_map sp) (remove_pair key) h)"

definition str_parms_destroy :: "str_parms \<Rightarrow> heap \<Rightarrow> heap res option" where
  "str_parms_destroy sp h =
     map_option (\<lambda>r. rbind r (\<lambda>(m, h1). Inr (free_at (sp_addr sp) (hashmapFree m h1))))
       (hashmapForEach (sp_map sp) (remove_pair None) h)"

text \<open>One pair of \<open>str_parms_create_str\<close>.\<close>

definition create_pair :: "string \<Rightarrow> (cstr, cstr) Hashmap \<Rightarrow> heap \<Rightarrow> ((cstr, cstr) Hashmap \<times> int) res \<times> heap" where
  "create_pair kvpair m h =
     (let before = takeWhile (\<lambda>c. c \<noteq> CHR ''='') kvpair;
          eq = dropWhile (\<lambda>c. c \<noteq> CHR ''='') kvpair
      in if eq = kvpair then (Inr (m, 0), h)
         else case strdup before h of
                (key, h1) \<Rightarrow>
                  (case strdup (drop 1 eq) h1 of
                     (value, h2) \<Rightarrow>
                       (case key of
                          None \<Rightarrow> (Inl Null_deref, h2)
                        | Some k \<Rightarrow>
                            (case hashmapPut m k value h2 of
                               (Inl e, h3) \<Rightarrow> (Inl e, h3)
                             | (Inr (old_val, _, m1), h3) \<Rightarrow>
                                 (Inr (m1, 1), if old_val \<noteq> None then free_str (Some k) (free_str old_val h3) else h3)))))"

function create_loop :: "string \<Rightarrow> (cstr, cstr) Hashmap \<Rightarrow> int \<Rightarrow> heap \<Rightarrow> ((cstr, cstr) Hashmap \<times> int) res \<times> heap" where
  "create_loop str m items h =
     (case strtok_r (CHR '';'') str of
        None \<Rightarrow> (Inr (m, items), h)
      | Some (kvpair, rest) \<Rightarrow>
          (case create_pair kvpair m h of
             (Inl e, h1) \<Rightarrow> (Inl e, h1)
           | (Inr (m1, n), h1) \<Rightarrow> create_loop rest m1 (i32 (items + n)) h1))"
  by pat_completeness auto
termination
  by (relation "measure (\<lambda>(str, _). length str)") (auto dest: strtok_r_less)

declare create_loop.simps [simp del]

definition str_parms_create_str :: "string \<Rightarrow> heap \<Rightarrow> str_parms option res option \<times> heap" where
  "str_parms_create_str s h =
     (case str_parms_create h of
        (None, h1) \<Rightarrow> (Some (Inr None), h1)
      | (Some sp, h1) \<Rightarrow>
          (case strdup s h1 of
             (None, h2) \<Rightarrow>
               (case str_parms_destroy sp h2 of
                  None \<Rightarrow> (None, h2) | Some (Inl e) \<Rightarrow> (Some (Inl e), h2) | Some (Inr h3) \<Rightarrow> (Some (Inr None), h3))
           | (Some str, h2) \<Rightarrow>
               (case create_loop s (sp_map sp) 0 h2 of
                  (Inl e, h3) \<Rightarrow> (Some (Inl e), h3)
                | (Inr (m, _), h3) \<Rightarrow> (Some (Inr (Some (sp\<lparr>sp_map := m\<rparr>))), free_str (Some str) h3))))"

text \<open>\<open>str_parms_add_str\<close>: the result is \<open>- errno\<close>.\<close>

definition str_parms_add_str :: "str_parms \<Rightarrow> string \<Rightarrow> string \<Rightarrow> heap \<Rightarrow> (int \<times> str_parms) res \<times> heap" where
  "str_parms_add_str sp key value h =
     (case strdup key h of
        (None, h1) \<Rightarrow> (Inr (- ENOMEM, sp), h1)
      | (Some tmp_key, h1) \<Rightarrow>
          (case strdup value h1 of
             (None, h2) \<Rightarrow> (Inr (- ENOMEM, sp), free_str (Some tmp_key) h2)
           | (Some tmp_val, h2) \<Rightarrow>
               (case hashmapPut (sp_map sp) tmp_key (Some tmp_val) h2 of
                  (Inl e, h3) \<Rightarrow> (Inl e, h3)
                | (Inr (None, errno, m), h3) \<Rightarrow>
                    if errno = Some ENOMEM
                    then (Inr (- ENOMEM, sp\<lparr>sp_map := m\<rparr>), free_str (Some tmp_val) (free_str (Some tmp_key) h3))
                    else (Inr (0, sp\<lparr>sp_map := m\<rparr>), h3)
                | (Inr (Some old_val, errno, m), h3) \<Rightarrow>
                    (Inr (- (case errno of None \<Rightarrow> 0 | Some e \<Rightarrow> e), sp\<lparr>sp_map := m\<rparr>),
                     free_str (Some old_val) (free_str (Some tmp_key) h3)))))"

definition str_parms_add_int :: "str_parms \<Rightarrow> string \<Rightarrow> int \<Rightarrow> heap \<Rightarrow> (int \<times> str_parms) res \<times> heap" where
  "str_parms_add_int sp key value h = str_parms_add_str sp key (take 11 (int_string value)) h"

definition str_parms_has_key :: "str_parms \<Rightarrow> cstr \<Rightarrow> bool res" where
  "str_parms_has_key sp key = rbind (hashmapGet (sp_map sp) key) (\<lambda>v. Inr (v \<noteq> None))"

definition ENOENT :: int where "ENOENT = 2"

text \<open>The lookups: the result, and what is stored at the output pointer if anything.\<close>

definition str_parms_get_str :: "str_parms \<Rightarrow> cstr \<Rightarrow> int \<Rightarrow> (int \<times> string option) res" where
  "str_parms_get_str sp key len =
     rbind (hashmapGet (sp_map sp) key) (\<lambda>value.
       Inr (case value of Some v \<Rightarrow> (case strlcpy (snd v) (u64 len) of (n, out) \<Rightarrow> (i32 n, out)) | None \<Rightarrow> (- ENOENT, None)))"

definition str_parms_get_int :: "str_parms \<Rightarrow> cstr \<Rightarrow> (int \<times> int option) res" where
  "str_parms_get_int sp key =
     rbind (hashmapGet (sp_map sp) key) (\<lambda>value.
       Inr (case value of
              None \<Rightarrow> (- ENOENT, None)
            | Some v \<Rightarrow>
                (case strtol (snd v) of
                   (n, end_str) \<Rightarrow> (if snd v \<noteq> [] \<and> end_str = [] then 0 else - EINVAL, Some (i32 n)))))"

text \<open>\<open>asprintf\<close> with \<open>%s\<close> prints \<open>(null)\<close> for a \<open>NULL\<close> value.\<close>

definition str_of :: "cstr option \<Rightarrow> string" where
  "str_of p = (case p of None \<Rightarrow> ''(null)'' | Some (_, s) \<Rightarrow> s)"

definition combine_strings :: "(cstr, cstr, cstr option \<times> heap) callback" where
  "combine_strings key value hm ctx =
     (case ctx of
        (old_str, h) \<Rightarrow>
          (case strdup ((case old_str of None \<Rightarrow> '''' | Some (_, s) \<Rightarrow> s) @ (case old_str of None \<Rightarrow> '''' | Some _ \<Rightarrow> '';'')
                        @ snd key @ ''='' @ str_of value) h of
             (new_str, h1) \<Rightarrow> Inr (new_str \<noteq> None, hm, new_str, free_str old_str h1)))"

definition str_parms_to_str :: "str_parms \<Rightarrow> heap \<Rightarrow> (str_parms \<times> cstr option \<times> heap) res option" where
  "str_parms_to_str sp h =
     (if hashmapSize (sp_map sp) > 0
      then map_option (\<lambda>r. rbind r (\<lambda>(m, str, h1). Inr (sp\<lparr>sp_map := m\<rparr>, str, h1)))
             (hashmapForEach (sp_map sp) combine_strings (None, h))
      else case strdup '''' h of (str, h1) \<Rightarrow> Some (Inr (sp, str, h1)))"

text \<open>\<open>str_parms_dump\<close> logs every pair; the context is the log.\<close>

definition dump_entry :: "(cstr, cstr, (string \<times> string) list) callback" where
  "dump_entry key value hm log = Inr (True, hm, log @ [(snd key, str_of value)])"

definition str_parms_dump :: "str_parms \<Rightarrow> (string \<times> string) list \<Rightarrow> ((cstr, cstr) Hashmap \<times> (string \<times> string) list) res option" where
  "str_parms_dump sp log = hashmapForEach (sp_map sp) dump_entry log"

end
