(* ===== verification/Str_Parms_Correct.thy ===== *)
theory Str_Parms_Correct
  imports Str_Parms Hashmap_Correct
begin

text \<open>
  Correctness of \<open>libcutils/str_parms.c\<close>. \<open>sp_ok\<close> is the invariant of an object (that of its hash table, and every
  value present), \<open>sp_owned\<close> the blocks it owns, \<open>pm_lookup\<close> what it maps each key to and \<open>parse_pairs\<close> the
  specification of parsing. The callbacks that \<open>hashmapForEach\<close> is given are instances of the locale \<open>walker\<close>.
\<close>

declare nat_string.simps [simp del]

section \<open>The invariant\<close>

definition entry_strs :: "(cstr, cstr) Entry \<Rightarrow> nat list" where
  "entry_strs e = fst (entry_key e) # (case entry_value e of None \<Rightarrow> [] | Some v \<Rightarrow> [fst v])"

definition map_strs :: "(cstr, cstr) Hashmap \<Rightarrow> nat list" where
  "map_strs m = concat (map entry_strs (entries m))"

definition pm_ok :: "(cstr, cstr) Hashmap \<Rightarrow> bool" where
  "pm_ok m \<longleftrightarrow> hm_ok m \<and> equals m = str_eq \<and> (\<forall>e \<in> set (entries m). entry_value e \<noteq> None)"

text \<open>Everything the map owns: its table, its entries, their keys and values.\<close>

definition pm_owned :: "(cstr, cstr) Hashmap \<Rightarrow> nat list" where
  "pm_owned m = owned m @ map_strs m"

definition pm_lookup :: "(cstr, cstr) Hashmap \<Rightarrow> string \<Rightarrow> string option" where
  "pm_lookup m k = (case hm_lookup m (0, k) of Some (Some v) \<Rightarrow> Some (snd v) | _ \<Rightarrow> None)"

definition sp_ok :: "str_parms \<Rightarrow> bool" where
  "sp_ok sp \<longleftrightarrow> pm_ok (sp_map sp)"

definition sp_owned :: "str_parms \<Rightarrow> nat list" where
  "sp_owned sp = sp_addr sp # pm_owned (sp_map sp)"

lemma str_keys: "equivp str_eq" "str_eq a b \<Longrightarrow> str_hash_fn a = str_hash_fn b"
  by (auto simp: equivp_def fun_eq_iff str_eq_def str_hash_fn_def)

lemma mset_concat_map: "mset (concat (map f xs)) = sum_mset (image_mset (\<lambda>x. mset (f x)) (mset xs))"
  by (induction xs) simp_all

lemma hm_lookup_key:
  assumes "equals m = str_eq"
  shows "hm_lookup m (a, k) = hm_lookup m (0, k)"
  using assms by (simp add: hm_lookup_def str_eq_def)

lemma pm_get:
  assumes "pm_ok m"
  shows "hashmapGet m (a, k) = Inr (Option.bind (hm_lookup m (0, k)) (\<lambda>v. v))"
  using assms hashmapGet_eq [of m "(a, k)"] hm_lookup_key [of m a k] by (simp add: pm_ok_def)

text \<open>No value is \<open>NULL\<close>.\<close>

lemma pm_lookup_cases:
  assumes "pm_ok m"
  obtains "hm_lookup m (0, k) = None" "pm_lookup m k = None"
    | b s where "hm_lookup m (0, k) = Some (Some (b, s))" "pm_lookup m k = Some s"
proof (cases "hm_lookup m (0, k)")
  case (Some v)
  then obtain e where "e \<in> set (entries m)" "entry_value e = v"
    using assms hm_lookup_Some [of m "(0, k)" v] by (auto simp: pm_ok_def hm_ok_def)
  then show ?thesis using that assms Some by (cases v) (auto simp: pm_ok_def pm_lookup_def)
qed (use that in \<open>simp add: pm_lookup_def\<close>)

section \<open>Putting a pair\<close>

text \<open>
  A put of a fresh key and value, and the frees its callers do when a value was replaced: the new value
  is held, and ownership of the strings is handed over.
\<close>

lemma pm_put:
  assumes ok: "pm_ok m" and room: "map_size m < 2 ^ 60"
  shows "\<exists>ret err m' h'. hashmapPut m (a, k) (Some (b, s)) h = (Inr (ret, err, m'), h') \<and> pm_ok m' \<and> mem_fail h' = mem_fail h
    \<and> map_size m' \<le> map_size m + 1 \<and> err = put_errno m (a, k) h
    \<and> (if put_fails m (a, k) h then ret = None \<and> m' = m \<and> grows (pm_owned m) h (pm_owned m) h'
       else pm_lookup m' = (pm_lookup m)(k \<mapsto> s)
        \<and> (case ret of None \<Rightarrow> grows (a # b # pm_owned m) h (pm_owned m') h'
           | Some v \<Rightarrow> grows (a # b # pm_owned m) h (a # fst v # pm_owned m') h'))"
proof -
  have hm: "hm_ok m" "equals m = str_eq" and vals: "\<forall>e \<in> set (entries m). entry_value e \<noteq> None"
    using ok by (auto simp: pm_ok_def)
  obtain ret err m' h' where p: "hashmapPut m (a, k) (Some (b, s)) h = (Inr (ret, err, m'), h')" "hm_ok m'"
    "grows (owned m) h (owned m') h'" "equals m' = equals m" "mem_fail h' = mem_fail h"
    "err = put_errno m (a, k) h"
    "if put_fails m (a, k) h then ret = None \<and> m' = m
       else put_entries m (a, k) (Some (b, s)) m' \<and> ret = Option.bind (hm_lookup m (a, k)) (\<lambda>v. v)
          \<and> hm_lookup m' = (\<lambda>key. if equals m (a, k) key then Some (Some (b, s)) else hm_lookup m key)
          \<and> map_size m' = map_size m + (if hm_lookup m (a, k) = None then 1 else 0)"
    using hashmapPut_step [OF hm(1) room, of "(a, k)" "Some (b, s)" h] by blast
  show ?thesis
  proof (cases "put_fails m (a, k) h")
    case True
    then have "ret = None" "m' = m" using p(7) by simp_all
    moreover have "grows (pm_owned m) h (pm_owned m) h'"
      by (rule grows_mset [OF grows_frame [OF p(3), of "map_strs m"]]) (simp_all add: pm_owned_def \<open>m' = m\<close>)
    ultimately show ?thesis using p(1,5,6) ok True by simp
  next
    case False
    then have lk: "ret = Option.bind (hm_lookup m (a, k)) (\<lambda>v. v)"
      "hm_lookup m' = (\<lambda>key. if snd key = k then Some (Some (b, s)) else hm_lookup m key)"
      "map_size m' = map_size m + (if hm_lookup m (a, k) = None then 1 else 0)" and pe: "put_entries m (a, k) (Some (b, s)) m'"
      using p(7) by (auto simp: hm(2) str_eq_def fun_eq_iff)
    have look: "pm_lookup m' = (pm_lookup m)(k \<mapsto> s)" using lk(2) by (auto simp: pm_lookup_def fun_eq_iff)
    have gr: "grows (a # b # pm_owned m) h (a # b # owned m' @ map_strs m) h'"
      by (rule grows_mset [OF grows_frame [OF p(3), of "a # b # map_strs m"]]) (simp_all add: pm_owned_def)
    show ?thesis
    proof (cases "find (\<lambda>e. equals m (entry_key e) (a, k)) (entries m)")
      case None
      then obtain e where e: "entry_key e = (a, k)" "entry_value e = Some (b, s)" "mset (entries m') = add_mset e (mset (entries m))"
        using pe by (auto simp: put_entries_def)
      have "mset (map_strs m') = {#a, b#} + mset (map_strs m)"
        unfolding map_strs_def mset_concat_map e(3) by (simp add: entry_strs_def e(1,2))
      then have "grows (a # b # pm_owned m) h (pm_owned m') h'"
        by (intro grows_mset [OF gr]) (simp_all add: pm_owned_def)
      moreover have "ret = None" using lk(1) None by (simp add: hm_lookup_def)
      moreover have "set (entries m') = insert e (set (entries m))" using e(3) by (metis set_mset_add_mset_insert set_mset_mset)
      then have "pm_ok m'" using p(2,4) hm(2) vals e(2) by (simp add: pm_ok_def)
      ultimately show ?thesis using p(1,5,6) False look lk(3) by simp
    next
      case (Some e)
      then have e: "e \<in> set (entries m)" "hm_lookup m (a, k) = Some (entry_value e)"
        by (auto simp: find_Some_iff hm_lookup_def)
      obtain v where v: "entry_value e = Some v" using e(1) vals by auto
      have eq: "add_mset e (mset (entries m')) = add_mset (e\<lparr>entry_value := Some (b, s)\<rparr>) (mset (entries m))"
        using pe Some by (simp add: put_entries_def)
      have "mset (entry_strs e) + mset (map_strs m') = mset (entry_strs (e\<lparr>entry_value := Some (b, s)\<rparr>)) + mset (map_strs m)"
        using arg_cong [OF eq, of "\<lambda>M. sum_mset (image_mset (\<lambda>x. mset (entry_strs x)) M)"]
        by (simp add: map_strs_def mset_concat_map)
      then have "add_mset (fst v) (mset (map_strs m')) = add_mset b (mset (map_strs m))" by (simp add: entry_strs_def v)
      then have "grows (a # b # pm_owned m) h (a # fst v # pm_owned m') h'"
        by (intro grows_mset [OF gr]) (simp_all add: pm_owned_def)
      moreover have "set (entries m') \<subseteq> insert (e\<lparr>entry_value := Some (b, s)\<rparr>) (set (entries m))"
        using eq by (metis set_mset_add_mset_insert set_mset_mset subset_insertI)
      then have "pm_ok m'" using p(2,4) hm(2) vals by (auto simp: pm_ok_def)
      ultimately show ?thesis using p(1,5,6) False look lk(1,3) e(2) v by simp
    qed
  qed
qed

section \<open>Parsing\<close>

text \<open>What the string means: the pairs between the semicolons, the last one for a key counting.\<close>

fun split_on :: "char \<Rightarrow> string \<Rightarrow> string list" where
  "split_on d [] = [[]]"
| "split_on d (c # cs) = (if c = d then [] # split_on d cs else (c # hd (split_on d cs)) # tl (split_on d cs))"

definition tokens :: "char \<Rightarrow> string \<Rightarrow> string list" where
  "tokens d s = filter (\<lambda>t. t \<noteq> []) (split_on d s)"

definition pair_of :: "string \<Rightarrow> (string \<times> string) option" where
  "pair_of t = (if hd t = CHR ''='' then None
     else Some (takeWhile (\<lambda>c. c \<noteq> CHR ''='') t, drop 1 (dropWhile (\<lambda>c. c \<noteq> CHR ''='') t)))"

definition parse_pairs :: "string \<Rightarrow> (string \<times> string) list" where
  "parse_pairs s = List.map_filter pair_of (tokens (CHR '';'') s)"

lemma split_on_ne: "split_on d s \<noteq> []"
  by (cases s) simp_all

lemma split_on_block: "d \<notin> set t \<Longrightarrow> split_on d (t @ s) = (t @ hd (split_on d s)) # tl (split_on d s)"
  by (induction t) (auto simp: split_on_ne)

lemma split_on_skip: "tokens d (dropWhile (\<lambda>c. c = d) s) = tokens d s"
  by (induction s) (simp_all add: tokens_def)

lemma tokens_strtok:
  "tokens d s = (case strtok_r d s of None \<Rightarrow> [] | Some (t, rest) \<Rightarrow> t # tokens d rest)"
proof -
  define u where "u = dropWhile (\<lambda>c. c = d) s"
  have s: "tokens d s = tokens d u" using split_on_skip [of d s] by (simp add: u_def)
  show ?thesis
  proof (cases "u = []")
    case True
    then have "strtok_r d s = None" by (simp add: strtok_r_def u_def)
    then show ?thesis using s True by (simp add: tokens_def)
  next
    case False
    define t r where "t = takeWhile (\<lambda>c. c \<noteq> d) u" and "r = dropWhile (\<lambda>c. c \<noteq> d) u"
    have "hd u \<noteq> d" using False hd_dropWhile [of "\<lambda>c. c = d" s] by (simp add: u_def)
    then have t: "t \<noteq> []" "d \<notin> set t" "u = t @ r" using False set_takeWhileD by (cases u; force simp: t_def r_def)+
    have st: "strtok_r d s = Some (t, drop 1 r)" using False by (simp add: strtok_r_def u_def t_def r_def Let_def)
    have "tokens d u = t # tokens d (drop 1 r)"
    proof (cases r)
      case Nil
      then show ?thesis using t split_on_block [of d t "[]"] by (simp add: tokens_def)
    next
      case (Cons c r')
      then have "c = d" using hd_dropWhile [of "\<lambda>c. c \<noteq> d" u] by (simp add: r_def)
      then show ?thesis using t Cons split_on_block [of d t "d # r'"] by (simp add: tokens_def)
    qed
    then show ?thesis using s st by simp
  qed
qed

lemma strtok_r_token: "strtok_r d s = Some (t, rest) \<Longrightarrow> t \<noteq> []"
  using hd_dropWhile [of "\<lambda>c. c = d" s]
  by (cases "dropWhile (\<lambda>c. c = d) s") (auto simp: strtok_r_def Let_def)

lemma strdup_ok: "never_fails h \<Longrightarrow> strdup s h = (Some (mem_next h, s), h\<lparr>mem_next := Suc (mem_next h)\<rparr>)"
  by (simp add: strdup_def malloc_def)

lemma create_pair_ok:
  assumes ok: "pm_ok m" and room: "map_size m < 2 ^ 60" and h: "never_fails h" and t: "t \<noteq> []"
  shows "\<exists>m' n h'. create_pair t m h = (Inr (m', n), h') \<and> pm_ok m' \<and> never_fails h' \<and> map_size m' \<le> map_size m + 1
    \<and> grows (pm_owned m) h (pm_owned m') h'
    \<and> pm_lookup m' = (case pair_of t of None \<Rightarrow> pm_lookup m | Some (k, v) \<Rightarrow> (pm_lookup m)(k \<mapsto> v))"
proof (cases "hd t = CHR ''=''")
  case True
  then have "dropWhile (\<lambda>c. c \<noteq> CHR ''='') t = t" using t by (cases t) auto
  then show ?thesis using ok h True by (simp add: create_pair_def Let_def pair_of_def)
next
  case False
  define k v where "k = takeWhile (\<lambda>c. c \<noteq> CHR ''='') t" and "v = drop 1 (dropWhile (\<lambda>c. c \<noteq> CHR ''='') t)"
  have ne: "dropWhile (\<lambda>c. c \<noteq> CHR ''='') t \<noteq> t"
    using False t length_dropWhile_le [of "\<lambda>c. c \<noteq> CHR ''=''" "tl t"] by (cases t) (auto dest: arg_cong [of _ _ length])
  let ?a = "mem_next h" and ?b = "Suc (mem_next h)"
  define h2 where "h2 = h\<lparr>mem_next := Suc (Suc (mem_next h))\<rparr>"
  have h2: "never_fails h2" using h by (simp add: h2_def never_fails_def)
  have dup: "strdup k h = (Some (?a, k), h\<lparr>mem_next := ?b\<rparr>)" "strdup v (h\<lparr>mem_next := ?b\<rparr>) = (Some (?b, v), h2)"
    using strdup_ok [OF h, of k] h by (simp_all add: strdup_def malloc_def h2_def)
  have g: "grows (pm_owned m) h (?a # ?b # pm_owned m) h2" by (rule growsI [of _ _ "[?a, ?b]"]) (simp_all add: h2_def)
  obtain ret err m' h' where p: "hashmapPut m (?a, k) (Some (?b, v)) h2 = (Inr (ret, err, m'), h')" "pm_ok m'" "mem_fail h' = mem_fail h2"
    "map_size m' \<le> map_size m + 1"
    "pm_lookup m' = (pm_lookup m)(k \<mapsto> v)"
    "case ret of None \<Rightarrow> grows (?a # ?b # pm_owned m) h2 (pm_owned m') h'
           | Some w \<Rightarrow> grows (?a # ?b # pm_owned m) h2 (?a # fst w # pm_owned m') h'"
    using pm_put [OF ok room, of ?a k ?b v h2] put_errno_never [OF h2, of m "(?a, k)"] by (auto split: if_splits)
  define h4 where "h4 = (if ret \<noteq> None then free_str (Some (?a, k)) (free_str ret h') else h')"
  have "create_pair t m h = (Inr (m', 1), h4)"
    using ne dup p(1) unfolding create_pair_def Let_def k_def [symmetric] v_def [symmetric] h4_def by simp
  moreover have "grows (pm_owned m) h (pm_owned m') h4"
  proof (cases ret)
    case None
    then show ?thesis using p(6) grows_trans [OF g] by (simp add: h4_def)
  next
    case (Some w)
    then have "grows (?a # ?b # pm_owned m) h2 (?a # fst w # pm_owned m') h'" using p(6) by simp
    moreover have "grows (?a # fst w # pm_owned m') h' (pm_owned m') h4"
      using Some by (intro growsI [of _ _ "[]"]) (simp_all add: h4_def free_str_def split: prod.split)
    ultimately show ?thesis using g grows_trans by blast
  qed
  moreover have "never_fails h4" using p(3) h2 by (simp add: never_fails_def h4_def free_str_def split: option.split prod.split)
  moreover have "pair_of t = Some (k, v)" using False by (simp add: pair_of_def k_def v_def)
  ultimately show ?thesis using p(2,4,5) by (intro exI [of _ m'] exI [of _ 1] exI [of _ h4]) simp
qed

lemma create_loop_ok:
  assumes "pm_ok m" "map_size m + int (length (tokens (CHR '';'') s)) \<le> 2 ^ 60" "never_fails h"
  shows "\<exists>m' n h'. create_loop s m items h = (Inr (m', n), h') \<and> pm_ok m' \<and> never_fails h'
    \<and> grows (pm_owned m) h (pm_owned m') h' \<and> pm_lookup m' = pm_lookup m ++ map_of (rev (parse_pairs s))
    \<and> map_size m' \<le> map_size m + int (length (tokens (CHR '';'') s))"
  using assms
proof (induction s m items h rule: create_loop.induct)
  case (1 s m items h)
  show ?case
  proof (cases "strtok_r (CHR '';'') s")
    case None
    then show ?thesis using 1(2,4) tokens_strtok [of "CHR '';''" s]
      by (subst create_loop.simps) (simp add: parse_pairs_def map_filter_simps)
  next
    case (Some p)
    obtain t rest where st: "strtok_r (CHR '';'') s = Some (t, rest)" using Some by (cases p) auto
    have tok: "tokens (CHR '';'') s = t # tokens (CHR '';'') rest" using tokens_strtok [of "CHR '';''" s] st by simp
    have "map_size m < 2 ^ 60" using 1(3) tok by simp
    from create_pair_ok [OF 1(2) this 1(4) strtok_r_token [OF st]]
    obtain m1 n h1 where p: "create_pair t m h = (Inr (m1, n), h1)" "pm_ok m1" "never_fails h1" "map_size m1 \<le> map_size m + 1"
      "grows (pm_owned m) h (pm_owned m1) h1"
      "pm_lookup m1 = (case pair_of t of None \<Rightarrow> pm_lookup m | Some (k, v) \<Rightarrow> (pm_lookup m)(k \<mapsto> v))" by blast
    have "map_size m1 + int (length (tokens (CHR '';'') rest)) \<le> 2 ^ 60" using 1(3) p(4) tok by simp
    from 1(1) [OF st refl p(1) [symmetric] refl refl p(2) this p(3)]
    obtain m' n' h' where l: "create_loop rest m1 (i32 (items + n)) h1 = (Inr (m', n'), h')" "pm_ok m'" "never_fails h'"
      "grows (pm_owned m1) h1 (pm_owned m') h'" "pm_lookup m' = pm_lookup m1 ++ map_of (rev (parse_pairs rest))"
      "map_size m' \<le> map_size m1 + int (length (tokens (CHR '';'') rest))" by blast
    have "create_loop s m items h = (Inr (m', n'), h')" using st p(1) l(1) by (subst create_loop.simps) simp
    moreover have "pm_lookup m' = pm_lookup m ++ map_of (rev (parse_pairs s))"
      using p(6) l(5) tok by (auto simp: parse_pairs_def map_filter_simps split: option.split)
    ultimately show ?thesis using l(2,3,6) grows_trans [OF p(5) l(4)] p(4) tok
      by (intro exI [of _ m'] exI [of _ n'] exI [of _ h']) simp
  qed
qed

lemma str_parms_create_ok:
  assumes "never_fails h"
  shows "\<exists>sp h'. str_parms_create h = (Some sp, h') \<and> never_fails h' \<and> sp_ok sp \<and> map_size (sp_map sp) = 0
    \<and> grows [] h (sp_owned sp) h' \<and> pm_lookup (sp_map sp) = Map.empty"
proof -
  define h1 where "h1 = h\<lparr>mem_next := Suc (mem_next h)\<rparr>"
  have m: "malloc h = (Some (mem_next h), h1)" using assms by (simp add: malloc_def h1_def)
  have h1: "\<not> mem_fail h1 a" for a using assms by (simp add: h1_def)
  obtain hm :: "(cstr, cstr) Hashmap" and h' where c: "hashmapCreate 5 str_hash_fn str_eq h1 = (Some hm, h')" "mem_fail h' = mem_fail h1" "hm_ok hm"
      "grows [] h1 (owned hm) h'" "hm_lookup hm = (\<lambda>_. None)" "map_size hm = 0" "equals hm = str_eq"
    using hashmapCreate_step [of 5 str_eq str_hash_fn h1, where 'b = cstr] str_keys h1 by (auto split: option.splits)
  have e: "entries hm = []" using c(3,6) by (auto simp: hm_ok_def)
  define sp where "sp = \<lparr>sp_addr = mem_next h, sp_map = hm\<rparr>"
  have "str_parms_create h = (Some sp, h')" using m c(1) by (simp add: str_parms_create_def sp_def)
  moreover have "never_fails h'" using c(2) h1 by (simp add: never_fails_def)
  moreover have "sp_ok sp" "map_size (sp_map sp) = 0" using c e by (simp_all add: sp_ok_def pm_ok_def sp_def)
  moreover have "grows [] h (sp_owned sp) h'"
  proof (rule grows_trans)
    show "grows [] h [mem_next h] h1" by (rule grows_malloc(1)) (rule m)
    show "grows [mem_next h] h1 (sp_owned sp) h'"
      using grows_frame [OF c(4), of "[mem_next h]"] by (simp add: sp_owned_def sp_def pm_owned_def map_strs_def e)
  qed
  moreover have "pm_lookup (sp_map sp) = Map.empty" using c(5) by (simp add: pm_lookup_def fun_eq_iff sp_def)
  ultimately show ?thesis by blast
qed

lemma str_parms_create_str_step:
  assumes h: "never_fails h" and room: "int (length (tokens (CHR '';'') s)) \<le> 2 ^ 60"
  shows "\<exists>sp h'. str_parms_create_str s h = (Some (Inr (Some sp)), h') \<and> sp_ok sp \<and> never_fails h'
    \<and> grows [] h (sp_owned sp) h' \<and> pm_lookup (sp_map sp) = map_of (rev (parse_pairs s))
    \<and> map_size (sp_map sp) \<le> int (length (tokens (CHR '';'') s))"
proof -
  obtain sp h1 where c: "str_parms_create h = (Some sp, h1)" "never_fails h1" "sp_ok sp" "map_size (sp_map sp) = 0"
    "grows [] h (sp_owned sp) h1" "pm_lookup (sp_map sp) = Map.empty" using str_parms_create_ok [OF h] by blast
  define a h2 where "a = mem_next h1" and "h2 = h1\<lparr>mem_next := Suc (mem_next h1)\<rparr>"
  have d: "strdup s h1 = (Some (a, s), h2)" using strdup_ok [OF c(2)] by (simp add: a_def h2_def)
  have nf2: "never_fails h2" using c(2) by (simp add: never_fails_def h2_def)
  obtain m n h3 where l: "create_loop s (sp_map sp) 0 h2 = (Inr (m, n), h3)" "pm_ok m" "never_fails h3"
    "grows (pm_owned (sp_map sp)) h2 (pm_owned m) h3" "pm_lookup m = pm_lookup (sp_map sp) ++ map_of (rev (parse_pairs s))"
    "map_size m \<le> map_size (sp_map sp) + int (length (tokens (CHR '';'') s))"
    using create_loop_ok [OF _ _ nf2, of "sp_map sp" s 0] c(3,4) room by (auto simp: sp_ok_def)
  let ?sp = "sp\<lparr>sp_map := m\<rparr>"
  have "str_parms_create_str s h = (Some (Inr (Some ?sp)), free_at a h3)"
    using c(1) d l(1) by (simp add: str_parms_create_str_def free_str_def)
  moreover have "grows [] h (sp_owned ?sp) (free_at a h3)"
  proof (rule grows_trans [OF c(5)], rule grows_trans)
    show "grows (sp_owned sp) h1 (a # sp_owned sp) h2" by (rule growsI [of _ _ "[a]"]) (simp_all add: a_def h2_def)
    have "grows (a # sp_owned sp) h2 (a # sp_owned ?sp) h3"
      using grows_frame [OF l(4), of "[a, sp_addr sp]"] by (simp add: sp_owned_def)
    then show "grows (a # sp_owned sp) h2 (sp_owned ?sp) (free_at a h3)" using grows_trans grows_free by blast
  qed
  moreover have "never_fails (free_at a h3)" using l(3) by (simp add: never_fails_def)
  ultimately show ?thesis using l(2,5,6) c(4,6) by (intro exI [of _ ?sp] exI [of _ "free_at a h3"]) (simp add: sp_ok_def)
qed

section \<open>Removing\<close>

lemma mset_filter_other: "distinct xs \<Longrightarrow> e \<in> set xs \<Longrightarrow> mset xs = add_mset e (mset (filter (\<lambda>x. x \<noteq> e) xs))"
proof (induction xs)
  case (Cons x xs)
  moreover have "filter (\<lambda>x. x \<noteq> e) xs = xs" if "e \<notin> set xs" using that by (auto simp: filter_id_conv)
  ultimately show ?case by (cases "x = e") (auto simp del: mset_filter)
qed simp

lemma remove_entry:
  assumes ok: "pm_ok m" and e: "e \<in> set (entries m)"
  shows "\<exists>m1 h1. do_remove c (entry_key e) (entry_value e) m h = Inr (c, m1, h1) \<and> pm_ok m1
    \<and> grows (pm_owned m) h (pm_owned m1) h1 \<and> buckets m1 = map (filter (\<lambda>x. x \<noteq> e)) (buckets m) \<and> bucketCount m1 = bucketCount m
    \<and> pm_lookup m1 = (pm_lookup m)(snd (entry_key e) := None) \<and> mem_fail h1 = mem_fail h"
proof -
  have hm: "hm_ok m" "equals m = str_eq" "\<forall>e \<in> set (entries m). entry_value e \<noteq> None"
    and d: "keys_ok m" "distinct_keys m (entries m)" using ok by (auto simp: pm_ok_def hm_ok_def)
  obtain v where v: "entry_value e = Some v" using hm(3) e by blast
  have f: "find (\<lambda>x. equals m (entry_key x) (entry_key e)) (entries m) = Some e"
    using find_unique [OF d(2,1), of "entry_key e" e] e d(1) by simp
  obtain r m1 h1 where r: "hashmapRemove m (entry_key e) h = (Inr (r, m1), h1)" "hm_ok m1" "equals m1 = equals m"
    "map_addr m1 = map_addr m" "buckets_addr m1 = buckets_addr m" "bucketCount m1 = bucketCount m"
    "hm_lookup m1 = (\<lambda>k. if equals m (entry_key e) k then None else hm_lookup m k)"
    "h1 = free_at (entry_addr e) h" "buckets m1 = map (filter (\<lambda>x. x \<noteq> e)) (buckets m)"
    using hashmapRemove_step [OF hm(1), of "entry_key e" h] f by auto
  have ent: "entries m1 = filter (\<lambda>x. x \<noteq> e) (entries m)" using r(9) by (simp add: entries_def filter_concat)
  have ms: "mset (entries m) = add_mset e (mset (entries m1))"
    using mset_filter_other [OF _ e] d(2) by (simp add: ent distinct_keys_def)
  define h2 where "h2 = free_str (entry_value e) (free_str (Some (entry_key e)) h1)"
  have fr: "freed h2 = freed h @ [entry_addr e, fst (entry_key e), fst v]" "mem_next h2 = mem_next h" "mem_fail h2 = mem_fail h"
    using v by (simp_all add: h2_def free_str_def r(8) split: prod.split)
  have "mset (pm_owned m) = {#entry_addr e, fst (entry_key e), fst v#} + mset (pm_owned m1)"
    by (simp add: pm_owned_def mset_owned map_strs_def mset_concat_map ms r(4,5) entry_strs_def v)
  then have "grows (pm_owned m) h (pm_owned m1) h2" by (intro growsI [of _ _ "[]"]) (simp_all add: fr)
  moreover have "pm_ok m1" using r(2,3) hm(2,3) ent by (simp add: pm_ok_def)
  moreover have "pm_lookup m1 = (pm_lookup m)(snd (entry_key e) := None)"
    using r(7) hm(2) by (auto simp: pm_lookup_def fun_eq_iff str_eq_def)
  moreover have "do_remove c (entry_key e) (entry_value e) m h = Inr (c, m1, h2)"
    using r(1) by (simp add: do_remove_def h2_def)
  ultimately show ?thesis using r(6,9) fr(3) by blast
qed

interpretation remover: walker "remove_pair key" "\<lambda>m _. pm_ok m" for key
proof
  fix m h e continue m1 h1
  assume a: "pm_ok m" "e \<in> set (entries m)" "remove_pair key (entry_key e) (entry_value e) m h = Inr (continue, m1, h1)"
  have "remove_pair key (entry_key e) (entry_value e) m h
      \<in> {do_remove True (entry_key e) (entry_value e) m h, do_remove False (entry_key e) (entry_value e) m h, Inr (True, m, h)}"
    by (cases key) (simp_all add: remove_pair_def)
  with a(3) remove_entry [OF a(1,2), of True h] remove_entry [OF a(1,2), of False h] a(1)
  show "pm_ok m1 \<and> bucketCount m1 = bucketCount m \<and> (buckets m1 = buckets m \<or> buckets m1 = map (filter (\<lambda>x. x \<noteq> e)) (buckets m))"
    by auto
qed

lemma visit_remove_all:
  assumes "pm_ok m" "entries m = es"
  shows "\<exists>m' h'. visit (remove_pair None) m h es = Inr (m', h') \<and> pm_ok m' \<and> entries m' = [] \<and> grows (pm_owned m) h (pm_owned m') h'"
  using assms
proof (induction es arbitrary: m h)
  case Nil
  then show ?case by simp
next
  case (Cons e es)
  have "e \<in> set (entries m)" using Cons.prems(2) by simp
  from remove_entry [OF Cons.prems(1) this, of True h]
  obtain m1 h1 where r: "do_remove True (entry_key e) (entry_value e) m h = Inr (True, m1, h1)" "pm_ok m1"
    "grows (pm_owned m) h (pm_owned m1) h1" "buckets m1 = map (filter (\<lambda>x. x \<noteq> e)) (buckets m)" by blast
  have "distinct (entries m)" using Cons.prems(1) by (simp add: pm_ok_def hm_ok_def distinct_keys_def)
  then have "entries m1 = es"
    using r(4) Cons.prems(2) by (simp add: entries_def filter_concat [symmetric]) (auto simp: filter_id_conv)
  from Cons.IH [OF r(2) this, of h1] r(1,3) show ?case
    using grows_trans by (fastforce simp: remove_pair_def)
qed

lemma visit_remove_one:
  "visit (remove_pair (Some k)) m h es =
     (case find (\<lambda>e. snd (entry_key e) = k) es of
        None \<Rightarrow> Inr (m, h)
      | Some e \<Rightarrow> rbind (do_remove False (entry_key e) (entry_value e) m h) (\<lambda>(_, m1, h1). Inr (m1, h1)))"
proof (induction es)
  case (Cons e es)
  have "continue = False" if "do_remove False (entry_key e) (entry_value e) m h = Inr (continue, m1, h1)" for continue m1 h1
    using that by (auto simp: do_remove_def split: prod.splits sum.splits)
  then show ?case using Cons by (auto simp: remove_pair_def rbind_def split: sum.split)
qed simp

lemma pm_walk: "pm_ok m \<Longrightarrow> live (pm_owned m) h \<Longrightarrow> walk_ok m"
  using hm_ok_walk [of m h] by (auto simp: pm_ok_def pm_owned_def live_def)

section \<open>Printing\<close>

interpretation combiner: walker combine_strings "\<lambda>_ _. True"
  by unfold_locales (auto simp: combine_strings_def split: prod.splits)

interpretation dumper: walker dump_entry "\<lambda>_ _. True"
  by unfold_locales (simp add: dump_entry_def)

definition entry_pair :: "(cstr, cstr) Entry \<Rightarrow> string \<times> string" where
  "entry_pair e = (snd (entry_key e), str_of (entry_value e))"

fun join_pairs :: "(string \<times> string) list \<Rightarrow> string" where
  "join_pairs [] = []"
| "join_pairs [(k, v)] = k @ ''='' @ v"
| "join_pairs ((k, v) # kvs) = k @ ''='' @ v @ '';'' @ join_pairs kvs"

lemma join_pairs_snoc:
  "join_pairs (kvs @ [(k, v)]) = join_pairs kvs @ (if kvs = [] then [] else '';'') @ k @ ''='' @ v"
  by (induction kvs rule: join_pairs.induct) simp_all

lemma visit_combine:
  assumes "never_fails h" "es \<noteq> [] \<or> kvs \<noteq> []"
    "old = (if kvs = [] then None else Some (a, join_pairs kvs))" "own = (if kvs = [] then [] else [a])"
  shows "\<exists>b h'. visit combine_strings m (old, h) es = Inr (m, Some (b, join_pairs (kvs @ map entry_pair es)), h')
    \<and> never_fails h' \<and> grows own h [b] h'"
  using assms
proof (induction es arbitrary: h kvs old a own)
  case Nil
  then show ?case by simp
next
  case (Cons e es)
  let ?b = "mem_next h" and ?h1 = "free_str old (h\<lparr>mem_next := Suc (mem_next h)\<rparr>)" and ?kvs = "kvs @ [entry_pair e]"
  have "combine_strings (entry_key e) (entry_value e) m (old, h) = Inr (True, m, Some (?b, join_pairs ?kvs), ?h1)"
    using Cons.prems(1,3) by (simp add: combine_strings_def strdup_ok entry_pair_def join_pairs_snoc)
  moreover have nf: "never_fails ?h1" using Cons.prems(1) by (simp add: never_fails_def free_str_def split: option.split prod.split)
  obtain b h' where "visit combine_strings m (Some (?b, join_pairs ?kvs), ?h1) es = Inr (m, Some (b, join_pairs (?kvs @ map entry_pair es)), h')"
    "never_fails h'" "grows [?b] ?h1 [b] h'"
    using Cons.IH [OF nf, of ?kvs "Some (?b, join_pairs ?kvs)" ?b "[?b]"] by auto
  moreover have "grows own h [?b] ?h1"
    using Cons.prems(3,4) by (intro growsI [of _ _ "[?b]"]) (simp_all add: free_str_def)
  ultimately show ?case using grows_trans by fastforce
qed

lemma str_parms_to_str_step:
  assumes ok: "sp_ok sp" and own: "live (sp_owned sp) h" and nf: "never_fails h"
  shows "\<exists>a h'. str_parms_to_str sp h = Some (Inr (sp, Some (a, join_pairs (map entry_pair (entries (sp_map sp)))), h'))
    \<and> never_fails h' \<and> grows [] h [a] h'"
proof -
  let ?m = "sp_map sp"
  have m: "pm_ok ?m" using ok by (simp add: sp_ok_def)
  have size: "hashmapSize ?m = int (length (entries ?m))" using m by (auto simp: pm_ok_def hm_ok_def hashmapSize_def)
  have w: "walk_ok ?m" using own m pm_walk [of ?m h] by (auto simp: sp_owned_def live_def)
  show ?thesis
  proof (cases "entries ?m = []")
    case True
    then show ?thesis using size strdup_ok [OF nf, of "[]"] nf
      by (auto simp: str_parms_to_str_def never_fails_def intro!: growsI [of _ _ "[mem_next h]"])
  next
    case False
    have "\<exists>b h'. visit combine_strings ?m (None, h) (entries ?m) = Inr (?m, Some (b, join_pairs ([] @ map entry_pair (entries ?m))), h')
        \<and> never_fails h' \<and> grows [] h [b] h'"
      by (rule visit_combine) (use False nf in simp_all)
    then show ?thesis
      using combiner.for_each_visits [OF TrueI w, of "(None, h)"] size False by (auto simp: str_parms_to_str_def)
  qed
qed

section \<open>The round trip\<close>

definition pair_ok :: "string \<times> string \<Rightarrow> bool" where
  "pair_ok kv \<longleftrightarrow> fst kv \<noteq> [] \<and> CHR ''='' \<notin> set (fst kv) \<and> CHR '';'' \<notin> set (fst kv) \<and> CHR '';'' \<notin> set (snd kv)"

lemma tokens_block: "t \<noteq> [] \<Longrightarrow> d \<notin> set t \<Longrightarrow> tokens d (t @ d # s) = t # tokens d s" "t \<noteq> [] \<Longrightarrow> d \<notin> set t \<Longrightarrow> tokens d t = [t]"
  using split_on_block [of d t "d # s"] split_on_block [of d t "[]"] by (simp_all add: tokens_def)

lemma pair_of_print: "pair_ok (k, v) \<Longrightarrow> pair_of (k @ CHR ''='' # v) = Some (k, v)"
  by (cases k) (auto simp: pair_of_def pair_ok_def takeWhile_append dropWhile_append)

lemma parse_join:
  assumes "\<forall>kv \<in> set kvs. pair_ok kv"
  shows "parse_pairs (join_pairs kvs) = kvs" "length (tokens (CHR '';'') (join_pairs kvs)) = length kvs"
proof -
  have "tokens (CHR '';'') (join_pairs kvs) = map (\<lambda>(k, v). k @ ''='' @ v) kvs"
    using assms
  proof (induction kvs rule: join_pairs.induct)
    case 1
    then show ?case by (simp add: tokens_def)
  next
    case (2 k v)
    then show ?case using tokens_block(2) [of "k @ ''='' @ v"] by (auto simp: pair_ok_def)
  next
    case (3 k v kv kvs)
    then show ?case using tokens_block(1) [of "k @ ''='' @ v" "CHR '';''" "join_pairs (kv # kvs)"] by (auto simp: pair_ok_def)
  qed
  moreover have "List.map_filter pair_of (map (\<lambda>(k, v). k @ ''='' @ v) kvs) = kvs"
    using assms by (induction kvs) (auto simp: map_filter_simps pair_of_print)
  ultimately show "parse_pairs (join_pairs kvs) = kvs" "length (tokens (CHR '';'') (join_pairs kvs)) = length kvs"
    by (simp_all add: parse_pairs_def)
qed

section \<open>Numbers\<close>

lemma of_char_digit: "d < 10 \<Longrightarrow> of_char (digit_char d) = 48 + d"
  by (simp add: digit_char_def)

lemma digit_value_digit: "d < 10 \<Longrightarrow> digit_value 10 (digit_char d) = Some d"
  by (simp add: digit_value_def of_char_digit Let_def)

lemma digits_append:
  "(\<forall>c \<in> set xs. digit_value b c \<noteq> None) \<Longrightarrow> digits b acc (xs @ ys) = digits b (fst (digits b acc xs)) ys"
  by (induction xs arbitrary: acc) (auto split: option.split)

lemma nat_string_digits: "c \<in> set (nat_string n) \<Longrightarrow> \<exists>d < 10. c = digit_char d"
proof (induction n rule: nat_string.induct)
  case (1 n)
  show ?case
  proof (cases "n < 10")
    case True
    then show ?thesis using 1(2) by (subst (asm) nat_string.simps) auto
  next
    case False
    then have "c \<in> set (nat_string (n div 10)) \<or> c = digit_char (n mod 10)" using 1(2) by (subst (asm) nat_string.simps) auto
    then show ?thesis using 1(1) False by (auto intro: exI [of _ "n mod 10"])
  qed
qed

lemma digits_nat_string: "digits 10 0 (nat_string n) = (int n, [])"
proof (induction n rule: nat_string.induct)
  case (1 n)
  show ?case
  proof (cases "n < 10")
    case True
    then show ?thesis by (subst nat_string.simps) (simp add: digit_value_digit)
  next
    case False
    have "\<forall>c \<in> set (nat_string (n div 10)). digit_value 10 c \<noteq> None"
      using nat_string_digits digit_value_digit by fastforce
    then have "digits 10 0 (nat_string (n div 10) @ [digit_char (n mod 10)]) = digits 10 (int (n div 10)) [digit_char (n mod 10)]"
      using digits_append 1 False by simp
    also have "\<dots> = (int n, [])" by (simp add: digit_value_digit) (simp add: of_nat_div of_nat_mod)
    finally show ?thesis using False by (subst nat_string.simps) simp
  qed
qed

lemma nat_string_length: "n < 10 ^ Suc k \<Longrightarrow> length (nat_string n) \<le> Suc k"
proof (induction k arbitrary: n)
  case 0
  then show ?case by (subst nat_string.simps) simp
next
  case (Suc k)
  have "n div 10 < 10 ^ Suc k" using Suc.prems by (simp add: less_mult_imp_div_less mult.commute)
  then show ?case using Suc.IH [of "n div 10"] by (subst nat_string.simps) simp
qed

lemma nat_string_ne: "nat_string n \<noteq> []"
  by (subst nat_string.simps) simp

lemma nat_string_hd: "0 < n \<Longrightarrow> \<exists>d < 10. 0 < d \<and> hd (nat_string n) = digit_char d"
proof (induction n rule: nat_string.induct)
  case (1 n)
  show ?case
  proof (cases "n < 10")
    case True
    then show ?thesis using 1(2) by (subst nat_string.simps) auto
  next
    case False
    then show ?thesis using 1(1) nat_string_ne by (subst nat_string.simps) simp
  qed
qed

lemma digit_char_other: "d < 10 \<Longrightarrow> \<not> isspace_c (digit_char d) \<and> digit_char d \<noteq> CHR ''-'' \<and> digit_char d \<noteq> CHR ''+''
    \<and> (0 < d \<longrightarrow> digit_char d \<noteq> CHR ''0'')"
proof -
  assume d: "d < 10"
  have "of_char CHR ''-'' = (45 :: nat)" "of_char CHR ''+'' = (43 :: nat)" "of_char CHR ''0'' = (48 :: nat)" by simp_all
  then show ?thesis using of_char_digit [OF d] d by (auto simp: isspace_c_def)
qed

lemma nat_string_0: "nat_string 0 = ''0''"
  by (subst nat_string.simps) (simp add: digit_char_def char_of_eq_iff)

lemma strtol_base_nat:
  assumes "0 < n"
  shows "strtol_base (nat_string n) = (10, nat_string n)"
proof -
  have "hd (nat_string n) \<noteq> CHR ''0''" using nat_string_hd [OF assms] digit_char_other by fastforce
  then show ?thesis by (auto simp: strtol_base_def split: list.splits)
qed

text \<open>Reading back what was printed.\<close>

lemma strtol_int_string:
  assumes "- 9223372036854775808 \<le> i" "i \<le> 9223372036854775807"
  shows "strtol (int_string i) = (i, [])"
proof -
  define n where "n = nat \<bar>i\<bar>"
  have nn: "nat_string n \<noteq> []" by (rule nat_string_ne)
  obtain d where d: "d < 10" "hd (nat_string n) = digit_char d"
    using nat_string_digits [of "hd (nat_string n)" n] nn by auto
  have dv: "digit_value 10 (hd (nat_string n)) \<noteq> None" using d digit_value_digit by simp
  obtain base v where num: "strtol_base (nat_string n) = (base, v)" "v \<noteq> []" "digit_value base (hd v) \<noteq> None"
    "digits base 0 v = (int n, [])"
  proof (cases "n = 0")
    case True
    then show ?thesis using that [of 8 "''0''"] by (simp add: nat_string_0 strtol_base_def digit_value_def)
  next
    case False
    then show ?thesis using that strtol_base_nat [of n] nn dv digits_nat_string [of n] by simp
  qed
  note o = digit_char_other [OF d(1)]
  show ?thesis
  proof (cases "i < 0")
    case True
    then have s: "int_string i = CHR ''-'' # nat_string n" by (simp add: int_string_def n_def)
    have "\<not> isspace_c CHR ''-''" by (simp add: isspace_c_def)
    then show ?thesis using num assms True by (auto simp: strtol_def s Let_def n_def)
  next
    case False
    then have s: "int_string i = nat_string n" by (simp add: int_string_def n_def)
    have "dropWhile isspace_c (nat_string n) = nat_string n" using d(2) o nn by (cases "nat_string n") auto
    then show ?thesis using num assms False nn o d(2) by (auto simp: strtol_def s Let_def n_def)
  qed
qed

lemma int_string_length:
  assumes "- 2147483648 \<le> i" "i < 2147483648"
  shows "length (int_string i) \<le> 11"
proof -
  have "nat (- i) < 10 ^ Suc 9" "nat i < 10 ^ Suc 9" using assms by simp_all
  then show ?thesis using nat_string_length [of "nat (- i)" 9] nat_string_length [of "nat i" 9] by (simp add: int_string_def)
qed

section \<open>Adding\<close>

text \<open>
  The fourth allocation of \<open>str_parms_add_str\<close> (after the key, the value and the entry) is the larger table.
\<close>

definition table_fits :: "str_parms \<Rightarrow> heap \<Rightarrow> bool" where
  "table_fits sp h \<longleftrightarrow> hashmapSize (sp_map sp) < hashmapCurrentCapacity (sp_map sp) \<or> \<not> mem_fail h (mem_next h + 3)"

lemma str_parms_add_str_step:
  assumes ok: "sp_ok sp" and room: "map_size (sp_map sp) < 2 ^ 60" and fits: "table_fits sp h"
  shows "\<exists>ret sp' h'. str_parms_add_str sp key value h = (Inr (ret, sp'), h') \<and> sp_ok sp' \<and> sp_addr sp' = sp_addr sp
    \<and> grows (sp_owned sp) h (sp_owned sp') h' \<and> mem_fail h' = mem_fail h
    \<and> (if ret = 0 then pm_lookup (sp_map sp') = (pm_lookup (sp_map sp))(key \<mapsto> value)
       else ret = - ENOMEM \<and> sp' = sp \<and> \<not> never_fails h)"
proof -
  define h1 where "h1 = h\<lparr>mem_next := Suc (mem_next h)\<rparr>"
  define h2 where "h2 = h1\<lparr>mem_next := Suc (mem_next h1)\<rparr>"
  let ?a = "mem_next h" and ?b = "mem_next h1"
  have m: "pm_ok (sp_map sp)" using ok by (simp add: sp_ok_def)
  have g1: "grows (sp_owned sp) h (?a # sp_owned sp) h1" by (rule growsI [of _ _ "[?a]"]) (simp_all add: h1_def)
  consider (one) "mem_fail h ?a" | (two) "\<not> mem_fail h ?a" "mem_fail h ?b" | (none) "\<not> mem_fail h ?a" "\<not> mem_fail h ?b" by blast
  then show ?thesis
  proof cases
    case one
    then have "str_parms_add_str sp key value h = (Inr (- ENOMEM, sp), h1)"
      by (simp add: str_parms_add_str_def strdup_def malloc_def h1_def)
    moreover have "grows (sp_owned sp) h (sp_owned sp) h1" by (rule growsI [of _ _ "[]"]) (simp_all add: h1_def)
    moreover have "\<not> never_fails h" using one by auto
    ultimately show ?thesis using ok by (simp add: h1_def)
  next
    case two
    have "str_parms_add_str sp key value h = (Inr (- ENOMEM, sp), free_at ?a h2)"
      using two by (simp add: str_parms_add_str_def strdup_def malloc_def h1_def h2_def free_str_def)
    moreover have "grows (?a # sp_owned sp) h1 (?a # sp_owned sp) h2" by (rule growsI [of _ _ "[]"]) (simp_all add: h2_def)
    from grows_trans [OF grows_trans [OF g1 this] grows_free]
    have "grows (sp_owned sp) h (sp_owned sp) (free_at ?a h2)" .
    moreover have "\<not> never_fails h" using two by auto
    ultimately show ?thesis using ok by (simp add: h1_def h2_def)
  next
    case none
    have dup: "strdup key h = (Some (?a, key), h1)" "strdup value h1 = (Some (?b, value), h2)"
      using none by (simp_all add: strdup_def malloc_def h1_def h2_def)
    have g2: "grows (sp_owned sp) h (?a # ?b # sp_owned sp) h2" by (rule growsI [of _ _ "[?a, ?b]"]) (simp_all add: h1_def h2_def)
    obtain ret err m' h' where p: "hashmapPut (sp_map sp) (?a, key) (Some (?b, value)) h2 = (Inr (ret, err, m'), h')" "pm_ok m'"
      "mem_fail h' = mem_fail h2"
      "err = put_errno (sp_map sp) (?a, key) h2"
      "if put_fails (sp_map sp) (?a, key) h2 then ret = None \<and> m' = sp_map sp \<and> grows (pm_owned (sp_map sp)) h2 (pm_owned (sp_map sp)) h'
       else pm_lookup m' = (pm_lookup (sp_map sp))(key \<mapsto> value)
        \<and> (case ret of None \<Rightarrow> grows (?a # ?b # pm_owned (sp_map sp)) h2 (pm_owned m') h'
           | Some v \<Rightarrow> grows (?a # ?b # pm_owned (sp_map sp)) h2 (?a # fst v # pm_owned m') h')"
      using pm_put [OF m room, of ?a key ?b "value" h2] by blast
    let ?sp = "sp\<lparr>sp_map := m'\<rparr>" and ?s = "sp_addr sp"
    have mf: "mem_fail h' = mem_fail h" using p(3) by (simp add: h1_def h2_def)
    have err: "err = (if put_fails (sp_map sp) (?a, key) h2 then Some ENOMEM else None)"
      using p(4) fits by (auto simp: put_errno_def grow_fails_def table_fits_def h1_def h2_def eval_nat_numeral)
    show ?thesis
    proof (cases "put_fails (sp_map sp) (?a, key) h2")
      case True
      have "str_parms_add_str sp key value h = (Inr (- ENOMEM, sp), free_at ?b (free_at ?a h'))"
        using True err p(1,5) dup by (simp add: str_parms_add_str_def free_str_def)
      moreover have "grows (?a # ?b # sp_owned sp) h2 (?a # ?b # sp_owned sp) h'"
        using True p(5) grows_frame [of _ h2 _ h' "[?a, ?b, ?s]"] by (simp add: sp_owned_def)
      from grows_trans [OF grows_trans [OF grows_trans [OF g2 this] grows_free] grows_free]
      have "grows (sp_owned sp) h (sp_owned sp) (free_at ?b (free_at ?a h'))" .
      moreover have "\<not> never_fails h" using True by (auto simp: h1_def h2_def never_fails_def put_fails_def)
      ultimately show ?thesis using ok mf by simp
    next
      case False
      show ?thesis
      proof (cases ret)
        case None
        have "str_parms_add_str sp key value h = (Inr (0, ?sp), h')"
          using False err None p(1) dup by (simp add: str_parms_add_str_def)
        moreover have "grows (?a # ?b # sp_owned sp) h2 (sp_owned ?sp) h'"
          by (rule grows_mset [OF grows_frame [of "?a # ?b # pm_owned (sp_map sp)" h2 "pm_owned m'" h' "[?s]"]])
            (use False None p(5) in \<open>simp_all add: sp_owned_def\<close>)
        from grows_trans [OF g2 this] have "grows (sp_owned sp) h (sp_owned ?sp) h'" .
        ultimately show ?thesis using p(2,5) False mf by (simp add: sp_ok_def)
      next
        case (Some v)
        have "str_parms_add_str sp key value h = (Inr (0, ?sp), free_at (fst v) (free_at ?a h'))"
          using False err Some p(1) dup by (simp add: str_parms_add_str_def free_str_def split: prod.split)
        moreover have "grows (?a # ?b # sp_owned sp) h2 (?a # fst v # sp_owned ?sp) h'"
          by (rule grows_mset [OF grows_frame [of "?a # ?b # pm_owned (sp_map sp)" h2 "?a # fst v # pm_owned m'" h' "[?s]"]])
            (use False Some p(5) in \<open>simp_all add: sp_owned_def\<close>)
        from grows_trans [OF grows_trans [OF grows_trans [OF g2 this] grows_free] grows_free]
        have "grows (sp_owned sp) h (sp_owned ?sp) (free_at (fst v) (free_at ?a h'))" .
        ultimately show ?thesis using p(2,5) False mf by (simp add: sp_ok_def)
      qed
    qed
  qed
qed

lemma split_on_parts: "t \<in> set (split_on d s) \<Longrightarrow> d \<notin> set t \<and> set t \<subseteq> set s"
proof (induction s arbitrary: t)
  case (Cons c s)
  then show ?case using split_on_ne [of d s] by (cases "split_on d s") (fastforce split: if_splits)+
qed simp

lemma tokens_length: "length (tokens d s) \<le> length s"
proof -
  have "length (concat (split_on d s)) \<le> length s"
  proof (induction s)
    case (Cons c s)
    then show ?case using split_on_ne [of d s] by (cases "split_on d s") auto
  qed simp
  moreover have "length (filter (\<lambda>t. t \<noteq> []) xs) \<le> length (concat xs)" for xs :: "string list"
  proof (induction xs)
    case (Cons t xs)
    then show ?case by (cases t) auto
  qed simp
  ultimately show ?thesis using order_trans unfolding tokens_def by blast
qed

lemma parse_pairs_ok:
  assumes "kv \<in> set (parse_pairs s)"
  shows "pair_ok kv"
proof -
  obtain t where t: "t \<in> set (tokens (CHR '';'') s)" "pair_of t = Some kv"
    using assms by (auto simp: parse_pairs_def map_filter_def)
  have "t \<noteq> []" "CHR '';'' \<notin> set t" using t(1) split_on_parts by (auto simp: tokens_def)
  moreover have "kv = (takeWhile (\<lambda>c. c \<noteq> CHR ''='') t, drop 1 (dropWhile (\<lambda>c. c \<noteq> CHR ''='') t))" "hd t \<noteq> CHR ''=''"
    using t(2) by (auto simp: pair_of_def split: if_splits)
  moreover have "set (drop 1 (dropWhile (\<lambda>c. c \<noteq> CHR ''='') t)) \<subseteq> set t" by (meson dual_order.trans set_drop_subset set_dropWhileD subsetI)
  ultimately show ?thesis by (cases t) (auto simp: pair_ok_def dest: set_takeWhileD)
qed

text \<open>The entries of a map, as pairs of strings, are what it holds.\<close>

lemma entry_pairs:
  assumes "pm_ok m"
  shows "map_of (rev (map entry_pair (entries m))) = pm_lookup m" "e \<in> set (entries m) \<Longrightarrow> pm_lookup m (snd (entry_key e)) = Some (str_of (entry_value e))"
proof -
  have hm: "keys_ok m" "distinct_keys m (entries m)" "equals m = str_eq" using assms by (auto simp: pm_ok_def hm_ok_def)
  have val: "entry_value e = Some (b, s) \<longleftrightarrow> entry_value e = Some (b, s) \<and> str_of (entry_value e) = s" for e :: "(cstr, cstr) Entry" and b s
    by (auto simp: str_of_def)
  have look: "pm_lookup m k = Some s \<longleftrightarrow> (\<exists>e \<in> set (entries m). snd (entry_key e) = k \<and> str_of (entry_value e) = s)" for k s
  proof -
    have "pm_lookup m k = Some s \<longleftrightarrow> (\<exists>b. hm_lookup m (0, k) = Some (Some (b, s)))"
      by (auto simp: pm_lookup_def split: option.splits)
    also have "\<dots> \<longleftrightarrow> (\<exists>e \<in> set (entries m). snd (entry_key e) = k \<and> (\<exists>b. entry_value e = Some (b, s)))"
      using hm_lookup_Some [OF hm(2,1)] by (auto simp: hm(3) str_eq_def)
    also have "\<dots> \<longleftrightarrow> (\<exists>e \<in> set (entries m). snd (entry_key e) = k \<and> str_of (entry_value e) = s)"
      using assms by (force simp: pm_ok_def str_of_def)
    finally show ?thesis .
  qed
  then show "e \<in> set (entries m) \<Longrightarrow> pm_lookup m (snd (entry_key e)) = Some (str_of (entry_value e))" by blast
  have "distinct (map (\<lambda>e. snd (entry_key e)) (entries m))"
    using hm(2) by (auto simp: distinct_keys_def hm(3) str_eq_def distinct_map inj_on_def)
  then have "distinct (map fst (rev (map entry_pair (entries m))))"
    by (simp add: rev_map [symmetric] entry_pair_def comp_def)
  then have "map_of (rev (map entry_pair (entries m))) k = Some s \<longleftrightarrow> (k, s) \<in> set (map entry_pair (entries m))" for k s
    by (metis map_of_eq_Some_iff set_rev)
  then have "map_of (rev (map entry_pair (entries m))) k = Some s \<longleftrightarrow> pm_lookup m k = Some s" for k s
    using look by (auto simp: entry_pair_def)
  then show "map_of (rev (map entry_pair (entries m))) = pm_lookup m" by (metis ext not_None_eq)
qed

section \<open>Properties\<close>

text \<open>
  C32: \<open>str_parms_create_str\<close> parses. Given memory, it returns an object that maps every key to the value of the
  last \<open>key=value\<close> (or bare \<open>key\<close>, with the empty value) between the semicolons of the string, and to nothing
  else; its scratch copy and every key and value it replaced are freed, and all the rest is owned by the
  object.
\<close>

theorem str_parms_create_str_parses:
  assumes "never_fails h" "int (length s) \<le> 2 ^ 60"
  shows "\<exists>sp h'. str_parms_create_str s h = (Some (Inr (Some sp)), h') \<and> sp_ok sp \<and> grows [] h (sp_owned sp) h'
    \<and> (\<forall>key. str_parms_has_key sp key = Inr (snd key \<in> fst ` set (parse_pairs s)))
    \<and> pm_lookup (sp_map sp) = map_of (rev (parse_pairs s))"
proof -
  have "int (length (tokens (CHR '';'') s)) \<le> 2 ^ 60" using assms(2) tokens_length [of "CHR '';''" s] by simp
  then obtain sp h' where c: "str_parms_create_str s h = (Some (Inr (Some sp)), h')" "sp_ok sp" "grows [] h (sp_owned sp) h'"
    "pm_lookup (sp_map sp) = map_of (rev (parse_pairs s))"
    using str_parms_create_str_step [OF assms(1)] by blast
  have "str_parms_has_key sp key = Inr (snd key \<in> fst ` set (parse_pairs s))" for key
  proof -
    have m: "pm_ok (sp_map sp)" using c(2) by (simp add: sp_ok_def)
    have "(pm_lookup (sp_map sp) (snd key) \<noteq> None) = (snd key \<in> fst ` set (parse_pairs s))"
      unfolding c(4) by (simp add: map_of_eq_None_iff)
    then show ?thesis
      using pm_get [OF m, of "fst key" "snd key"] by (cases rule: pm_lookup_cases [OF m, of "snd key"]) (auto simp: str_parms_has_key_def)
  qed
  with c show ?thesis by blast
qed

text \<open>
  C33: printing and parsing again: the string \<open>str_parms_to_str\<close> makes of a parsed object parses to an object
  that holds the same.
\<close>

theorem str_parms_roundtrip:
  assumes "never_fails h" "live [] h" "int (length s) \<le> 2 ^ 60"
  shows "\<exists>sp h1 str h2 sp2 h3. str_parms_create_str s h = (Some (Inr (Some sp)), h1)
    \<and> str_parms_to_str sp h1 = Some (Inr (sp, Some str, h2))
    \<and> str_parms_create_str (snd str) h2 = (Some (Inr (Some sp2)), h3)
    \<and> pm_lookup (sp_map sp2) = pm_lookup (sp_map sp)"
proof -
  have n: "int (length (tokens (CHR '';'') s)) \<le> 2 ^ 60" using assms(3) tokens_length [of "CHR '';''" s] by simp
  obtain sp h1 where c: "str_parms_create_str s h = (Some (Inr (Some sp)), h1)" "sp_ok sp" "never_fails h1"
    "grows [] h (sp_owned sp) h1" "pm_lookup (sp_map sp) = map_of (rev (parse_pairs s))"
    "map_size (sp_map sp) \<le> int (length (tokens (CHR '';'') s))"
    using str_parms_create_str_step [OF assms(1) n] by blast
  have m: "pm_ok (sp_map sp)" using c(2) by (simp add: sp_ok_def)
  define kvs where "kvs = map entry_pair (entries (sp_map sp))"
  obtain a h2 where t: "str_parms_to_str sp h1 = Some (Inr (sp, Some (a, join_pairs kvs), h2))" "never_fails h2"
    using str_parms_to_str_step [OF c(2) grows_live [OF assms(2) c(4)] c(3)] by (auto simp: kvs_def)
  have ok: "\<forall>kv \<in> set kvs. pair_ok kv"
  proof
    fix kv assume "kv \<in> set kvs"
    then obtain e where "e \<in> set (entries (sp_map sp))" "kv = entry_pair e" by (auto simp: kvs_def)
    with entry_pairs(2) [OF m] c(5) have "map_of (rev (parse_pairs s)) (fst kv) = Some (snd kv)" by (simp add: entry_pair_def)
    then have "(fst kv, snd kv) \<in> set (parse_pairs s)" by (metis map_of_SomeD set_rev)
    then show "pair_ok kv" using parse_pairs_ok by simp
  qed
  have "int (length kvs) = map_size (sp_map sp)" using m by (auto simp: kvs_def pm_ok_def hm_ok_def)
  then have "int (length (tokens (CHR '';'') (join_pairs kvs))) \<le> 2 ^ 60" using parse_join(2) [OF ok] c(6) n by simp
  from str_parms_create_str_step [OF t(2) this] obtain sp2 h3 where
    "str_parms_create_str (join_pairs kvs) h2 = (Some (Inr (Some sp2)), h3)" "pm_lookup (sp_map sp2) = map_of (rev (parse_pairs (join_pairs kvs)))"
    by blast
  then show ?thesis using c(1) t(1) parse_join(1) [OF ok] entry_pairs(1) [OF m] by (auto simp: kvs_def)
qed

text \<open>
  C34: \<open>str_parms_add_str\<close> returns 0, and then \<open>str_parms_get_str\<close> copies the value just added for that key and what
  it did before for the others; or \<open>-ENOMEM\<close>, only if an allocation failed, and then the object is unchanged.
  On every path each string is owned by the object or freed, exactly once. This asks that the table has room
  for one more entry, or that a larger one can be allocated.
\<close>

theorem str_parms_add_str_ok:
  assumes "sp_ok sp" "map_size (sp_map sp) < 2 ^ 60" "table_fits sp h"
  shows "\<exists>ret sp' h'. str_parms_add_str sp key value h = (Inr (ret, sp'), h') \<and> sp_ok sp' \<and> grows (sp_owned sp) h (sp_owned sp') h'
    \<and> (if ret = 0
       then \<forall>k len. str_parms_get_str sp' k len =
              (if snd k = key then Inr (i32 (int (length value)), snd (strlcpy value (u64 len))) else str_parms_get_str sp k len)
       else ret = - ENOMEM \<and> sp' = sp \<and> \<not> never_fails h)"
proof -
  obtain ret sp' h' where r: "str_parms_add_str sp key value h = (Inr (ret, sp'), h')" "sp_ok sp'" "grows (sp_owned sp) h (sp_owned sp') h'"
    "if ret = 0 then pm_lookup (sp_map sp') = (pm_lookup (sp_map sp))(key \<mapsto> value) else ret = - ENOMEM \<and> sp' = sp \<and> \<not> never_fails h"
    using str_parms_add_str_step [OF assms, of key "value"] by blast
  have get: "str_parms_get_str p k len = (case pm_lookup (sp_map p) (snd k) of None \<Rightarrow> Inr (- ENOENT, None)
      | Some v \<Rightarrow> Inr (i32 (int (length v)), snd (strlcpy v (u64 len))))" if p: "sp_ok p" for p k len
  proof -
    have m: "pm_ok (sp_map p)" using p by (simp add: sp_ok_def)
    show ?thesis
      using pm_get [OF m, of "fst k" "snd k"]
      by (cases rule: pm_lookup_cases [OF m, of "snd k"]) (simp_all add: str_parms_get_str_def strlcpy_def)
  qed
  show ?thesis using r get [OF r(2)] get [OF assms(1)] by (intro exI [of _ ret] exI [of _ sp'] exI [of _ h']) auto
qed

text \<open>
  C35: the missing case. When a new key needs a larger table and only that allocation fails, \<open>hashmapPut\<close> has
  added the entry, but \<open>str_parms_add_str\<close> sees the \<open>errno\<close> of \<open>calloc\<close>, returns \<open>-ENOMEM\<close> and frees the key and
  the value: the map holds an entry whose strings are freed.
\<close>

theorem str_parms_add_str_dangling:
  assumes "sp_ok sp" "map_size (sp_map sp) < 2 ^ 60" "pm_lookup (sp_map sp) key = None"
    and "hashmapSize (sp_map sp) \<ge> hashmapCurrentCapacity (sp_map sp)"
    and "\<forall>i < 3. \<not> mem_fail h (mem_next h + i)" "mem_fail h (mem_next h + 3)"
  shows "\<exists>sp' h'. str_parms_add_str sp key value h = (Inr (- ENOMEM, sp'), h')
    \<and> (\<exists>e \<in> set (entries (sp_map sp')). snd (entry_key e) = key \<and> fst (entry_key e) \<in> set (freed h')
         \<and> (\<exists>v. entry_value e = Some v \<and> fst v \<in> set (freed h')))"
proof -
  let ?a = "mem_next h" and ?b = "Suc (mem_next h)" and ?m = "sp_map sp"
  define h2 where "h2 = h\<lparr>mem_next := Suc (Suc (mem_next h))\<rparr>"
  have m: "pm_ok ?m" using assms(1) by (simp add: sp_ok_def)
  then have hm: "hm_ok ?m" "equals ?m = str_eq" by (simp_all add: pm_ok_def)
  have nf: "\<not> mem_fail h ?a" "\<not> mem_fail h ?b" "\<not> mem_fail h (Suc ?b)"
    using assms(5) [rule_format, of 0] assms(5) [rule_format, of 1] assms(5) [rule_format, of 2] by simp_all
  have dup: "strdup key h = (Some (?a, key), h\<lparr>mem_next := ?b\<rparr>)" "strdup value (h\<lparr>mem_next := ?b\<rparr>) = (Some (?b, value), h2)"
    using nf by (simp_all add: strdup_def malloc_def h2_def)
  have none: "hm_lookup ?m (?a, key) = None"
    using assms(3) hm_lookup_key [OF hm(2), of ?a key] by (cases rule: pm_lookup_cases [OF m, of key]) auto
  have f: "\<not> put_fails ?m (?a, key) h2" "put_errno ?m (?a, key) h2 = Some ENOMEM"
    using nf none assms(4,6) by (simp_all add: put_errno_def put_fails_def grow_fails_def h2_def eval_nat_numeral)
  obtain m' h' where p: "hashmapPut ?m (?a, key) (Some (?b, value)) h2 = (Inr (None, Some ENOMEM, m'), h')"
    "put_entries ?m (?a, key) (Some (?b, value)) m'"
    using hashmapPut_step [OF hm(1) assms(2), of "(?a, key)" "Some (?b, value)" h2] f none by (elim exE conjE) simp
  obtain e where e: "entry_key e = (?a, key)" "entry_value e = Some (?b, value)" "mset (entries m') = add_mset e (mset (entries ?m))"
    using p(2) none by (auto simp: put_entries_def hm_lookup_def split: option.splits)
  have "e \<in> set (entries m')" using e(3) by (metis set_mset_mset union_single_eq_member)
  moreover have "str_parms_add_str sp key value h = (Inr (- ENOMEM, sp\<lparr>sp_map := m'\<rparr>), free_at ?b (free_at ?a h'))"
    using dup p(1) by (simp add: str_parms_add_str_def free_str_def)
  ultimately show ?thesis using e(1,2)
    by (intro exI [of _ "sp\<lparr>sp_map := m'\<rparr>"] exI [of _ "free_at ?b (free_at ?a h')"] conjI bexI [of _ e])
      (simp_all add: free_at_def)
qed

text \<open>
  C36: numbers survive: after a successful \<open>str_parms_add_int\<close>, \<open>str_parms_get_int\<close> returns 0 and stores the very \<open>int\<close>.
\<close>

theorem str_parms_int_roundtrip:
  assumes "sp_ok sp" "map_size (sp_map sp) < 2 ^ 60" "never_fails h" "- 2147483648 \<le> i" "i < 2147483648"
  shows "\<exists>sp' h'. str_parms_add_int sp key i h = (Inr (0, sp'), h') \<and> str_parms_get_int sp' (a, key) = Inr (0, Some i)"
proof -
  have s: "take 11 (int_string i) = int_string i" using int_string_length [OF assms(4,5)] by simp
  have fits: "table_fits sp h" using assms(3) by (simp add: table_fits_def)
  obtain ret sp' h' where r: "str_parms_add_str sp key (int_string i) h = (Inr (ret, sp'), h')" "sp_ok sp'"
    "if ret = 0 then pm_lookup (sp_map sp') = (pm_lookup (sp_map sp))(key \<mapsto> int_string i) else ret = - ENOMEM \<and> sp' = sp \<and> \<not> never_fails h"
    using str_parms_add_str_step [OF assms(1,2) fits, of key "int_string i"] by blast
  have m: "pm_ok (sp_map sp')" using r(2) by (simp add: sp_ok_def)
  have "ret = 0" "pm_lookup (sp_map sp') key = Some (int_string i)" using r(3) assms(3) by (auto split: if_splits)
  moreover from this(2) obtain b where "hm_lookup (sp_map sp') (0, key) = Some (Some (b, int_string i))"
    by (cases rule: pm_lookup_cases [OF m, of key]) auto
  moreover have "int_string i \<noteq> []" using nat_string_ne by (simp add: int_string_def)
  moreover have "strtol (int_string i) = (i, [])" by (rule strtol_int_string) (use assms in simp_all)
  ultimately show ?thesis using r(1) s pm_get [OF m, of a key] assms(4,5)
    by (simp add: str_parms_add_int_def str_parms_get_int_def i32_id)
qed

text \<open>
  C37: \<open>str_parms_destroy\<close> ends and gives back every block of the object (the entries, keys and values removed
  while \<open>hashmapForEach\<close> walks over them, the table and the object), each exactly once.
\<close>

theorem str_parms_destroy_frees:
  assumes "sp_ok sp" "live (sp_owned sp) h"
  shows "\<exists>h'. str_parms_destroy sp h = Some (Inr h') \<and> grows (sp_owned sp) h [] h'"
proof -
  let ?m = "sp_map sp"
  have m: "pm_ok ?m" using assms(1) by (simp add: sp_ok_def)
  have w: "walk_ok ?m" using assms(2) m pm_walk [of ?m h] by (auto simp: sp_owned_def live_def)
  obtain m' h1 where v: "visit (remove_pair None) ?m h (entries ?m) = Inr (m', h1)" "entries m' = []" "grows (pm_owned ?m) h (pm_owned m') h1"
    using visit_remove_all [OF m refl, of h] by blast
  let ?h2 = "hashmapFree m' h1"
  have "str_parms_destroy sp h = Some (Inr (free_at (sp_addr sp) ?h2))"
    using remover.for_each_visits [OF m w, of None h] v(1) by (simp add: str_parms_destroy_def)
  moreover have "grows (sp_owned sp) h (sp_addr sp # owned m') h1"
    using grows_frame [OF v(3), of "[sp_addr sp]"] v(2) by (simp add: sp_owned_def pm_owned_def map_strs_def)
  moreover have "grows (sp_addr sp # owned m') h1 [sp_addr sp] ?h2"
    using grows_frame [OF hashmapFree_step, of "[sp_addr sp]"] by simp
  ultimately show ?thesis using grows_trans [OF grows_trans [OF _ _] grows_free] by blast
qed

text \<open>
  \<open>str_parms_del\<close> removes the key, and nothing else, while walking over the map; the entry, the key and
  the value are freed.
\<close>

theorem str_parms_del_ok:
  assumes "sp_ok sp" "live (sp_owned sp) h"
  shows "\<exists>sp' h'. str_parms_del sp (Some key) h = Some (Inr (sp', h')) \<and> sp_ok sp' \<and> grows (sp_owned sp) h (sp_owned sp') h'
    \<and> pm_lookup (sp_map sp') = (pm_lookup (sp_map sp))(key := None)"
proof -
  let ?m = "sp_map sp"
  have m: "pm_ok ?m" using assms(1) by (simp add: sp_ok_def)
  have w: "walk_ok ?m" using assms(2) m pm_walk [of ?m h] by (auto simp: sp_owned_def live_def)
  note v = remover.for_each_visits [OF m w, of "Some key" h, unfolded visit_remove_one]
  show ?thesis
  proof (cases "find (\<lambda>e. snd (entry_key e) = key) (entries ?m)")
    case None
    then have "pm_lookup ?m key = None" using m by (auto simp: pm_lookup_def hm_lookup_def pm_ok_def str_eq_def)
    then have "pm_lookup ?m = (pm_lookup ?m)(key := None)" by (simp add: fun_upd_idem)
    then show ?thesis using v None assms(1) by (intro exI [of _ sp] exI [of _ h]) (simp add: str_parms_del_def)
  next
    case (Some e)
    then have e: "e \<in> set (entries ?m)" "snd (entry_key e) = key" by (auto simp: find_Some_iff)
    obtain m1 h1 where r: "do_remove False (entry_key e) (entry_value e) ?m h = Inr (False, m1, h1)" "pm_ok m1"
      "grows (pm_owned ?m) h (pm_owned m1) h1" "pm_lookup m1 = (pm_lookup ?m)(key := None)"
      using remove_entry [OF m e(1), of False h] e(2) by blast
    then show ?thesis using v Some grows_frame [OF r(3), of "[sp_addr sp]"]
      by (intro exI [of _ "sp\<lparr>sp_map := m1\<rparr>"] exI [of _ h1]) (simp add: str_parms_del_def sp_ok_def sp_owned_def)
  qed
qed

text \<open>The examples run on a heap with memory, and on the object parsed from \<open>a=1;b;a=2\<close>.\<close>

definition ex_heap0 :: heap where
  "ex_heap0 = \<lparr>mem_next = 1, mem_fail = \<lambda>_. False, freed = []\<rparr>"

lemma ex_heap0_ok: "never_fails ex_heap0" "live [] ex_heap0"
  by (simp_all add: never_fails_def live_def ex_heap0_def)

lemma ex_parse: "parse_pairs ''a=1;b;a=2'' = [(''a'', ''1''), (''b'', ''''), (''a'', ''2'')]"
  by (simp add: parse_pairs_def tokens_def map_filter_simps pair_of_def)

theorem str_parms_create_str_parses_witness:
  "\<exists>sp h'. str_parms_create_str ''a=1;b;a=2'' ex_heap0 = (Some (Inr (Some sp)), h') \<and> sp_ok sp
    \<and> pm_lookup (sp_map sp) ''a'' = Some ''2'' \<and> pm_lookup (sp_map sp) ''b'' = Some '''' \<and> pm_lookup (sp_map sp) ''c'' = None"
  using str_parms_create_str_parses [OF ex_heap0_ok(1), of "''a=1;b;a=2''"] unfolding ex_parse by fastforce

theorem str_parms_roundtrip_witness:
  "\<exists>sp h1 str h2 sp2 h3. str_parms_create_str ''a=1;b;a=2'' ex_heap0 = (Some (Inr (Some sp)), h1)
    \<and> str_parms_to_str sp h1 = Some (Inr (sp, Some str, h2))
    \<and> str_parms_create_str (snd str) h2 = (Some (Inr (Some sp2)), h3) \<and> pm_lookup (sp_map sp2) = pm_lookup (sp_map sp)"
  by (rule str_parms_roundtrip [OF ex_heap0_ok]) simp

definition ex_sp :: str_parms where
  "ex_sp = \<lparr>sp_addr = 1, sp_map = \<lparr>map_addr = 2, buckets_addr = 3, buckets = [[], []], bucketCount = 2,
     hash = str_hash_fn, equals = str_eq, map_size = 0\<rparr>\<rparr>"

lemma ex_sp_ok: "sp_ok ex_sp" "map_size (sp_map ex_sp) < 2 ^ 60" "live (sp_owned ex_sp) (ex_heap0\<lparr>mem_next := 4\<rparr>)"
proof -
  have "placed m n [[], []]" for m :: "(cstr, cstr) Hashmap" and n by (auto simp: placed_def less_Suc_eq)
  then show "sp_ok ex_sp"
    using str_keys by (auto simp: sp_ok_def pm_ok_def hm_ok_def ex_sp_def keys_ok_def distinct_keys_def entries_def intro!: exI [of _ 1])
  show "live (sp_owned ex_sp) (ex_heap0\<lparr>mem_next := 4\<rparr>)"
    by (simp add: live_def sp_owned_def pm_owned_def owned_def map_strs_def entries_def ex_sp_def ex_heap0_def)
qed (simp add: ex_sp_def)

theorem str_parms_add_str_ok_witness:
  "\<exists>ret sp' h'. str_parms_add_str ex_sp ''k'' ''v'' ex_heap0 = (Inr (ret, sp'), h') \<and> sp_ok sp' \<and> ret = 0"
  using str_parms_add_str_ok [OF ex_sp_ok(1,2), of ex_heap0 "''k''" "''v''"] ex_heap0_ok(1) by (fastforce simp: table_fits_def split: if_splits)

text \<open>An object whose table is full, and a heap with room for three blocks.\<close>

definition ex_full :: str_parms where
  "ex_full = ex_sp\<lparr>sp_map := (sp_map ex_sp)\<lparr>buckets := [[]], bucketCount := 1\<rparr>\<rparr>"

theorem str_parms_add_str_dangling_witness:
  "\<exists>sp' h'. str_parms_add_str ex_full ''k'' ''v'' (ex_heap0\<lparr>mem_fail := \<lambda>a. a = 4\<rparr>) = (Inr (- ENOMEM, sp'), h')
    \<and> (\<exists>e \<in> set (entries (sp_map sp')). snd (entry_key e) = ''k'' \<and> fst (entry_key e) \<in> set (freed h'))"
proof -
  have "placed m n [[]]" for m :: "(cstr, cstr) Hashmap" and n by (auto simp: placed_def)
  then have "sp_ok ex_full" "map_size (sp_map ex_full) < 2 ^ 60"
    using str_keys by (auto simp: sp_ok_def pm_ok_def hm_ok_def ex_full_def ex_sp_def keys_ok_def distinct_keys_def entries_def intro!: exI [of _ 0])
  moreover have "pm_lookup (sp_map ex_full) ''k'' = None" "hashmapSize (sp_map ex_full) \<ge> hashmapCurrentCapacity (sp_map ex_full)"
    by (simp_all add: ex_full_def ex_sp_def pm_lookup_def hm_lookup_def entries_def hashmapSize_def hashmapCurrentCapacity_def u64_id)
  ultimately show ?thesis
    using str_parms_add_str_dangling [of ex_full "''k''" "ex_heap0\<lparr>mem_fail := \<lambda>a. a = 4\<rparr>" "''v''"] by (fastforce simp: ex_heap0_def)
qed

theorem str_parms_int_roundtrip_witness:
  "\<exists>sp' h'. str_parms_add_int ex_sp ''k'' (- 7) ex_heap0 = (Inr (0, sp'), h') \<and> str_parms_get_int sp' (0, ''k'') = Inr (0, Some (- 7))"
  by (rule str_parms_int_roundtrip [OF ex_sp_ok(1,2) ex_heap0_ok(1)]) simp_all

theorem str_parms_destroy_frees_witness:
  "\<exists>h'. str_parms_destroy ex_sp (ex_heap0\<lparr>mem_next := 4\<rparr>) = Some (Inr h') \<and> grows (sp_owned ex_sp) (ex_heap0\<lparr>mem_next := 4\<rparr>) [] h'"
  by (rule str_parms_destroy_frees [OF ex_sp_ok(1,3)])

theorem str_parms_del_ok_witness:
  "\<exists>sp' h'. str_parms_del ex_sp (Some ''k'') (ex_heap0\<lparr>mem_next := 4\<rparr>) = Some (Inr (sp', h')) \<and> pm_lookup (sp_map sp') ''k'' = None"
  using str_parms_del_ok [OF ex_sp_ok(1,3), of "''k''"] by auto

end
