(* ===== verification/Record_Stream.thy ===== *)
theory Record_Stream
  imports Heap_Ownership
begin

text \<open>
  Length-prefixed records read from a descriptor (\<open>libcutils/record_stream.c\<close>).

  Pointers into the buffer are offsets from its start; \<open>rs_buffer\<close> is the address of the allocation (\<open>None\<close> is
  \<open>NULL\<close>: \<open>record_stream_new\<close> does not look at the result of \<open>malloc\<close>) and \<open>rs_bytes\<close> what it holds. Offsets do not
  wrap: a record length is below \<open>2^32\<close> and addresses have 64 bits. \<open>ndebug\<close> says whether \<open>assert\<close> is compiled out. The
  two out-parameters of \<open>record_stream_get_next\<close> are threaded through, because it leaves them alone on some paths.
\<close>

section \<open>The code\<close>

definition EAGAIN :: int where "EAGAIN = 11"
definition EFAULT :: int where "EFAULT = 14"
definition EFBIG :: int where "EFBIG = 27"

definition HEADER_SIZE :: nat where "HEADER_SIZE = 4"

record RecordStream =
  rs_addr :: nat
  maxRecordLen :: nat
  rs_buffer :: "nat option"
  rs_bytes :: "byte list"
  unconsumed :: nat
  read_end :: nat
  buffer_end :: nat

text \<open>\<open>garbage\<close> is what \<open>malloc\<close> leaves in the buffer.\<close>

definition record_stream_new :: "bool \<Rightarrow> nat \<Rightarrow> (nat \<Rightarrow> byte) \<Rightarrow> heap \<Rightarrow> (RecordStream \<times> heap) res" where
  "record_stream_new ndebug maxLen garbage h =
     (if \<not> ndebug \<and> 65535 < maxLen then Inl Assert_failed
      else (case malloc h of
              (None, h1) \<Rightarrow> Inl Null_deref
            | (Some a, h1) \<Rightarrow>
                (case malloc h1 of
                   (buf, h2) \<Rightarrow>
                     Inr (\<lparr>rs_addr = a, maxRecordLen = maxLen, rs_buffer = buf, rs_bytes = map garbage [0..<maxLen + HEADER_SIZE],
                           unconsumed = 0, read_end = 0, buffer_end = maxLen + HEADER_SIZE\<rparr>, h2))))"

definition record_stream_free :: "RecordStream \<Rightarrow> heap \<Rightarrow> heap" where
  "record_stream_free rs h = free_at (rs_addr rs) (case rs_buffer rs of None \<Rightarrow> h | Some b \<Rightarrow> free_at b h)"

text \<open>\<open>ntohl\<close> of the four bytes at an offset.\<close>

definition ntohl_at :: "byte list \<Rightarrow> nat \<Rightarrow> nat" where
  "ntohl_at bs p = nat (le_val (rev (bslice p 4 bs)))"

definition getEndOfRecord :: "byte list \<Rightarrow> nat \<Rightarrow> nat \<Rightarrow> nat option" where
  "getEndOfRecord bs p_begin p_end =
     (if p_end < p_begin + HEADER_SIZE then None
      else let p_ret = p_begin + HEADER_SIZE + ntohl_at bs p_begin
           in if p_end < p_ret then None else Some p_ret)"

type_synonym rs_out = "nat option \<times> nat"

definition getNextRecord :: "RecordStream \<Rightarrow> nat \<Rightarrow> nat option \<times> nat \<times> RecordStream" where
  "getNextRecord p_rs outLen =
     (case getEndOfRecord (rs_bytes p_rs) (unconsumed p_rs) (read_end p_rs) of
        Some record_end \<Rightarrow>
          let record_start = unconsumed p_rs + HEADER_SIZE
          in (Some record_start, record_end - record_start, p_rs\<lparr>unconsumed := record_end\<rparr>)
      | None \<Rightarrow> (None, outLen, p_rs))"

text \<open>\<open>read\<close> into the buffer at \<open>read_end\<close>; bytes for a \<open>NULL\<close> buffer are refused with \<open>EFAULT\<close>.\<close>

definition read_into :: "RecordStream \<Rightarrow> infile \<Rightarrow> (int + nat) \<times> RecordStream \<times> infile" where
  "read_into rs fd =
     (case posix_read fd (buffer_end rs - read_end rs) of
        (Inl e, fd') \<Rightarrow> (Inl e, rs, fd')
      | (Inr bs, fd') \<Rightarrow>
          if bs \<noteq> [] \<and> rs_buffer rs = None then (Inl EFAULT, rs, fd)
          else (Inr (length bs), rs\<lparr>rs_bytes := take (read_end rs) (rs_bytes rs) @ bs @ drop (read_end rs + length bs) (rs_bytes rs)\<rparr>, fd'))"

definition move_remainder :: "RecordStream \<Rightarrow> RecordStream" where
  "move_remainder rs =
     (if unconsumed rs \<noteq> 0 then
        let toMove = read_end rs - unconsumed rs
        in rs\<lparr>rs_bytes := (if toMove \<noteq> 0 then bslice (unconsumed rs) toMove (rs_bytes rs) @ drop toMove (rs_bytes rs) else rs_bytes rs),
              read_end := toMove, unconsumed := 0\<rparr>
      else rs)"

text \<open>The result, \<open>errno\<close> where the call set it, the two out-parameters, the stream and the descriptor.\<close>

definition record_stream_get_next ::
  "bool \<Rightarrow> RecordStream \<Rightarrow> infile \<Rightarrow> rs_out \<Rightarrow> (int \<times> int option \<times> rs_out \<times> RecordStream \<times> infile) res" where
  "record_stream_get_next ndebug p_rs fd out =
     (case getNextRecord p_rs (snd out) of
        (Some ret, len, rs1) \<Rightarrow> Inr (0, None, (Some ret, len), rs1, fd)
      | (None, len, rs1) \<Rightarrow>
          if unconsumed rs1 = 0 \<and> read_end rs1 = buffer_end rs1 then
            (if \<not> ndebug then Inl Assert_failed else Inr (-1, Some EFBIG, (fst out, len), rs1, fd))
          else
            (case read_into (move_remainder rs1) fd of
               (Inl e, rs2, fd') \<Rightarrow> Inr (-1, Some e, (None, len), rs2, fd')
             | (Inr 0, rs2, fd') \<Rightarrow> Inr (0, None, (None, len), rs2, fd')
             | (Inr (Suc n), rs2, fd') \<Rightarrow>
                 (case getNextRecord (rs2\<lparr>read_end := read_end rs2 + Suc n\<rparr>) len of
                    (None, len', rs3) \<Rightarrow> Inr (-1, Some EAGAIN, (fst out, len'), rs3, fd')
                  | (Some ret, len', rs3) \<Rightarrow> Inr (0, None, (Some ret, len'), rs3, fd'))))"

section \<open>Records on the wire\<close>

definition frame :: "byte list \<Rightarrow> byte list" where
  "frame r = rev (le_bytes 4 (int (length r))) @ r"

definition wire :: "byte list list \<Rightarrow> byte list" where
  "wire recs = concat (map frame recs)"

lemma wire_simps [simp]: "wire [] = []" "wire (r # recs) = frame r @ wire recs"
  by (simp_all add: wire_def)

lemma length_frame [simp]: "length (frame r) = 4 + length r"
  by (simp add: frame_def)

text \<open>The stream: what is in the buffer and not delivered, and its invariant.\<close>

definition pending :: "RecordStream \<Rightarrow> byte list" where
  "pending rs = bslice (unconsumed rs) (read_end rs - unconsumed rs) (rs_bytes rs)"

definition rs_ok :: "RecordStream \<Rightarrow> bool" where
  "rs_ok rs \<longleftrightarrow> rs_buffer rs \<noteq> None \<and> buffer_end rs = maxRecordLen rs + HEADER_SIZE \<and> length (rs_bytes rs) = buffer_end rs
     \<and> unconsumed rs \<le> read_end rs \<and> read_end rs \<le> buffer_end rs"

definition unread :: "infile \<Rightarrow> byte list" where
  "unread fd = drop (nat (f_pos fd)) (f_data fd)"

lemma length_pending: "rs_ok rs \<Longrightarrow> length (pending rs) = read_end rs - unconsumed rs"
  by (auto simp: pending_def rs_ok_def)

lemma ntohl_at_pending:
  assumes "rs_ok rs" "unconsumed rs + 4 \<le> read_end rs"
  shows "ntohl_at (rs_bytes rs) (unconsumed rs) = nat (le_val (rev (take 4 (pending rs))))"
  using assms by (simp add: ntohl_at_def pending_def bslice_def take_take min_def)

lemma frame_length:
  assumes "length r < 4294967296"
  shows "nat (le_val (rev (take 4 (frame r @ rest)))) = length r"
  using assms by (simp add: frame_def le_val_le_bytes)

text \<open>\<open>getNextRecord\<close> on a buffer whose bytes and the rest of the stream are whole records.\<close>

lemma getNextRecord_some:
  assumes ok: "rs_ok rs" and p: "pending rs = frame r @ rest" and r: "length r < 4294967296"
  shows "getNextRecord rs len = (Some (unconsumed rs + 4), length r, rs\<lparr>unconsumed := unconsumed rs + 4 + length r\<rparr>)"
    "rs_ok (rs\<lparr>unconsumed := unconsumed rs + 4 + length r\<rparr>)"
    "pending (rs\<lparr>unconsumed := unconsumed rs + 4 + length r\<rparr>) = rest"
    "bslice (unconsumed rs + 4) (length r) (rs_bytes rs) = r"
proof -
  have len: "read_end rs - unconsumed rs = 4 + length r + length rest" using length_pending [OF ok] p by simp
  then have n: "ntohl_at (rs_bytes rs) (unconsumed rs) = length r"
    using ntohl_at_pending [OF ok] frame_length [OF r, of rest] p by simp
  then show "getNextRecord rs len = (Some (unconsumed rs + 4), length r, rs\<lparr>unconsumed := unconsumed rs + 4 + length r\<rparr>)"
    using len by (simp add: getNextRecord_def getEndOfRecord_def HEADER_SIZE_def Let_def)
  show "rs_ok (rs\<lparr>unconsumed := unconsumed rs + 4 + length r\<rparr>)" using ok len by (auto simp: rs_ok_def)
  have "bslice (unconsumed rs + 4 + length r) (length rest) (rs_bytes rs) = bslice (4 + length r) (length rest) (pending rs)"
    unfolding pending_def using len by (simp add: bslice_bslice add.assoc)
  also have "\<dots> = rest" by (simp add: p bslice_def)
  finally show "pending (rs\<lparr>unconsumed := unconsumed rs + 4 + length r\<rparr>) = rest"
    using len by (simp add: pending_def diff_diff_left [symmetric] del: diff_diff_left)
  have "bslice (unconsumed rs + 4) (length r) (rs_bytes rs) = bslice 4 (length r) (pending rs)"
    unfolding pending_def using len by (simp add: bslice_bslice)
  then show "bslice (unconsumed rs + 4) (length r) (rs_bytes rs) = r" by (simp add: p bslice_def frame_def)
qed

lemma getNextRecord_none:
  assumes ok: "rs_ok rs" and p: "pending rs @ later = wire recs" and len: "\<forall>r \<in> set recs. length r < 4294967296"
    and short: "recs \<noteq> [] \<Longrightarrow> length (pending rs) < 4 + length (hd recs)"
  shows "getNextRecord rs l = (None, l, rs)"
proof (cases "unconsumed rs + 4 \<le> read_end rs")
  case True
  then have l4: "4 \<le> length (pending rs)" using length_pending [OF ok] by simp
  then obtain r recs' where r: "recs = r # recs'" using p by (cases recs) auto
  have "take 4 (pending rs @ later) = take 4 (pending rs)" using l4 by simp
  then have "take 4 (pending rs) = take 4 (frame r @ wire recs')" using p r by simp
  then have "ntohl_at (rs_bytes rs) (unconsumed rs) = length r"
    using ntohl_at_pending [OF ok True] frame_length [of r "wire recs'"] len r by simp
  then show ?thesis using short r length_pending [OF ok] by (simp add: getNextRecord_def getEndOfRecord_def HEADER_SIZE_def Let_def)
next
  case False
  then show ?thesis by (simp add: getNextRecord_def getEndOfRecord_def HEADER_SIZE_def)
qed

section \<open>One call\<close>

text \<open>\<open>sim rs fd recs\<close>: the buffer and the rest of the file hold exactly the records \<open>recs\<close>.\<close>

definition sim :: "RecordStream \<Rightarrow> infile \<Rightarrow> byte list list \<Rightarrow> bool" where
  "sim rs fd recs \<longleftrightarrow> rs_ok rs \<and> 0 \<le> f_pos fd \<and> pending rs @ unread fd = wire recs
     \<and> (\<forall>r \<in> set recs. length r \<le> maxRecordLen rs \<and> length r < 4294967296)"

lemma move_remainder_ok:
  assumes "rs_ok rs"
  shows "rs_ok (move_remainder rs)" "pending (move_remainder rs) = pending rs" "unconsumed (move_remainder rs) = 0"
    "maxRecordLen (move_remainder rs) = maxRecordLen rs" "read_end (move_remainder rs) = read_end rs - unconsumed rs"
  using assms by (auto simp: move_remainder_def rs_ok_def pending_def bslice_def Let_def min_def)

lemma posix_read_cases:
  assumes "0 \<le> f_pos fd" "0 < n"
  obtains (err) e fd' where "posix_read fd n = (Inl e, fd')" "f_pos fd' = f_pos fd" "unread fd' = unread fd" "length (f_sched fd) = Suc (length (f_sched fd'))"
  | (eof) fd' where "posix_read fd n = (Inr [], fd')" "unread fd = []"
  | (data) bs fd' where "posix_read fd n = (Inr bs, fd')" "bs \<noteq> []" "length bs \<le> n" "unread fd = bs @ unread fd'" "0 \<le> f_pos fd'"
      "length (f_sched fd') \<le> length (f_sched fd)"
proof -
  have deliver: thesis if d: "posix_read fd n = (Inr (bslice (nat (f_pos fd)) m (f_data fd)), fd')"
    "fd' = fd\<lparr>f_sched := s, f_pos := f_pos fd + int (length (bslice (nat (f_pos fd)) m (f_data fd)))\<rparr>"
    "0 < m" "m \<le> n" "length s \<le> length (f_sched fd)" for m s fd'
  proof (cases "unread fd = []")
    case True
    then show thesis using eof d(1) by (simp add: unread_def bslice_def)
  next
    case False
    let ?bs = "bslice (nat (f_pos fd)) m (f_data fd)"
    have bs: "?bs = take m (unread fd)" by (simp add: bslice_def unread_def)
    have "unread fd' = drop (length ?bs) (unread fd)"
      using assms(1) d(2) by (simp add: unread_def nat_add_distrib add.commute)
    also have "\<dots> = drop m (unread fd)" unfolding bs by (cases "m \<le> length (unread fd)") (simp_all add: min_def)
    finally have "unread fd = ?bs @ unread fd'" unfolding bs by simp
    moreover have "?bs \<noteq> []" using False d(3) unfolding bs by simp
    moreover have "length ?bs \<le> n" using d(4) unfolding bs by simp
    ultimately show thesis using data d assms(1) by simp
  qed
  have pos: "0 < max_rw_count" by (simp add: max_rw_count_def)
  show thesis
  proof (cases "f_sched fd")
    case Nil
    then show thesis using assms(2) pos
      by (intro deliver [of "min n max_rw_count" _ "[]"]) (simp_all add: posix_read_def read_deliver_def Let_def)
  next
    case (Cons ev s)
    show thesis
    proof (cases ev)
      case (Rd_max k)
      then show thesis using Cons assms(2) pos
        by (intro deliver [of "min (min n (Suc k)) max_rw_count" _ s]) (simp_all add: posix_read_def read_deliver_def Let_def)
    next
      case (Rd_err e)
      then show thesis using Cons by (intro err [of e "fd\<lparr>f_sched := s\<rparr>"]) (simp_all add: posix_read_def unread_def)
    qed
  qed
qed

lemma read_into_data:
  assumes ok: "rs_ok rs" and u: "unconsumed rs = 0" and bs: "length bs \<le> buffer_end rs - read_end rs"
  defines "rs' \<equiv> rs\<lparr>rs_bytes := take (read_end rs) (rs_bytes rs) @ bs @ drop (read_end rs + length bs) (rs_bytes rs), read_end := read_end rs + length bs\<rparr>"
  shows "rs_ok rs'" "pending rs' = pending rs @ bs"
  using ok u bs by (auto simp: rs'_def rs_ok_def pending_def bslice_def)

text \<open>With a whole record in the buffer it is delivered; \<open>rs'\<close> is the stream after it.\<close>

lemma deliver_record:
  assumes s: "sim rs fd (r # recs)" and l: "4 + length r \<le> length (pending rs)"
  obtains p rs' where "getNextRecord rs len = (Some p, length r, rs')" "bslice p (length r) (rs_bytes rs') = r" "sim rs' fd recs"
proof -
  have ok: "rs_ok rs" and pos: "0 \<le> f_pos fd" and p: "pending rs @ unread fd = frame r @ wire recs"
    and lens: "\<forall>r \<in> set (r # recs). length r \<le> maxRecordLen rs \<and> length r < 4294967296" using s by (auto simp: sim_def)
  define rest where "rest = drop (4 + length r) (pending rs)"
  have "take (4 + length r) (pending rs) = take (4 + length r) (pending rs @ unread fd)" using l by simp
  also have "\<dots> = frame r" unfolding p by simp
  finally have rest: "pending rs = frame r @ rest" unfolding rest_def by (metis append_take_drop_id)
  with p have rest: "pending rs = frame r @ rest" "rest @ unread fd = wire recs" by simp_all
  have r: "length r < 4294967296" using lens by simp
  note n = getNextRecord_some [OF ok rest(1) r]
  show thesis
    by (rule that [OF n(1)]) (use n(2,3,4) pos rest(2) lens in \<open>simp_all add: sim_def\<close>)
qed

lemma no_record:
  assumes s: "sim rs fd recs" and l: "\<forall>r recs'. recs = r # recs' \<longrightarrow> length (pending rs) < 4 + length r"
  shows "getNextRecord rs len = (None, len, rs)"
  using s l by (intro getNextRecord_none [where later = "unread fd" and recs = recs]) (auto simp: sim_def neq_Nil_conv)

lemma not_full:
  assumes s: "sim rs fd recs" and l: "\<forall>r recs'. recs = r # recs' \<longrightarrow> length (pending rs) < 4 + length r"
  shows "length (pending rs) < buffer_end rs"
proof (cases recs)
  case Nil
  then have "pending rs = []" using s by (simp add: sim_def)
  then show ?thesis using s by (simp add: sim_def rs_ok_def HEADER_SIZE_def)
next
  case (Cons r recs')
  then have "length r \<le> maxRecordLen rs" "buffer_end rs = maxRecordLen rs + 4" using s by (auto simp: sim_def rs_ok_def HEADER_SIZE_def)
  then show ?thesis using l Cons by fastforce
qed

lemma get_next_step:
  assumes s: "sim rs fd recs"
  obtains (got) r recs' p rs' fd' where "recs = r # recs'" "record_stream_get_next nd rs fd out = Inr (0, None, (Some p, length r), rs', fd')"
      "bslice p (length r) (rs_bytes rs') = r" "sim rs' fd' recs'" "length (unread fd') \<le> length (unread fd)" "length (f_sched fd') \<le> length (f_sched fd)"
  | (wait) e o' rs' fd' where "record_stream_get_next nd rs fd out = Inr (-1, Some e, o', rs', fd')" "sim rs' fd' recs"
      "length (unread fd') + length (f_sched fd') < length (unread fd) + length (f_sched fd)"
  | (finish) l rs' fd' where "record_stream_get_next nd rs fd out = Inr (0, None, (None, l), rs', fd')" "recs = []"
proof (cases "\<exists>r recs'. recs = r # recs' \<and> 4 + length r \<le> length (pending rs)")
  case True
  then obtain r recs' where r: "recs = r # recs'" "4 + length r \<le> length (pending rs)" by blast
  obtain p rs' where "getNextRecord rs (snd out) = (Some p, length r, rs')" "bslice p (length r) (rs_bytes rs') = r" "sim rs' fd recs'"
    using deliver_record [OF _ r(2)] s r(1) by blast
  then show thesis using r(1) by (intro got [of r recs' p rs' fd]) (simp_all add: record_stream_get_next_def)
next
  case False
  then have short: "\<forall>r recs'. recs = r # recs' \<longrightarrow> length (pending rs) < 4 + length r" by (auto simp: not_le)
  have ok: "rs_ok rs" and pos: "0 \<le> f_pos fd" using s by (simp_all add: sim_def)
  let ?m = "move_remainder rs"
  note m = move_remainder_ok [OF ok]
  have be: "buffer_end ?m = buffer_end rs" using m(1,4) ok by (simp add: rs_ok_def)
  have room: "read_end ?m < buffer_end ?m" using not_full [OF s short] length_pending [OF ok] m(5) be by simp
  then have nf: "\<not> (unconsumed rs = 0 \<and> read_end rs = buffer_end rs)" using m(5) be by auto
  have g: "record_stream_get_next nd rs fd out =
     (case read_into ?m fd of
        (Inl e, rs2, fd') \<Rightarrow> Inr (-1, Some e, (None, snd out), rs2, fd')
      | (Inr 0, rs2, fd') \<Rightarrow> Inr (0, None, (None, snd out), rs2, fd')
      | (Inr (Suc n), rs2, fd') \<Rightarrow>
          (case getNextRecord (rs2\<lparr>read_end := read_end rs2 + Suc n\<rparr>) (snd out) of
             (None, len', rs3) \<Rightarrow> Inr (-1, Some EAGAIN, (fst out, len'), rs3, fd')
           | (Some ret, len', rs3) \<Rightarrow> Inr (0, None, (Some ret, len'), rs3, fd')))"
    unfolding record_stream_get_next_def no_record [OF s short] by (simp only: nf prod.case option.case if_False)
  have "0 < buffer_end ?m - read_end ?m" using room by simp
  with pos show thesis
  proof (cases rule: posix_read_cases)
    case (err e fd')
    have "sim ?m fd' recs" using s m err(2,3) by (simp add: sim_def)
    then show thesis using err by (intro wait [of e "(None, snd out)" ?m fd']) (simp_all add: g read_into_def)
  next
    case (eof fd')
    have "recs = []" using s short eof(2) by (cases recs) (auto simp: sim_def)
    then show thesis using eof(1) by (intro finish [of "snd out" "?m\<lparr>rs_bytes := take (read_end ?m) (rs_bytes ?m) @ drop (read_end ?m) (rs_bytes ?m)\<rparr>" fd'])
        (simp_all add: g read_into_def)
  next
    case (data bs fd')
    obtain n where n: "length bs = Suc n" using data(2) by (cases bs) auto
    let ?r = "?m\<lparr>rs_bytes := take (read_end ?m) (rs_bytes ?m) @ bs @ drop (read_end ?m + length bs) (rs_bytes ?m)\<rparr>"
    let ?q = "?r\<lparr>read_end := read_end ?m + length bs\<rparr>"
    have q: "sim ?q fd' recs" using read_into_data [OF m(1,3) data(3)] s m(2,4) data(4,5) by (simp add: sim_def)
    have ri: "read_into ?m fd = (Inr (Suc n), ?r, fd')" using data(1,2) m(1) n by (simp add: read_into_def rs_ok_def)
    have less: "length (unread fd') < length (unread fd)" using data(2,4) by simp
    show thesis
    proof (cases "\<exists>r recs'. recs = r # recs' \<and> 4 + length r \<le> length (pending ?q)")
      case True
      then obtain r recs' where r: "recs = r # recs'" "4 + length r \<le> length (pending ?q)" by blast
      obtain p rs' where "getNextRecord ?q (snd out) = (Some p, length r, rs')" "bslice p (length r) (rs_bytes rs') = r" "sim rs' fd' recs'"
        using deliver_record [OF _ r(2)] q r(1) by blast
      then show thesis using r(1) less data(6) n by (intro got [of r recs' p rs' fd']) (simp_all add: g ri)
    next
      case False
      then have "\<forall>r recs'. recs = r # recs' \<longrightarrow> length (pending ?q) < 4 + length r" by (auto simp: not_le)
      from no_record [OF q this] show thesis using q less data(6) n
        by (intro wait [of EAGAIN out ?q fd']) (simp_all add: g ri)
    qed
  qed
qed

section \<open>A client\<close>

text \<open>
  A client that makes up to \<open>n\<close> calls, asks again when a call fails, collects the records and stops at the end of the
  stream: the records and whether the end was seen.
\<close>

fun drain :: "bool \<Rightarrow> nat \<Rightarrow> RecordStream \<Rightarrow> infile \<Rightarrow> rs_out \<Rightarrow> (byte list list \<times> bool) res" where
  "drain ndebug 0 rs fd out = Inr ([], False)"
| "drain ndebug (Suc n) rs fd out =
     rbind (record_stream_get_next ndebug rs fd out) (\<lambda>(ret, err, out', rs', fd').
       if ret = 0
       then (case out' of
               (None, _) \<Rightarrow> Inr ([], True)
             | (Some p, len) \<Rightarrow> rbind (drain ndebug n rs' fd' out') (\<lambda>(rs, e). Inr (bslice p len (rs_bytes rs') # rs, e)))
       else drain ndebug n rs' fd' out')"

lemma drain_all:
  "sim rs fd recs \<Longrightarrow> length recs + length (unread fd) + length (f_sched fd) < n \<Longrightarrow> drain nd n rs fd out = Inr (recs, True)"
proof (induction n arbitrary: rs fd out recs)
  case 0
  then show ?case by simp
next
  case (Suc n)
  from Suc.prems(1) show ?case
  proof (cases rule: get_next_step [where nd = nd and out = out])
    case (got r recs' p rs' fd')
    then have "drain nd n rs' fd' (Some p, length r) = Inr (recs', True)" using Suc.prems(2) by (intro Suc.IH) simp_all
    then show ?thesis using got by simp
  next
    case (wait e o' rs' fd')
    then have "drain nd n rs' fd' o' = Inr (recs, True)" using Suc.prems(2) by (intro Suc.IH) simp_all
    then show ?thesis using wait(1) by simp
  next
    case (finish l rs' fd')
    then show ?thesis by simp
  qed
qed

text \<open>
  C12: every record is delivered. When a descriptor holds a sequence of records none of which is larger than
  \<open>maxRecordLen\<close>, a client that keeps asking gets exactly these records, in order and unchanged, and then the end of
  the stream, however the descriptor splits the bytes and however often a \<open>read\<close> fails in between; the number of calls
  is bounded by the number of records, bytes and failures. No assertion fails.
\<close>

theorem record_stream_delivers:
  assumes "record_stream_new ndebug maxLen garbage h = Inr (rs, h')" "rs_buffer rs \<noteq> None" "maxLen \<le> 65535"
    and "f_data fd = wire recs" "f_pos fd = 0" "\<forall>r \<in> set recs. length r \<le> maxLen"
    and "length recs + length (wire recs) + length (f_sched fd) < n"
  shows "drain ndebug n rs fd out = Inr (recs, True)"
proof -
  have "rs_ok rs" "pending rs = []" "maxRecordLen rs = maxLen"
    using assms(1,2) by (auto simp: record_stream_new_def rs_ok_def pending_def split: if_splits prod.splits option.splits)
  then have "sim rs fd recs" using assms(3-6) by (fastforce simp: sim_def unread_def)
  then show ?thesis using assms(4,5,7) by (intro drain_all) (simp_all add: unread_def)
qed

definition ex_fd :: infile where
  "ex_fd = \<lparr>f_data = wire [[1, 2, 3], [], [4]], f_pos = 0, f_sched = [Rd_max 2, Rd_err EAGAIN, Rd_max 0, Rd_max 6]\<rparr>"

definition ex_heap :: heap where
  "ex_heap = \<lparr>mem_next = 1, mem_fail = \<lambda>_. False, freed = []\<rparr>"

theorem record_stream_delivers_witness:
  "\<exists>rs h. record_stream_new False 3 (\<lambda>_. 0) ex_heap = Inr (rs, h) \<and> drain False 24 rs ex_fd (None, 0) = Inr ([[1, 2, 3], [], [4]], True)"
proof -
  obtain rs h where n: "record_stream_new False 3 (\<lambda>_. 0) ex_heap = Inr (rs, h)" "rs_buffer rs \<noteq> None"
    by (simp add: record_stream_new_def malloc_def ex_heap_def)
  have "drain False 24 rs ex_fd (None, 0) = Inr ([[1, 2, 3], [], [4]], True)"
    by (rule record_stream_delivers [OF n]) (simp_all add: ex_fd_def frame_def)
  then show ?thesis using n by blast
qed

section \<open>A record that is too long\<close>

definition too_long :: "RecordStream \<Rightarrow> infile \<Rightarrow> bool" where
  "too_long rs fd \<longleftrightarrow> rs_ok rs \<and> 0 \<le> f_pos fd \<and> maxRecordLen rs + 4 \<le> length (pending rs @ unread fd)
     \<and> maxRecordLen rs < ntohl_at (pending rs @ unread fd) 0"

lemma too_long_none:
  assumes t: "too_long rs fd"
  shows "getNextRecord rs len = (None, len, rs)"
proof (cases "unconsumed rs + 4 \<le> read_end rs")
  case True
  have ok: "rs_ok rs" using t by (simp add: too_long_def)
  then have tk: "take 4 (pending rs @ unread fd) = take 4 (pending rs)" using True by (simp add: length_pending)
  have "maxRecordLen rs < ntohl_at (rs_bytes rs) (unconsumed rs)"
    using t unfolding too_long_def ntohl_at_pending [OF ok True] ntohl_at_def [of _ 0] bslice_def drop_0 tk by blast
  then show ?thesis using ok by (auto simp: getNextRecord_def getEndOfRecord_def HEADER_SIZE_def Let_def rs_ok_def)
next
  case False
  then show ?thesis by (simp add: getNextRecord_def getEndOfRecord_def HEADER_SIZE_def)
qed

lemma too_long_step:
  assumes t: "too_long rs fd"
  obtains (full) "record_stream_get_next ndebug rs fd out = (if ndebug then Inr (-1, Some EFBIG, out, rs, fd) else Inl Assert_failed)"
  | (wait) e o' rs' fd' where "record_stream_get_next ndebug rs fd out = Inr (-1, Some e, o', rs', fd')" "too_long rs' fd'"
      "length (unread fd') + length (f_sched fd') < length (unread fd) + length (f_sched fd)"
proof (cases "unconsumed rs = 0 \<and> read_end rs = buffer_end rs")
  case True
  then show thesis using too_long_none [OF t] by (intro full) (simp add: record_stream_get_next_def)
next
  case False
  have ok: "rs_ok rs" and pos: "0 \<le> f_pos fd" using t by (simp_all add: too_long_def)
  let ?m = "move_remainder rs"
  note m = move_remainder_ok [OF ok]
  have be: "buffer_end ?m = buffer_end rs" "read_end ?m \<le> buffer_end ?m" using m(1,4) ok by (simp_all add: rs_ok_def)
  have room: "0 < buffer_end ?m - read_end ?m" using False m(5) be ok by (auto simp: rs_ok_def)
  note g = record_stream_get_next_def [of ndebug rs fd out, unfolded too_long_none [OF t] prod.case option.case if_not_P [OF False]]
  from pos room show thesis
  proof (cases rule: posix_read_cases)
    case (err e fd')
    have "too_long ?m fd'" using t m(1) unfolding too_long_def m(2,4) err(2,3) by blast
    then show thesis using err by (intro wait [of e "(None, snd out)" ?m fd']) (simp_all add: g read_into_def)
  next
    case (eof fd')
    then have "maxRecordLen rs + 4 \<le> length (pending ?m)" using t unfolding too_long_def m(2) by simp
    then show thesis using m(1,3,4) room by (simp add: length_pending [OF m(1)] rs_ok_def HEADER_SIZE_def)
  next
    case (data bs fd')
    obtain n where n: "length bs = Suc n" using data(2) by (cases bs) auto
    let ?r = "?m\<lparr>rs_bytes := take (read_end ?m) (rs_bytes ?m) @ bs @ drop (read_end ?m + length bs) (rs_bytes ?m)\<rparr>"
    let ?q = "?r\<lparr>read_end := read_end ?m + length bs\<rparr>"
    have q: "too_long ?q fd'" using read_into_data [OF m(1,3) data(3)] t m(2,4) data(4,5) by (simp add: too_long_def)
    have ri: "read_into ?m fd = (Inr (Suc n), ?r, fd')" using data(1,2) m(1) n by (simp add: read_into_def rs_ok_def)
    have "length (unread fd') < length (unread fd)" using data(2,4) by simp
    then show thesis using too_long_none [OF q] q data(6) n by (intro wait [of EAGAIN out ?q fd']) (simp_all add: g ri)
  qed
qed

lemma drain_too_long:
  "too_long rs fd \<Longrightarrow> length (unread fd) + length (f_sched fd) < n \<Longrightarrow> drain False n rs fd out = Inl Assert_failed"
proof (induction n arbitrary: rs fd out)
  case 0
  then show ?case by simp
next
  case (Suc n)
  from Suc.prems(1) show ?case
  proof (cases rule: too_long_step [where ndebug = False and out = out])
    case full
    then show ?thesis by simp
  next
    case (wait e o' rs' fd')
    then have "drain False n rs' fd' o' = Inl Assert_failed" using Suc.prems(2) by (intro Suc.IH) simp_all
    then show ?thesis using wait(1) by simp
  qed
qed

text \<open>
  C13: a peer can end the process. When the descriptor starts with a header that announces more than \<open>maxRecordLen\<close>
  bytes and sends as many bytes as the buffer holds, the client runs into the assertion that "should never happen",
  however the bytes arrive.
\<close>

theorem record_stream_too_long:
  assumes "record_stream_new False maxLen garbage h = Inr (rs, h')" "rs_buffer rs \<noteq> None"
    and "f_pos fd = 0" "maxLen < ntohl_at (f_data fd) 0" "maxLen + 4 \<le> length (f_data fd)"
    and "length (f_data fd) + length (f_sched fd) < n"
  shows "drain False n rs fd out = Inl Assert_failed"
proof -
  have "rs_ok rs" "pending rs = []" "maxRecordLen rs = maxLen"
    using assms(1,2) by (auto simp: record_stream_new_def rs_ok_def pending_def split: if_splits prod.splits option.splits)
  then have "too_long rs fd" using assms(3-5) by (simp add: too_long_def unread_def)
  then show ?thesis using assms(3,6) by (intro drain_too_long) (simp_all add: unread_def)
qed

definition ex_long_fd :: infile where
  "ex_long_fd = \<lparr>f_data = [0, 0, 0, 4, 1, 2, 3, 4], f_pos = 0, f_sched = [Rd_max 5, Rd_err EAGAIN]\<rparr>"

theorem record_stream_too_long_witness:
  "\<exists>rs h. record_stream_new False 3 (\<lambda>_. 0) ex_heap = Inr (rs, h) \<and> drain False 11 rs ex_long_fd (None, 0) = Inl Assert_failed"
proof -
  obtain rs h where n: "record_stream_new False 3 (\<lambda>_. 0) ex_heap = Inr (rs, h)" "rs_buffer rs \<noteq> None"
    by (simp add: record_stream_new_def malloc_def ex_heap_def)
  have "drain False 11 rs ex_long_fd (None, 0) = Inl Assert_failed"
    by (rule record_stream_too_long [OF n]) (simp_all add: ex_long_fd_def ntohl_at_def bslice_def)
  then show ?thesis using n by blast
qed

end
