(* ===== verification/Unicode.thy ===== *)
theory Unicode
  imports Platform
begin

unbundle bit_operations_syntax

text \<open>
  Conversions between UTF-8, UTF-16 and UTF-32 and the string functions on wide characters (\<open>libutils/Unicode.cpp\<close>).

  A pointer argument is the memory from there to the end of its allocation, a list; reading or writing behind it is
  the fault \<open>Out_of_bounds\<close>. An argument that the code compares with \<open>NULL\<close> is an option. Characters are words of their
  C type, sizes are natural numbers. \<open>sc\<close> says whether plain \<open>char\<close> is signed (it is on x86 and not on ARM).
\<close>

section \<open>Memory\<close>

definition rd :: "'a list \<Rightarrow> nat \<Rightarrow> 'a res" where
  "rd buf i = (if i < length buf then Inr (buf ! i) else Inl Out_of_bounds)"

definition wr :: "'a list \<Rightarrow> nat \<Rightarrow> 'a \<Rightarrow> 'a list res" where
  "wr buf i v = (if i < length buf then Inr (buf[i := v]) else Inl Out_of_bounds)"

text \<open>The promotion of a \<open>char\<close> to 32 bits.\<close>

definition char_ext :: "bool \<Rightarrow> byte \<Rightarrow> 32 word" where
  "char_ext sc c = (if sc then scast c else ucast c)"

section \<open>UTF-32\<close>

definition kByteMask :: "32 word" where "kByteMask = 0xBF"
definition kByteMark :: "32 word" where "kByteMark = 0x80"
definition kUnicodeSurrogateStart :: "32 word" where "kUnicodeSurrogateStart = 0xD800"
definition kUnicodeSurrogateEnd :: "32 word" where "kUnicodeSurrogateEnd = 0xDFFF"
definition kUnicodeMaxCodepoint :: "32 word" where "kUnicodeMaxCodepoint = 0x10FFFF"

definition kFirstByteMark :: "32 word list" where
  "kFirstByteMark = [0x00, 0x00, 0xC0, 0xE0, 0xF0]"

lemmas k_defs = kByteMask_def kByteMark_def kUnicodeSurrogateStart_def kUnicodeSurrogateEnd_def kUnicodeMaxCodepoint_def
  kFirstByteMark_def

definition utf32_codepoint_utf8_length :: "32 word \<Rightarrow> nat" where
  "utf32_codepoint_utf8_length srcChar =
     (if srcChar < 0x80 then 1
      else if srcChar < 0x800 then 2
      else if srcChar < 0x10000 then (if srcChar < kUnicodeSurrogateStart \<or> kUnicodeSurrogateEnd < srcChar then 3 else 0)
      else if srcChar \<le> kUnicodeMaxCodepoint then 4
      else 0)"

text \<open>The cases 4, 3 and 2 of the \<open>switch\<close>, which fall through: \<open>n\<close> trailing bytes in front of \<open>p\<close>.\<close>

primrec put_trailing :: "nat \<Rightarrow> byte list \<Rightarrow> nat \<Rightarrow> 32 word \<Rightarrow> (byte list \<times> nat \<times> 32 word) res" where
  "put_trailing 0 dst p srcChar = Inr (dst, p, srcChar)"
| "put_trailing (Suc n) dst p srcChar =
     rbind (wr dst (p - 1) (ucast ((srcChar OR kByteMark) AND kByteMask))) (\<lambda>dst.
       put_trailing n dst (p - 1) (drop_bit 6 srcChar))"

definition utf32_codepoint_to_utf8 :: "byte list \<Rightarrow> nat \<Rightarrow> 32 word \<Rightarrow> nat \<Rightarrow> byte list res" where
  "utf32_codepoint_to_utf8 dst dstP srcChar bytes =
     (if bytes = 0 \<or> 4 < bytes then Inr dst
      else rbind (put_trailing (bytes - 1) dst (dstP + bytes) srcChar) (\<lambda>(dst, p, srcChar).
        wr dst (p - 1) (ucast (srcChar OR kFirstByteMark ! bytes))))"

primrec strlen32 :: "32 word list \<Rightarrow> nat res" where
  "strlen32 [] = Inl Out_of_bounds"
| "strlen32 (c # s) = (if c \<noteq> 0 then rbind (strlen32 s) (\<lambda>n. Inr (Suc n)) else Inr 0)"

primrec strnlen32 :: "nat \<Rightarrow> 32 word list \<Rightarrow> nat res" where
  "strnlen32 0 s = Inr 0"
| "strnlen32 (Suc maxlen) s =
     (case s of [] \<Rightarrow> Inl Out_of_bounds | c # s' \<Rightarrow> if c \<noteq> 0 then rbind (strnlen32 maxlen s') (\<lambda>n. Inr (Suc n)) else Inr 0)"

text \<open>The loop of \<open>utf32_at_internal\<close>: it ends when \<open>mask\<close> meets a zero bit of the first byte or becomes zero itself.\<close>

function at_loop :: "32 word \<Rightarrow> 32 word \<Rightarrow> byte list \<Rightarrow> nat \<Rightarrow> 32 word \<Rightarrow> 32 word \<Rightarrow> (nat \<times> 32 word \<times> 32 word \<times> 32 word) res" where
  "at_loop first msk cur num_to_read to_ignore_mask utf32 =
     (if first AND msk = 0 then Inr (num_to_read, msk, to_ignore_mask, utf32)
      else (case cur of
              [] \<Rightarrow> Inl Out_of_bounds
            | c # cur' \<Rightarrow>
                at_loop first (drop_bit 1 msk) cur' (Suc num_to_read) (to_ignore_mask OR msk) (push_bit 6 utf32 + (ucast c AND 0x3F))))"
  by pat_completeness auto
termination
  by (relation "measure (\<lambda>(first, msk, cur, n, ign, u). length cur)") auto

declare at_loop.simps [simp del]

definition utf32_at_internal :: "bool \<Rightarrow> byte list \<Rightarrow> (32 word \<times> nat) res" where
  "utf32_at_internal sc cur =
     (case cur of
        [] \<Rightarrow> Inl Out_of_bounds
      | first_char # cur' \<Rightarrow>
          if first_char AND 0x80 = 0 then Inr (char_ext sc first_char, 1)
          else rbind (at_loop (char_ext sc first_char) 0x40 cur' 1 0xFFFFFF80 (char_ext sc first_char)) (\<lambda>(num_to_read, msk, to_ignore_mask, utf32).
            if 32 \<le> 6 * (num_to_read - 1) then Inl Bad_shift
            else Inr (utf32 AND NOT (push_bit (6 * (num_to_read - 1)) (to_ignore_mask OR msk)), num_to_read)))"

text \<open>The result and what \<open>*next_index\<close> then holds.\<close>

definition utf32_from_utf8_at :: "bool \<Rightarrow> byte list \<Rightarrow> nat \<Rightarrow> nat \<Rightarrow> nat \<Rightarrow> (int \<times> nat) res" where
  "utf32_from_utf8_at sc src src_len index next_index =
     (if src_len \<le> index then Inr (-1, next_index)
      else rbind (utf32_at_internal sc (drop index src)) (\<lambda>(u, num_read).
        Inr (sint u, if 0 \<le> sint u then index + num_read else next_index)))"

primrec utf32_length_loop :: "nat \<Rightarrow> 32 word list \<Rightarrow> nat \<Rightarrow> nat res" where
  "utf32_length_loop 0 src ret = Inr ret"
| "utf32_length_loop (Suc n) src ret =
     (case src of [] \<Rightarrow> Inl Out_of_bounds | c # src' \<Rightarrow> utf32_length_loop n src' (ret + utf32_codepoint_utf8_length c))"

definition utf32_to_utf8_length :: "32 word list option \<Rightarrow> nat \<Rightarrow> int res" where
  "utf32_to_utf8_length src src_len =
     (case src of
        None \<Rightarrow> Inr (-1)
      | Some s \<Rightarrow> if src_len = 0 then Inr (-1) else rbind (utf32_length_loop src_len s 0) (\<lambda>n. Inr (int n)))"

primrec utf32_to_utf8_loop :: "nat \<Rightarrow> 32 word list \<Rightarrow> byte list \<Rightarrow> nat \<Rightarrow> byte list res" where
  "utf32_to_utf8_loop 0 src dst cur = wr dst cur 0"
| "utf32_to_utf8_loop (Suc n) src dst cur =
     (case src of
        [] \<Rightarrow> Inl Out_of_bounds
      | c # src' \<Rightarrow>
          let len = utf32_codepoint_utf8_length c
          in rbind (utf32_codepoint_to_utf8 dst cur c len) (\<lambda>dst. utf32_to_utf8_loop n src' dst (cur + len)))"

text \<open>Functions that write return what the destination then holds; a \<open>NULL\<close> destination stays \<open>None\<close>.\<close>

definition utf32_to_utf8 :: "32 word list option \<Rightarrow> nat \<Rightarrow> byte list option \<Rightarrow> byte list option res" where
  "utf32_to_utf8 src src_len dst =
     (case (src, dst) of
        (Some s, Some d) \<Rightarrow> if src_len = 0 then Inr dst else rbind (utf32_to_utf8_loop src_len s d 0) (\<lambda>d. Inr (Some d))
      | _ \<Rightarrow> Inr dst)"

section \<open>UTF-16\<close>

fun strcmp16 :: "16 word list \<Rightarrow> 16 word list \<Rightarrow> int res" where
  "strcmp16 (c1 # s1) (c2 # s2) =
     (let d = uint c1 - uint c2 in if d \<noteq> 0 \<or> c1 = 0 then Inr d else strcmp16 s1 s2)"
| "strcmp16 _ _ = Inl Out_of_bounds"

fun strncmp16 :: "16 word list \<Rightarrow> 16 word list \<Rightarrow> nat \<Rightarrow> int res" where
  "strncmp16 s1 s2 0 = Inr 0"
| "strncmp16 (c1 # s1) (c2 # s2) (Suc n) =
     (let d = uint c1 - uint c2 in if d \<noteq> 0 \<or> c1 = 0 then Inr d else strncmp16 s1 s2 n)"
| "strncmp16 _ _ (Suc n) = Inl Out_of_bounds"

text \<open>The copying loops write at \<open>q\<close>.\<close>

primrec strcpy16_loop :: "16 word list \<Rightarrow> 16 word list \<Rightarrow> nat \<Rightarrow> 16 word list res" where
  "strcpy16_loop [] dst q = Inl Out_of_bounds"
| "strcpy16_loop (ch # p) dst q = rbind (wr dst q ch) (\<lambda>dst. if ch \<noteq> 0 then strcpy16_loop p dst (Suc q) else Inr dst)"

definition strcpy16 :: "16 word list \<Rightarrow> 16 word list \<Rightarrow> 16 word list res" where
  "strcpy16 dst src = strcpy16_loop src dst 0"

primrec strlen16 :: "16 word list \<Rightarrow> nat res" where
  "strlen16 [] = Inl Out_of_bounds"
| "strlen16 (c # s) = (if c \<noteq> 0 then rbind (strlen16 s) (\<lambda>n. Inr (Suc n)) else Inr 0)"

text \<open>\<open>strncpy16\<close> goes through a variable of type \<open>char\<close>.\<close>

primrec strncpy16_loop :: "bool \<Rightarrow> nat \<Rightarrow> 16 word list \<Rightarrow> 16 word list \<Rightarrow> nat \<Rightarrow> 16 word list res" where
  "strncpy16_loop sc 0 p dst q = wr dst q 0"
| "strncpy16_loop sc (Suc n) p dst q =
     (case p of
        [] \<Rightarrow> Inl Out_of_bounds
      | c # p' \<Rightarrow>
          let ch = ucast c :: byte
          in rbind (wr dst q (ucast (char_ext sc ch))) (\<lambda>dst.
               if ch = 0 then wr dst (Suc q) 0 else strncpy16_loop sc n p' dst (Suc q)))"

definition strncpy16 :: "bool \<Rightarrow> 16 word list \<Rightarrow> 16 word list \<Rightarrow> nat \<Rightarrow> 16 word list res" where
  "strncpy16 sc dst src n = strncpy16_loop sc n src dst 0"

primrec strnlen16 :: "nat \<Rightarrow> 16 word list \<Rightarrow> nat res" where
  "strnlen16 0 s = Inr 0"
| "strnlen16 (Suc maxlen) s =
     (case s of [] \<Rightarrow> Inl Out_of_bounds | c # s' \<Rightarrow> if c \<noteq> 0 then rbind (strnlen16 maxlen s') (\<lambda>n. Inr (Suc n)) else Inr 0)"

text \<open>The comparison loop returns the difference, or the memory behind the common prefix.\<close>

fun strzcmp16_loop :: "16 word list \<Rightarrow> nat \<Rightarrow> 16 word list \<Rightarrow> nat \<Rightarrow> (int + 16 word list \<times> 16 word list) res" where
  "strzcmp16_loop (c1 # s1) (Suc n1) (c2 # s2) (Suc n2) =
     (let d = uint c1 - uint c2 in if d \<noteq> 0 then Inr (Inl d) else strzcmp16_loop s1 n1 s2 n2)"
| "strzcmp16_loop s1 0 s2 n2 = Inr (Inr (s1, s2))"
| "strzcmp16_loop s1 n1 s2 0 = Inr (Inr (s1, s2))"
| "strzcmp16_loop _ (Suc n1) _ (Suc n2) = Inl Out_of_bounds"

definition strzcmp16 :: "16 word list \<Rightarrow> nat \<Rightarrow> 16 word list \<Rightarrow> nat \<Rightarrow> int res" where
  "strzcmp16 s1 n1 s2 n2 =
     rbind (strzcmp16_loop s1 n1 s2 n2) (\<lambda>r.
       case r of
         Inl d \<Rightarrow> Inr d
       | Inr (t1, t2) \<Rightarrow>
           if n1 < n2 then rbind (rd t2 0) (\<lambda>c. Inr (0 - uint c))
           else if n2 < n1 then rbind (rd t1 0) (\<lambda>c. Inr (uint c - 0))
           else Inr 0)"

definition ntohs :: "16 word \<Rightarrow> 16 word" where
  "ntohs x = push_bit 8 x OR drop_bit 8 x"

fun strzcmp16_h_n_loop :: "16 word list \<Rightarrow> nat \<Rightarrow> 16 word list \<Rightarrow> nat \<Rightarrow> (int + 16 word list \<times> 16 word list) res" where
  "strzcmp16_h_n_loop (c1 # s1) (Suc n1) (c2 # s2) (Suc n2) =
     (let d = uint c1 - uint (ntohs c2) in if d \<noteq> 0 then Inr (Inl d) else strzcmp16_h_n_loop s1 n1 s2 n2)"
| "strzcmp16_h_n_loop s1 0 s2 n2 = Inr (Inr (s1, s2))"
| "strzcmp16_h_n_loop s1 n1 s2 0 = Inr (Inr (s1, s2))"
| "strzcmp16_h_n_loop _ (Suc n1) _ (Suc n2) = Inl Out_of_bounds"

definition strzcmp16_h_n :: "16 word list \<Rightarrow> nat \<Rightarrow> 16 word list \<Rightarrow> nat \<Rightarrow> int res" where
  "strzcmp16_h_n s1H n1 s2N n2 =
     rbind (strzcmp16_h_n_loop s1H n1 s2N n2) (\<lambda>r.
       case r of
         Inl d \<Rightarrow> Inr d
       | Inr (t1, t2) \<Rightarrow>
           if n1 < n2 then rbind (rd t2 0) (\<lambda>c. Inr (0 - uint (ntohs c)))
           else if n2 < n1 then rbind (rd t1 0) (\<lambda>c. Inr (uint c - 0))
           else Inr 0)"

text \<open>The next code point of a UTF-16 string with \<open>n\<close> units left, and the number of units it takes.\<close>

definition is_high :: "16 word \<Rightarrow> bool" where "is_high c \<longleftrightarrow> c AND 0xFC00 = 0xD800"
definition is_low :: "16 word \<Rightarrow> bool" where "is_low c \<longleftrightarrow> c AND 0xFC00 = 0xDC00"

definition next_utf16 :: "16 word list \<Rightarrow> nat \<Rightarrow> (32 word \<times> nat) res" where
  "next_utf16 src n =
     rbind (rd src 0) (\<lambda>c.
       if is_high c \<and> 1 < n
       then rbind (rd src 1) (\<lambda>d.
              Inr (if is_low d
                   then ((push_bit 10 (ucast c - 0xD800) OR (ucast d - 0xDC00)) + 0x10000, 2)
                   else (ucast c, 1)))
       else Inr (ucast c, 1))"

function utf16_to_utf8_loop :: "16 word list \<Rightarrow> nat \<Rightarrow> byte list \<Rightarrow> nat \<Rightarrow> byte list res" where
  "utf16_to_utf8_loop src n dst cur =
     (if n = 0 then wr dst cur 0
      else (case next_utf16 src n of
              Inl e \<Rightarrow> Inl e
            | Inr (utf32, k) \<Rightarrow>
                let len = utf32_codepoint_utf8_length utf32
                in (case utf32_codepoint_to_utf8 dst cur utf32 len of
                      Inl e \<Rightarrow> Inl e
                    | Inr dst' \<Rightarrow> utf16_to_utf8_loop (drop k src) (n - k) dst' (cur + len))))"
  by pat_completeness auto
termination
  by (relation "measure (\<lambda>(src, n, dst, cur). n)")
    (auto simp: next_utf16_def rd_def rbind_def split: if_splits)

declare utf16_to_utf8_loop.simps [simp del]

definition utf16_to_utf8 :: "16 word list option \<Rightarrow> nat \<Rightarrow> byte list option \<Rightarrow> byte list option res" where
  "utf16_to_utf8 src src_len dst =
     (case (src, dst) of
        (Some s, Some d) \<Rightarrow> if src_len = 0 then Inr dst else rbind (utf16_to_utf8_loop s src_len d 0) (\<lambda>d. Inr (Some d))
      | _ \<Rightarrow> Inr dst)"

section \<open>UTF-8\<close>

text \<open>
  The inner loop of \<open>utf8_length\<close>, with \<open>k\<close> the rounds that \<open>num_to_read < 5\<close> still allows; \<open>None\<close> when a byte is not a
  trailing byte.
\<close>

primrec utf8_length_seq :: "nat \<Rightarrow> 32 word \<Rightarrow> 32 word \<Rightarrow> 32 word \<Rightarrow> 32 word \<Rightarrow> byte list
    \<Rightarrow> (nat \<times> 32 word \<times> 32 word \<times> 32 word \<times> byte list) option res" where
  "utf8_length_seq 0 first_char msk to_ignore_mask utf32 cur = Inr (Some (5, msk, to_ignore_mask, utf32, cur))"
| "utf8_length_seq (Suc k) first_char msk to_ignore_mask utf32 cur =
     (if first_char AND msk = 0 then Inr (Some (4 - k, msk, to_ignore_mask, utf32, cur))
      else (case cur of
              [] \<Rightarrow> Inl Out_of_bounds
            | c # cur' \<Rightarrow>
                if c AND 0xC0 \<noteq> 0x80 then Inr None
                else utf8_length_seq k first_char (drop_bit 1 msk) (to_ignore_mask OR msk) (push_bit 6 utf32 + (ucast c AND 0x3F)) cur'))"

lemma utf8_length_seq_shorter:
  "utf8_length_seq k f m g u cur = Inr (Some (n, m', g', u', cur')) \<Longrightarrow> length cur' \<le> length cur"
  by (induction k arbitrary: m g u cur) (fastforce split: if_splits list.splits)+

function utf8_length_loop :: "bool \<Rightarrow> byte list \<Rightarrow> nat \<Rightarrow> int res" where
  "utf8_length_loop sc cur ret =
     (case cur of
        [] \<Rightarrow> Inl Out_of_bounds
      | first_char # cur' \<Rightarrow>
          if first_char = 0 then Inr (int ret)
          else if first_char AND 0x80 = 0 then utf8_length_loop sc cur' (ret + 1)
          else if first_char AND 0x40 = 0 then Inr (-1)
          else (case utf8_length_seq 4 (char_ext sc first_char) 0x40 0x80 0 cur' of
                  Inl e \<Rightarrow> Inl e
                | Inr None \<Rightarrow> Inr (-1)
                | Inr (Some (num_to_read, msk, to_ignore_mask, utf32, cur'')) \<Rightarrow>
                    if num_to_read = 5 then Inr (-1)
                    else
                      let utf32 = utf32 OR push_bit (6 * (num_to_read - 1)) (NOT (to_ignore_mask OR msk) AND char_ext sc first_char)
                      in if kUnicodeMaxCodepoint < utf32 then Inr (-1) else utf8_length_loop sc cur'' (ret + num_to_read)))"
  by pat_completeness auto
termination
  by (relation "measure (\<lambda>(sc, cur, ret). length cur)") (auto dest: utf8_length_seq_shorter)

declare utf8_length_loop.simps [simp del]

definition utf8_length :: "bool \<Rightarrow> byte list \<Rightarrow> int res" where
  "utf8_length sc src = utf8_length_loop sc src 0"

text \<open>
  The condition of \<open>utf16_to_utf8_length\<close> moves \<open>src\<close>: after a high surrogate that no low surrogate follows, the code
  looks at the unit behind it.
\<close>

function utf16_length_loop :: "16 word list \<Rightarrow> nat \<Rightarrow> nat \<Rightarrow> nat res" where
  "utf16_length_loop src n ret =
     (if n = 0 then Inr ret
      else (case rd src 0 of
              Inl e \<Rightarrow> Inl e
            | Inr c \<Rightarrow>
                if is_high c \<and> 1 < n
                then (case rd src 1 of
                        Inl e \<Rightarrow> Inl e
                      | Inr d \<Rightarrow>
                          if is_low d then utf16_length_loop (drop 2 src) (n - 2) (ret + 4)
                          else utf16_length_loop (drop 2 src) (n - 2) (ret + utf32_codepoint_utf8_length (ucast d)))
                else utf16_length_loop (drop 1 src) (n - 1) (ret + utf32_codepoint_utf8_length (ucast c))))"
  by pat_completeness auto
termination
  by (relation "measure (\<lambda>(src, n, ret). n)") auto

declare utf16_length_loop.simps [simp del]

definition utf16_to_utf8_length :: "16 word list option \<Rightarrow> nat \<Rightarrow> int res" where
  "utf16_to_utf8_length src src_len =
     (case src of
        None \<Rightarrow> Inr (-1)
      | Some s \<Rightarrow> if src_len = 0 then Inr (-1) else rbind (utf16_length_loop s src_len 0) (\<lambda>n. Inr (int n)))"

definition utf8_codepoint_len :: "byte \<Rightarrow> nat" where
  "utf8_codepoint_len ch = unat (drop_bit (unat (drop_bit 3 ch AND 0x1e)) (0xe5000000 :: 32 word) AND 3) + 1"

lemma utf8_codepoint_len_pos [simp]: "0 < utf8_codepoint_len ch"
  by (simp add: utf8_codepoint_len_def)

definition utf8_shift_and_mask :: "32 word \<Rightarrow> byte \<Rightarrow> 32 word" where
  "utf8_shift_and_mask codePoint byte = push_bit 6 codePoint OR (0x3F AND ucast byte)"

text \<open>The loop that counts the leading one bits behind the first.\<close>

function count_skip :: "32 word \<Rightarrow> 32 word \<Rightarrow> nat \<Rightarrow> nat" where
  "count_skip first_char msk num_to_skip =
     (if first_char AND msk = 0 then num_to_skip else count_skip first_char (drop_bit 1 msk) (Suc num_to_skip))"
  by pat_completeness auto
termination
proof (relation "measure (\<lambda>(first, msk, n). unat msk)")
  fix first msk :: "32 word" and n :: nat
  assume "first AND msk \<noteq> 0"
  then have "unat msk \<noteq> 0" by (metis and_zero_eq unat_eq_zero)
  then have "unat msk div 2 < unat msk" by simp
  then show "((first, drop_bit 1 msk, Suc n), first, msk, n) \<in> measure (\<lambda>(first, msk, n). unat msk)"
    unfolding in_measure case_prod_conv unat_drop_bit_eq by (simp add: drop_bit_eq_div)
qed simp

declare count_skip.simps [simp del]

lemma count_skip_ge: "n \<le> count_skip f m n"
  by (induction f m n rule: count_skip.induct) (subst count_skip.simps, fastforce dest: Suc_leD)

function utf8_to_utf32_length_loop :: "bool \<Rightarrow> byte list \<Rightarrow> nat \<Rightarrow> nat \<Rightarrow> nat res" where
  "utf8_to_utf32_length_loop sc cur n ret =
     (if n = 0 then Inr ret
      else (case cur of
              [] \<Rightarrow> Inl Out_of_bounds
            | first_char # _ \<Rightarrow>
                let k = (if first_char AND 0x80 = 0 then 1 else count_skip (char_ext sc first_char) 0x40 1)
                in utf8_to_utf32_length_loop sc (drop k cur) (n - k) (Suc ret)))"
  by pat_completeness auto
termination
proof (relation "measure (\<lambda>(sc, cur, n, ret). n)", simp, goal_cases)
  case (1 sc cur n ret x xs k)
  have "1 \<le> k" using 1(3) count_skip_ge [of 1] by simp
  then show ?case using 1(1) by simp
qed

declare utf8_to_utf32_length_loop.simps [simp del]

definition utf8_to_utf32_length :: "bool \<Rightarrow> byte list option \<Rightarrow> nat \<Rightarrow> nat res" where
  "utf8_to_utf32_length sc src src_len =
     (case src of None \<Rightarrow> Inr 0 | Some s \<Rightarrow> if src_len = 0 then Inr 0 else utf8_to_utf32_length_loop sc s src_len 0)"

function utf8_to_utf32_loop :: "bool \<Rightarrow> byte list \<Rightarrow> nat \<Rightarrow> 32 word list \<Rightarrow> nat \<Rightarrow> 32 word list res" where
  "utf8_to_utf32_loop sc cur n dst q =
     (if n = 0 then wr dst q 0
      else (case utf32_at_internal sc cur of
              Inl e \<Rightarrow> Inl e
            | Inr (u, num_read) \<Rightarrow>
                (case wr dst q u of
                   Inl e \<Rightarrow> Inl e
                 | Inr dst' \<Rightarrow> utf8_to_utf32_loop sc (drop num_read cur) (n - num_read) dst' (Suc q))))"
  by pat_completeness auto
termination
  by (relation "measure (\<lambda>(sc, cur, n, dst, q). length dst - q)") (auto simp: wr_def split: if_splits)

declare utf8_to_utf32_loop.simps [simp del]

definition utf8_to_utf32 :: "bool \<Rightarrow> byte list option \<Rightarrow> nat \<Rightarrow> 32 word list option \<Rightarrow> 32 word list option res" where
  "utf8_to_utf32 sc src src_len dst =
     (case (src, dst) of
        (Some s, Some d) \<Rightarrow> if src_len = 0 then Inr dst else rbind (utf8_to_utf32_loop sc s src_len d 0) (\<lambda>d. Inr (Some d))
      | _ \<Rightarrow> Inr dst)"

definition utf8_to_utf32_codepoint :: "byte list \<Rightarrow> nat \<Rightarrow> 32 word res" where
  "utf8_to_utf32_codepoint src len =
     (if len = 1 then rbind (rd src 0) (\<lambda>a. Inr (ucast a))
      else if len = 2 then
        rbind (rd src 0) (\<lambda>a. rbind (rd src 1) (\<lambda>b.
          Inr (utf8_shift_and_mask (ucast a AND 0x1f) b)))
      else if len = 3 then
        rbind (rd src 0) (\<lambda>a. rbind (rd src 1) (\<lambda>b. rbind (rd src 2) (\<lambda>c.
          Inr (utf8_shift_and_mask (utf8_shift_and_mask (ucast a AND 0x0f) b) c))))
      else if len = 4 then
        rbind (rd src 0) (\<lambda>a. rbind (rd src 1) (\<lambda>b. rbind (rd src 2) (\<lambda>c. rbind (rd src 3) (\<lambda>d.
          Inr (utf8_shift_and_mask (utf8_shift_and_mask (utf8_shift_and_mask (ucast a AND 0x07) b) c) d)))))
      else Inr 0xffff)"

text \<open>In the loops over UTF-8, \<open>n\<close> is \<open>u8end - u8cur\<close>, which may become negative.\<close>

function utf8_to_utf16_length_loop :: "byte list \<Rightarrow> int \<Rightarrow> nat \<Rightarrow> (int \<times> nat) res" where
  "utf8_to_utf16_length_loop u8cur n len =
     (if n \<le> 0 then Inr (n, len)
      else (case rd u8cur 0 of
              Inl e \<Rightarrow> Inl e
            | Inr c \<Rightarrow>
                let k = utf8_codepoint_len c
                in (case utf8_to_utf32_codepoint u8cur k of
                      Inl e \<Rightarrow> Inl e
                    | Inr codepoint \<Rightarrow>
                        utf8_to_utf16_length_loop (drop k u8cur) (n - int k) (if 0xFFFF < codepoint then len + 2 else len + 1))))"
  by pat_completeness auto
termination
  by (relation "measure (\<lambda>(u8cur, n, len). nat n)") auto

declare utf8_to_utf16_length_loop.simps [simp del]

definition utf8_to_utf16_length :: "byte list \<Rightarrow> nat \<Rightarrow> int res" where
  "utf8_to_utf16_length u8str u8len =
     rbind (utf8_to_utf16_length_loop u8str (int u8len) 0) (\<lambda>(n, len). Inr (if n \<noteq> 0 then -1 else int len))"

text \<open>One code point as UTF-16 at \<open>q\<close>: the destination and the new position.\<close>

definition put_utf16 :: "16 word list \<Rightarrow> nat \<Rightarrow> 32 word \<Rightarrow> (16 word list \<times> nat) res" where
  "put_utf16 dst q codepoint =
     (if codepoint \<le> 0xFFFF then rbind (wr dst q (ucast codepoint)) (\<lambda>dst. Inr (dst, q + 1))
      else let codepoint = codepoint - 0x10000
           in rbind (wr dst q (ucast (drop_bit 10 codepoint + 0xD800))) (\<lambda>dst.
              rbind (wr dst (q + 1) (ucast ((codepoint AND 0x3FF) + 0xDC00))) (\<lambda>dst. Inr (dst, q + 2))))"

function utf8_to_utf16_no_null_terminator_loop :: "byte list \<Rightarrow> int \<Rightarrow> 16 word list \<Rightarrow> nat \<Rightarrow> (16 word list \<times> nat) res" where
  "utf8_to_utf16_no_null_terminator_loop u8cur n dst u16cur =
     (if n \<le> 0 then Inr (dst, u16cur)
      else (case rd u8cur 0 of
              Inl e \<Rightarrow> Inl e
            | Inr c \<Rightarrow>
                let k = utf8_codepoint_len c
                in (case utf8_to_utf32_codepoint u8cur k of
                      Inl e \<Rightarrow> Inl e
                    | Inr codepoint \<Rightarrow>
                        (case put_utf16 dst u16cur codepoint of
                           Inl e \<Rightarrow> Inl e
                         | Inr (dst', q) \<Rightarrow> utf8_to_utf16_no_null_terminator_loop (drop k u8cur) (n - int k) dst' q))))"
  by pat_completeness auto
termination
  by (relation "measure (\<lambda>(u8cur, n, dst, q). nat n)") auto

declare utf8_to_utf16_no_null_terminator_loop.simps [simp del]

text \<open>The destination and the returned pointer, as an index.\<close>

definition utf8_to_utf16_no_null_terminator :: "byte list \<Rightarrow> nat \<Rightarrow> 16 word list \<Rightarrow> (16 word list \<times> nat) res" where
  "utf8_to_utf16_no_null_terminator u8str u8len u16str = utf8_to_utf16_no_null_terminator_loop u8str (int u8len) u16str 0"

definition utf8_to_utf16 :: "byte list \<Rightarrow> nat \<Rightarrow> 16 word list \<Rightarrow> 16 word list res" where
  "utf8_to_utf16 u8str u8len u16str =
     rbind (utf8_to_utf16_no_null_terminator u8str u8len u16str) (\<lambda>(dst, end). wr dst end 0)"

text \<open>With room for \<open>dstLen\<close> units; a pair that does not fit is undone by returning the pointer in front of it.\<close>

definition put_utf16_n :: "16 word list \<Rightarrow> nat \<Rightarrow> nat \<Rightarrow> 32 word \<Rightarrow> (bool \<times> 16 word list \<times> nat) res" where
  "put_utf16_n dst dstLen q codepoint =
     (if codepoint \<le> 0xFFFF then rbind (wr dst q (ucast codepoint)) (\<lambda>dst. Inr (True, dst, q + 1))
      else let codepoint = codepoint - 0x10000
           in rbind (wr dst q (ucast (drop_bit 10 codepoint + 0xD800))) (\<lambda>dst.
              if dstLen \<le> q + 1 then Inr (False, dst, q)
              else rbind (wr dst (q + 1) (ucast ((codepoint AND 0x3FF) + 0xDC00))) (\<lambda>dst. Inr (True, dst, q + 2))))"

function utf8_to_utf16_n_loop :: "byte list \<Rightarrow> int \<Rightarrow> 16 word list \<Rightarrow> nat \<Rightarrow> nat \<Rightarrow> (16 word list \<times> nat) res" where
  "utf8_to_utf16_n_loop u8cur n dst dstLen u16cur =
     (if n \<le> 0 \<or> dstLen \<le> u16cur then Inr (dst, u16cur)
      else (case rd u8cur 0 of
              Inl e \<Rightarrow> Inl e
            | Inr c \<Rightarrow>
                let k = utf8_codepoint_len c
                in (case utf8_to_utf32_codepoint u8cur k of
                      Inl e \<Rightarrow> Inl e
                    | Inr codepoint \<Rightarrow>
                        (case put_utf16_n dst dstLen u16cur codepoint of
                           Inl e \<Rightarrow> Inl e
                         | Inr (False, dst', q) \<Rightarrow> Inr (dst', q)
                         | Inr (True, dst', q) \<Rightarrow> utf8_to_utf16_n_loop (drop k u8cur) (n - int k) dst' dstLen q))))"
  by pat_completeness auto
termination
  by (relation "measure (\<lambda>(u8cur, n, dst, dstLen, q). nat n)") auto

declare utf8_to_utf16_n_loop.simps [simp del]

definition utf8_to_utf16_n :: "byte list \<Rightarrow> nat \<Rightarrow> 16 word list \<Rightarrow> nat \<Rightarrow> (16 word list \<times> nat) res" where
  "utf8_to_utf16_n src srcLen dst dstLen = utf8_to_utf16_n_loop src (int srcLen) dst dstLen 0"

end
