(* ===== verification/Unicode_Correct.thy ===== *)
theory Unicode_Correct
  imports Unicode
begin

unbundle bit_operations_syntax

text \<open>
  The conversions of \<open>Unicode\<close> against the encodings of the Unicode standard: \<open>enc8\<close> and \<open>enc16\<close> encode one scalar value,
  \<open>utf8\<close> and \<open>utf16\<close> a string of them. The first section turns the bit operations of the code into arithmetic.
\<close>

section \<open>Bits and arithmetic\<close>

lemma and_mask_mod: "x AND (2 ^ k - 1) = x mod 2 ^ k" for x :: int
  by (simp add: take_bit_eq_mod [symmetric] take_bit_eq_mask mask_eq_exp_minus_1)

lemmas int_masks = and_mask_mod [of _ 2, simplified] and_mask_mod [of _ 3, simplified] and_mask_mod [of _ 4, simplified]
  and_mask_mod [of _ 5, simplified] and_mask_mod [of _ 6, simplified] and_mask_mod [of _ 10, simplified]

lemma or_plus: "a mod 2 ^ k = 0 \<Longrightarrow> 0 \<le> b \<Longrightarrow> b < 2 ^ k \<Longrightarrow> a OR b = a + (b :: int)"
proof -
  assume a: "a mod 2 ^ k = 0" "0 \<le> b" "b < 2 ^ k"
  then obtain c where c: "a = push_bit k c" by (auto simp: push_bit_eq_mult mod_eq_0_iff_dvd dvd_def mult.commute)
  have "b = take_bit k b" using a by (simp add: take_bit_eq_mod)
  then show ?thesis using concat_bit_eq [of k b c] concat_bit_def [of k b c] c by (simp add: or.commute add.commute)
qed

lemma or_and_or: "(x OR k) AND (m OR k) = (x AND m) OR (k :: int)"
  by (rule bit_eqI) (auto simp: bit_simps)

lemma trailing_bits: "(x OR 128) AND 191 = 128 + x mod (64 :: int)"
  using or_and_or [of x 128 63] or_plus [of 128 6 "x mod 64"] by (simp add: int_masks or.commute)

lemma uint_drop_bit: "uint (drop_bit n w) = uint w div 2 ^ n" for w :: "'a :: len word"
  unfolding unsigned_drop_bit_eq by (simp add: drop_bit_eq_div unsigned_take_bit_eq [symmetric] bintr_uint)

lemma word_uintI: "uint a = uint b \<Longrightarrow> a = b" for a b :: "'a :: len word"
  by (simp add: word_uint_eq_iff)

definition byte_of :: "int \<Rightarrow> byte" where "byte_of x = word_of_int x"
definition unit_of :: "int \<Rightarrow> 16 word" where "unit_of x = word_of_int x"

lemma uint_byte_of: "0 \<le> x \<Longrightarrow> x < 256 \<Longrightarrow> uint (byte_of x) = x"
  by (simp add: byte_of_def uint_word_of_int)

lemma uint_unit_of: "0 \<le> x \<Longrightarrow> x < 65536 \<Longrightarrow> uint (unit_of x) = x"
  by (simp add: unit_of_def uint_word_of_int)

lemma ucast_byte: "uint w < 256 \<Longrightarrow> (ucast w :: byte) = byte_of (uint w)" for w :: "32 word"
  by (simp add: byte_of_def word_uint_eq_iff unsigned_ucast_eq take_bit_eq_mod uint_word_of_int)

lemma ucast_unit: "uint w < 65536 \<Longrightarrow> (ucast w :: 16 word) = unit_of (uint w)" for w :: "32 word"
  by (simp add: unit_of_def word_uint_eq_iff unsigned_ucast_eq take_bit_eq_mod uint_word_of_int)

section \<open>The encodings\<close>

definition scalar :: "32 word \<Rightarrow> bool" where
  "scalar c \<longleftrightarrow> uint c < 55296 \<or> 57343 < uint c \<and> uint c \<le> 1114111"

definition enc8 :: "32 word \<Rightarrow> byte list" where
  "enc8 c = (let x = uint c in
     if x < 128 then [byte_of x]
     else if x < 2048 then [byte_of (192 + x div 64), byte_of (128 + x mod 64)]
     else if x < 65536 then [byte_of (224 + x div 4096), byte_of (128 + x div 64 mod 64), byte_of (128 + x mod 64)]
     else [byte_of (240 + x div 262144), byte_of (128 + x div 4096 mod 64), byte_of (128 + x div 64 mod 64),
           byte_of (128 + x mod 64)])"

definition enc16 :: "32 word \<Rightarrow> 16 word list" where
  "enc16 c = (let x = uint c in
     if x < 65536 then [unit_of x]
     else [unit_of (55296 + (x - 65536) div 1024), unit_of (56320 + (x - 65536) mod 1024)])"

definition utf8 :: "32 word list \<Rightarrow> byte list" where "utf8 cs = concat (map enc8 cs)"
definition utf16 :: "32 word list \<Rightarrow> 16 word list" where "utf16 cs = concat (map enc16 cs)"

lemma utf_simps [simp]: "utf8 [] = []" "utf8 (c # cs) = enc8 c @ utf8 cs" "utf16 [] = []" "utf16 (c # cs) = enc16 c @ utf16 cs"
  by (simp_all add: utf8_def utf16_def)

lemma scalar_bound: "scalar c \<Longrightarrow> uint c < 1114112"
  by (auto simp: scalar_def)

lemma codepoint_length: "scalar c \<Longrightarrow> utf32_codepoint_utf8_length c = length (enc8 c)"
  by (auto simp: utf32_codepoint_utf8_length_def enc8_def scalar_def word_less_alt word_le_def k_defs Let_def)

lemma enc8_pos: "0 < length (enc8 c)" and enc16_pos: "0 < length (enc16 c)"
  by (simp_all add: enc8_def enc16_def Let_def)

section \<open>Writing UTF-8\<close>

text \<open>\<open>write_at p bs d\<close>: the list \<open>d\<close> with \<open>bs\<close> written at \<open>p\<close>.\<close>

definition write_at :: "nat \<Rightarrow> 'a list \<Rightarrow> 'a list \<Rightarrow> 'a list" where
  "write_at p bs d = take p d @ bs @ drop (p + length bs) d"

lemma length_write_at [simp]: "p + length bs \<le> length d \<Longrightarrow> length (write_at p bs d) = length d"
  by (simp add: write_at_def)

lemma write_at_front: "Suc p + length bs \<le> length d \<Longrightarrow> (write_at (Suc p) bs d)[p := a] = write_at p (a # bs) d"
  by (simp add: write_at_def upd_conv_take_nth_drop)

lemma write_at_one: "p < length d \<Longrightarrow> d[p := a] = write_at p [a] d"
  by (simp add: write_at_def upd_conv_take_nth_drop)

lemma write_at_append:
  "q = p + length bs \<Longrightarrow> q + length cs \<le> length d \<Longrightarrow> write_at q cs (write_at p bs d) = write_at p (bs @ cs) d"
  by (simp add: write_at_def add.commute add.left_commute)

lemma write_at_Nil [simp]: "write_at p [] d = d"
  by (simp add: write_at_def)

lemma wr_ok: "i < length buf \<Longrightarrow> wr buf i v = Inr (buf[i := v])"
  by (simp add: wr_def)

lemma trail_byte: "(ucast ((c OR kByteMark) AND kByteMask) :: byte) = byte_of (128 + uint c mod 64)"
proof -
  have "uint ((c OR kByteMark) AND kByteMask) = 128 + uint c mod 64"
    by (simp add: k_defs unsigned_and_eq unsigned_or_eq trailing_bits)
  then show ?thesis by (simp add: ucast_byte)
qed

lemma lead_byte:
  fixes c :: "32 word"
  assumes "m mod 2 ^ k = 0" "0 \<le> m" "uint c < 2 ^ k" "m + uint c < 256"
  shows "(ucast (c OR word_of_int m) :: byte) = byte_of (m + uint c)"
proof -
  have "m < 256" using assms(4) uint_ge_0 [of c] by linarith
  then have "uint (c OR word_of_int m) = m + uint c"
    using assms or_plus [of m k "uint c"] by (simp add: unsigned_or_eq uint_word_of_int or.commute)
  then show ?thesis using assms by (simp add: ucast_byte)
qed

lemma put_trailing_step:
  assumes "Suc p + length bs \<le> length d"
  shows "put_trailing (Suc n) (write_at (Suc p) bs d) (Suc p) c = put_trailing n (write_at p (byte_of (128 + uint c mod 64) # bs) d) p (drop_bit 6 c)"
  using assms by (simp add: wr_ok trail_byte write_at_front)

lemma codepoint_to_utf8:
  assumes c: "scalar c" and p: "p + length (enc8 c) \<le> length dst"
  shows "utf32_codepoint_to_utf8 dst p c (length (enc8 c)) = Inr (write_at p (enc8 c) dst)"
proof -
  let ?x = "uint c"
  have step: "put_trailing (Suc n) (write_at (Suc q) bs dst) (Suc q) d = put_trailing n (write_at q (byte_of (128 + uint d mod 64) # bs) dst) q (drop_bit 6 d)"
    if "Suc q + length bs \<le> length dst" for n q bs d by (rule put_trailing_step) fact
  consider "?x < 128" | "128 \<le> ?x" "?x < 2048" | "2048 \<le> ?x" "?x < 65536" | "65536 \<le> ?x" "?x < 1114112"
    using scalar_bound [OF c] by linarith
  then show ?thesis
  proof cases
    case 1
    then have "enc8 c = [byte_of ?x]" by (simp add: enc8_def Let_def)
    then show ?thesis using p 1 by (simp add: utf32_codepoint_to_utf8_def wr_ok k_defs write_at_one ucast_byte)
  next
    case 2
    then have e: "enc8 c = [byte_of (192 + ?x div 64), byte_of (128 + ?x mod 64)]" by (simp add: enc8_def Let_def)
    have "(ucast (drop_bit 6 c OR 0xC0) :: byte) = byte_of (192 + ?x div 64)"
      using lead_byte [of 192 6 "drop_bit 6 c"] 2 by (simp add: uint_drop_bit)
    then show ?thesis using p e step [of "Suc p" "[]" 0 c] by (simp add: utf32_codepoint_to_utf8_def wr_ok k_defs write_at_front)
  next
    case 3
    then have e: "enc8 c = [byte_of (224 + ?x div 4096), byte_of (128 + ?x div 64 mod 64), byte_of (128 + ?x mod 64)]" by (simp add: enc8_def Let_def)
    have "(ucast (drop_bit 12 c OR 0xE0) :: byte) = byte_of (224 + ?x div 4096)"
      using lead_byte [of 224 4 "drop_bit 12 c"] 3 by (simp add: uint_drop_bit)
    then show ?thesis using p e step [of "Suc (Suc p)" "[]" 1 c] step [of "Suc p" "[byte_of (128 + ?x mod 64)]" 0 "drop_bit 6 c"]
      by (simp add: utf32_codepoint_to_utf8_def wr_ok k_defs write_at_front uint_drop_bit numeral_eq_Suc)
  next
    case 4
    then have e: "enc8 c = [byte_of (240 + ?x div 262144), byte_of (128 + ?x div 4096 mod 64), byte_of (128 + ?x div 64 mod 64),
        byte_of (128 + ?x mod 64)]" by (simp add: enc8_def Let_def)
    have "(ucast (drop_bit 18 c OR 0xF0) :: byte) = byte_of (240 + ?x div 262144)"
      using lead_byte [of 240 4 "drop_bit 18 c"] 4 by (simp add: uint_drop_bit)
    then show ?thesis using p e step [of "Suc (Suc (Suc p))" "[]" 2 c] step [of "Suc (Suc p)" "[byte_of (128 + ?x mod 64)]" 1 "drop_bit 6 c"]
        step [of "Suc p" "[byte_of (128 + ?x div 64 mod 64), byte_of (128 + ?x mod 64)]" 0 "drop_bit 12 c"]
      by (simp add: utf32_codepoint_to_utf8_def wr_ok k_defs write_at_front uint_drop_bit numeral_eq_Suc)
  qed
qed

lemma utf32_to_utf8_loop_ok:
  "\<forall>c \<in> set cs. scalar c \<Longrightarrow> cur + length (utf8 cs) < length dst \<Longrightarrow>
   utf32_to_utf8_loop (length cs) (cs @ rest) dst cur = Inr (write_at cur (utf8 cs @ [0]) dst)"
proof (induction cs arbitrary: dst cur)
  case Nil
  then show ?case by (simp add: wr_ok write_at_one)
next
  case (Cons c cs)
  then have c: "scalar c" "cur + length (enc8 c) \<le> length dst" by simp_all
  have "utf32_to_utf8_loop (length cs) (cs @ rest) (write_at cur (enc8 c) dst) (cur + length (enc8 c))
      = Inr (write_at (cur + length (enc8 c)) (utf8 cs @ [0]) (write_at cur (enc8 c) dst))"
    using Cons.prems by (intro Cons.IH) simp_all
  then show ?case using Cons.prems(2) by (simp add: codepoint_length [OF c(1)] codepoint_to_utf8 [OF c] write_at_append)
qed

section \<open>Reading UTF-16\<close>

lemma and_push_bit: "x AND push_bit k m = push_bit k (drop_bit k x AND m)" for x m :: int
  by (rule bit_eqI) (auto simp: bit_simps)

lemma and_high_bits: "0 \<le> x \<Longrightarrow> x < 65536 \<Longrightarrow> x AND 64512 = 1024 * (x div 1024)" for x :: int
proof -
  assume "0 \<le> x" "x < 65536"
  then show ?thesis using and_push_bit [of x 10 63] by (simp add: int_masks push_bit_eq_mult drop_bit_eq_div)
qed

lemma uint16_bound: "0 \<le> uint (c :: 16 word)" "uint (c :: 16 word) < 65536"
  using uint_bounded [of c] by simp_all

lemma surrogate_iff:
  "is_high c \<longleftrightarrow> 55296 \<le> uint c \<and> uint c < 56320" "is_low c \<longleftrightarrow> 56320 \<le> uint c \<and> uint c < 57344"
  using and_high_bits [OF uint16_bound, of c] uint16_bound [of c]
  by (auto simp: is_high_def is_low_def word_uint_eq_iff unsigned_and_eq)

lemma uint_ucast16: "uint (ucast c :: 32 word) = uint c" for c :: "16 word"
  using uint16_bound [of c] by (simp add: unsigned_ucast_eq take_bit_eq_mod)

lemma push_or_value:
  fixes a b :: "32 word"
  assumes "uint a < 1024" "uint b < 1024"
  shows "uint (push_bit 10 a OR b) = uint a * 1024 + uint b"
proof -
  have "uint (push_bit 10 a) = uint a * 1024"
    using assms by (simp only: unsigned_push_bit_eq) (simp add: take_bit_eq_mod push_bit_eq_mult)
  then show ?thesis using assms or_plus [of "uint a * 1024" 10 "uint b"] by (simp only: unsigned_or_eq) simp
qed

lemma pair_value:
  fixes c d :: "16 word"
  assumes "is_high c" "is_low d"
  shows "uint ((push_bit 10 (ucast c - 0xD800) OR (ucast d - 0xDC00)) + 0x10000 :: 32 word)
    = (uint c - 55296) * 1024 + (uint d - 56320) + 65536"
proof -
  let ?h = "uint c - 55296" and ?l = "uint d - 56320"
  have b: "0 \<le> ?h" "?h < 1024" "0 \<le> ?l" "?l < 1024" using assms by (simp_all add: surrogate_iff)
  then have "uint (ucast c - 0xD800 :: 32 word) = ?h" "uint (ucast d - 0xDC00 :: 32 word) = ?l"
    by (simp_all add: uint_sub_if' uint_ucast16)
  then have "uint (push_bit 10 (ucast c - 0xD800) OR (ucast d - 0xDC00) :: 32 word) = ?h * 1024 + ?l"
    using b push_or_value by presburger
  then show ?thesis using b by (simp only: uint_plus_if') simp
qed

lemma enc16_BMP: "uint c < 65536 \<Longrightarrow> enc16 c = [unit_of (uint c)]"
  by (simp add: enc16_def)

lemma enc16_pair:
  assumes "65536 \<le> uint c" "uint c < 1114112"
  shows "\<exists>h l. enc16 c = [h, l] \<and> is_high h \<and> is_low l \<and> uint h = 55296 + (uint c - 65536) div 1024 \<and> uint l = 56320 + (uint c - 65536) mod 1024"
proof -
  define y where "y = uint c - 65536"
  have y: "0 \<le> y" "y < 1048576" using assms by (simp_all add: y_def)
  then have "0 \<le> y div 1024" "y div 1024 < 1024" "0 \<le> y mod 1024" "y mod 1024 < 1024" by (simp_all add: pos_imp_zdiv_nonneg_iff)
  then show ?thesis using assms by (simp add: enc16_def y_def [symmetric] Let_def surrogate_iff uint_unit_of)
qed

lemma next_utf16_enc:
  assumes c: "scalar c" and n: "length (enc16 c) \<le> n"
  shows "next_utf16 (enc16 c @ rest) n = Inr (c, length (enc16 c))"
proof (cases "uint c < 65536")
  case True
  then have "\<not> is_high (unit_of (uint c))" using c by (auto simp: surrogate_iff uint_unit_of scalar_def)
  moreover have "(ucast (unit_of (uint c)) :: 32 word) = c" using True by (intro word_uintI) (simp add: uint_ucast16 uint_unit_of)
  ultimately show ?thesis using True by (simp add: enc16_BMP next_utf16_def rd_def)
next
  case False
  then obtain h l where hl: "enc16 c = [h, l]" "is_high h" "is_low l"
    "uint h = 55296 + (uint c - 65536) div 1024" "uint l = 56320 + (uint c - 65536) mod 1024"
    using enc16_pair [of c] scalar_bound [OF c] by auto
  have "(uint c - 65536) div 1024 * 1024 + (uint c - 65536) mod 1024 + 65536 = uint c" by simp
  then have "(push_bit 10 (ucast h - 0xD800) OR (ucast l - 0xDC00)) + 0x10000 = c"
    using hl by (intro word_uintI) (simp add: pair_value)
  then show ?thesis using hl n by (simp add: next_utf16_def rd_def)
qed

lemma utf16_to_utf8_loop_ok:
  "\<forall>c \<in> set cs. scalar c \<Longrightarrow> cur + length (utf8 cs) < length dst \<Longrightarrow>
   utf16_to_utf8_loop (utf16 cs @ rest) (length (utf16 cs)) dst cur = Inr (write_at cur (utf8 cs @ [0]) dst)"
proof (induction cs arbitrary: dst cur)
  case Nil
  then show ?case by (simp add: utf16_to_utf8_loop.simps wr_ok write_at_one)
next
  case (Cons c cs)
  then have c: "scalar c" "cur + length (enc8 c) \<le> length dst" by simp_all
  have "utf16_to_utf8_loop (utf16 cs @ rest) (length (utf16 cs)) (write_at cur (enc8 c) dst) (cur + length (enc8 c))
      = Inr (write_at (cur + length (enc8 c)) (utf8 cs @ [0]) (write_at cur (enc8 c) dst))"
    using Cons.prems by (intro Cons.IH) simp_all
  then show ?case using Cons.prems(2) enc16_pos [of c]
    by (subst utf16_to_utf8_loop.simps) (simp add: next_utf16_enc [OF c(1)] codepoint_length [OF c(1)] codepoint_to_utf8 [OF c] write_at_append)
qed

section \<open>Reading UTF-8\<close>

lemma uint_byte_bound: "0 \<le> uint (b :: byte)" "uint (b :: byte) < 256"
  using uint_bounded [of b] by simp_all

lemma codepoint_len:
  "utf8_codepoint_len ch = (if uint ch < 192 then 1 else if uint ch < 224 then 2 else if uint ch < 240 then 3 else 4)"
proof -
  define k where "k = uint ch div 16"
  have k: "0 \<le> k" "k < 16" using uint_byte_bound [of ch] by (simp_all add: k_def pos_imp_zdiv_nonneg_iff)
  have "uint (drop_bit 3 ch AND 0x1e) = (uint ch div 8) AND 30"
    by (simp only: unsigned_and_eq uint_drop_bit) simp
  also have "\<dots> = 2 * ((uint ch div 8) div 2 mod 16)"
    using and_push_bit [of "uint ch div 8" 1 15] by (simp add: int_masks push_bit_eq_mult drop_bit_eq_div)
  also have "(uint ch div 8) div 2 mod 16 = k" using k by (simp add: k_def zdiv_zmult2_eq [symmetric])
  finally have u: "unat (drop_bit 3 ch AND 0x1e) = nat (2 * k)" by (simp only: unat_eq_nat_uint)
  have ch: "uint ch < 192 \<longleftrightarrow> k < 12" "uint ch < 224 \<longleftrightarrow> k < 14" "uint ch < 240 \<longleftrightarrow> k < 15"
    using uint_byte_bound [of ch] by (auto simp: k_def)
  have "k = 0 \<or> k = 1 \<or> k = 2 \<or> k = 3 \<or> k = 4 \<or> k = 5 \<or> k = 6 \<or> k = 7 \<or> k = 8 \<or> k = 9 \<or> k = 10 \<or> k = 11 \<or> k = 12 \<or> k = 13
      \<or> k = 14 \<or> k = 15"
    using k by presburger
  then show ?thesis unfolding utf8_codepoint_len_def u ch by (elim disjE) (simp_all add: drop_bit_eq_div)
qed

lemma uint_ucast8: "uint (ucast b :: 32 word) = uint b" for b :: byte
  using uint_byte_bound [of b] by (simp add: unsigned_ucast_eq take_bit_eq_mod)

lemma shift_and_mask: "uint a < 67108864 \<Longrightarrow> uint (utf8_shift_and_mask a b) = uint a * 64 + uint b mod 64"
proof -
  assume a: "uint a < 67108864"
  then have "uint (push_bit 6 a) = uint a * 64"
    by (simp only: unsigned_push_bit_eq) (simp add: take_bit_eq_mod push_bit_eq_mult)
  moreover have "uint (0x3F AND ucast b :: 32 word) = uint b mod 64"
    by (simp only: unsigned_and_eq uint_ucast8) (simp add: and.commute [of 63] int_masks)
  ultimately show ?thesis using or_plus [of "uint a * 64" 6 "uint b mod 64"]
    unfolding utf8_shift_and_mask_def by (simp only: unsigned_or_eq) simp
qed

lemma lead_mask: "uint (ucast b AND 0x1f :: 32 word) = uint b mod 32" "uint (ucast b AND 0x0f :: 32 word) = uint b mod 16"
    "uint (ucast b AND 0x07 :: 32 word) = uint b mod 8" for b :: byte
  by (simp_all only: unsigned_and_eq uint_ucast8) (simp_all add: int_masks)

text \<open>The four forms of an encoded character, with their bytes as numbers.\<close>

lemma enc8_cases:
  assumes "uint c < 1114112"
  obtains (one) b where "enc8 c = [b]" "uint b = uint c" "uint c < 128"
  | (two) a b where "enc8 c = [a, b]" "uint a = 192 + uint c div 64" "uint b = 128 + uint c mod 64" "128 \<le> uint c" "uint c < 2048"
  | (three) a b d where "enc8 c = [a, b, d]" "uint a = 224 + uint c div 4096" "uint b = 128 + uint c div 64 mod 64" "uint d = 128 + uint c mod 64"
      "2048 \<le> uint c" "uint c < 65536"
  | (four) a b d e where "enc8 c = [a, b, d, e]" "uint a = 240 + uint c div 262144" "uint b = 128 + uint c div 4096 mod 64"
      "uint d = 128 + uint c div 64 mod 64" "uint e = 128 + uint c mod 64" "65536 \<le> uint c"
proof -
  let ?x = "uint c"
  have x: "0 \<le> ?x" by simp
  have m: "0 \<le> y mod 64" "y mod 64 < 64" for y :: int by simp_all
  consider "?x < 128" | "128 \<le> ?x" "?x < 2048" | "2048 \<le> ?x" "?x < 65536" | "65536 \<le> ?x" by linarith
  then show thesis
  proof cases
    case 1
    then show thesis by (intro one [of "byte_of ?x"]) (simp_all add: enc8_def Let_def uint_byte_of)
  next
    case 2
    then have "0 \<le> ?x div 64" "?x div 64 < 32" by (simp_all add: pos_imp_zdiv_nonneg_iff)
    then show thesis using 2 m
      by (intro two [of "byte_of (192 + ?x div 64)" "byte_of (128 + ?x mod 64)"]) (simp_all add: enc8_def Let_def uint_byte_of)
  next
    case 3
    then have "0 \<le> ?x div 4096" "?x div 4096 < 16" by (simp_all add: pos_imp_zdiv_nonneg_iff)
    then show thesis using 3 m
      by (intro three [of "byte_of (224 + ?x div 4096)" "byte_of (128 + ?x div 64 mod 64)" "byte_of (128 + ?x mod 64)"])
        (simp_all add: enc8_def Let_def uint_byte_of)
  next
    case 4
    then have "0 \<le> ?x div 262144" "?x div 262144 < 8" using assms by (simp_all add: pos_imp_zdiv_nonneg_iff)
    then show thesis using 4 m
      by (intro four [of "byte_of (240 + ?x div 262144)" "byte_of (128 + ?x div 4096 mod 64)" "byte_of (128 + ?x div 64 mod 64)" "byte_of (128 + ?x mod 64)"])
        (simp_all add: enc8_def Let_def uint_byte_of)
  qed
qed

text \<open>A number from its 6-bit digits.\<close>

lemma digits64: "x div 64 * 64 + x mod 64 = x" "x div 4096 * 64 + x div 64 mod 64 = x div 64" "x div 262144 * 64 + x div 4096 mod 64 = x div 4096"
  for x :: int
  using div_mult_mod_eq [of "x div 64" 64] div_mult_mod_eq [of "x div 4096" 64] by (simp_all add: zdiv_zmult2_eq [symmetric])

lemma trail_mod: "(128 + y mod 64) mod 64 = y mod (64 :: int)"
  by (simp add: mod_add_eq [symmetric])

lemma utf8_decode:
  assumes c: "scalar c"
  shows "utf8_codepoint_len (hd (enc8 c)) = length (enc8 c)" "utf8_to_utf32_codepoint (enc8 c @ rest) (length (enc8 c)) = Inr c"
proof -
  note d = digits64 [of "uint c"] trail_mod shift_and_mask lead_mask
  have x: "0 \<le> uint c" by simp
  from scalar_bound [OF c] have "utf8_codepoint_len (hd (enc8 c)) = length (enc8 c) \<and> utf8_to_utf32_codepoint (enc8 c @ rest) (length (enc8 c)) = Inr c"
  proof (cases rule: enc8_cases)
    case (one b)
    then show ?thesis by (auto simp: codepoint_len utf8_to_utf32_codepoint_def rd_def intro!: word_uintI simp: uint_ucast8)
  next
    case (two a b)
    have "0 \<le> uint c div 64" "uint c div 64 < 32" using two(5) x by (simp_all add: pos_imp_zdiv_nonneg_iff)
    moreover from this have "(192 + uint c div 64) mod 32 = uint c div 64" by (simp add: mod_add_left_eq [symmetric, of 192])
    ultimately show ?thesis using two by (auto simp: codepoint_len utf8_to_utf32_codepoint_def rd_def d intro!: word_uintI)
  next
    case (three a b e)
    have "0 \<le> uint c div 4096" "uint c div 4096 < 16" "uint c div 64 < 1024" using three(6) x by (simp_all add: pos_imp_zdiv_nonneg_iff)
    moreover from this have "(224 + uint c div 4096) mod 16 = uint c div 4096" by (simp add: mod_add_left_eq [symmetric, of 224])
    ultimately show ?thesis using three by (auto simp: codepoint_len utf8_to_utf32_codepoint_def rd_def d intro!: word_uintI)
  next
    case (four a b e f)
    have "0 \<le> uint c div 262144" "uint c div 262144 < 8" "uint c div 4096 < 512" "uint c div 64 < 32768" using scalar_bound [OF c] x by (simp_all add: pos_imp_zdiv_nonneg_iff)
    moreover from this have "(240 + uint c div 262144) mod 8 = uint c div 262144" by (simp add: mod_add_left_eq [symmetric, of 240])
    ultimately show ?thesis using four scalar_bound [OF c] by (auto simp: codepoint_len utf8_to_utf32_codepoint_def rd_def d intro!: word_uintI)
  qed
  then show "utf8_codepoint_len (hd (enc8 c)) = length (enc8 c)" "utf8_to_utf32_codepoint (enc8 c @ rest) (length (enc8 c)) = Inr c" by simp_all
qed

text \<open>The other decoder, which looks at the first byte bit by bit.\<close>

lemma bit_char_ext_low: "k < 8 \<Longrightarrow> bit (char_ext sc b) k = bit b k"
  by (cases "k = 7") (auto simp: char_ext_def bit_simps min_def)

lemma bit_char_ext: "k < 8 \<Longrightarrow> bit (char_ext sc b) k \<longleftrightarrow> odd (uint b div 2 ^ k)"
  unfolding bit_char_ext_low by (simp add: bit_iff_odd [symmetric] bit_uint_iff)

lemma char_ext_mod: "uint (char_ext sc b) mod 256 = uint b"
proof -
  have "take_bit 8 (char_ext sc b) = ucast b"
  proof (rule bit_word_eqI)
    fix n :: nat
    assume "n < LENGTH(32)"
    then show "bit (take_bit 8 (char_ext sc b)) n = bit (ucast b :: 32 word) n"
      using bit_imp_le_length [of b n] by (cases "n < 8") (auto simp: bit_take_bit_iff bit_char_ext_low bit_ucast_iff)
  qed
  then have "take_bit 8 (uint (char_ext sc b)) = uint b" by (simp only: unsigned_take_bit_eq [symmetric] uint_ucast8)
  then show ?thesis by (simp add: take_bit_eq_mod)
qed

lemma and_bit: "(w AND 0x40 = 0) = (\<not> bit w 6)" "(w AND 0x20 = 0) = (\<not> bit w 5)" "(w AND 0x10 = 0) = (\<not> bit w 4)" "(w AND 0x08 = 0) = (\<not> bit w 3)"
  for w :: "32 word"
  using and_exp_eq_0_iff_not_bit [of w 6] and_exp_eq_0_iff_not_bit [of w 5] and_exp_eq_0_iff_not_bit [of w 4] and_exp_eq_0_iff_not_bit [of w 3]
  by simp_all

lemma byte_and_80: "(b AND 0x80 = 0) = (uint b < 128)" for b :: byte
proof -
  have "(b AND 2 ^ 7 = 0) = (\<not> bit (uint b) 7)" using and_exp_eq_0_iff_not_bit [of b 7] by (simp add: bit_simps)
  also have "\<dots> = even (uint b div 128)" by (simp add: bit_iff_odd)
  also have "\<dots> = (uint b < 128)"
  proof (cases "uint b < 128")
    case False
    then have "uint b div 128 = 1" using uint_byte_bound [of b] by simp
    then show ?thesis using False by simp
  qed (simp add: div_pos_pos_trivial)
  finally show ?thesis by simp
qed

text \<open>The bits behind the first of a lead byte.\<close>

lemma lead_bits:
  "192 \<le> uint b \<Longrightarrow> bit (char_ext sc b) 6"
  "192 \<le> uint b \<Longrightarrow> uint b < 224 \<Longrightarrow> \<not> bit (char_ext sc b) 5" "224 \<le> uint b \<Longrightarrow> bit (char_ext sc b) 5"
  "224 \<le> uint b \<Longrightarrow> uint b < 240 \<Longrightarrow> \<not> bit (char_ext sc b) 4" "240 \<le> uint b \<Longrightarrow> bit (char_ext sc b) 4"
  "240 \<le> uint b \<Longrightarrow> uint b < 248 \<Longrightarrow> \<not> bit (char_ext sc b) 3"
proof -
  note b = uint_byte_bound [of b]
  have "192 \<le> uint b \<Longrightarrow> uint b div 64 = 3" using b by simp
  then show "192 \<le> uint b \<Longrightarrow> bit (char_ext sc b) 6" by (simp add: bit_char_ext)
  have "192 \<le> uint b \<Longrightarrow> uint b < 224 \<Longrightarrow> uint b div 32 = 6" "224 \<le> uint b \<Longrightarrow> uint b div 32 = 7" using b by simp_all
  then show "192 \<le> uint b \<Longrightarrow> uint b < 224 \<Longrightarrow> \<not> bit (char_ext sc b) 5" "224 \<le> uint b \<Longrightarrow> bit (char_ext sc b) 5" by (simp_all add: bit_char_ext)
  have "224 \<le> uint b \<Longrightarrow> uint b < 240 \<Longrightarrow> uint b div 16 = 14" "240 \<le> uint b \<Longrightarrow> uint b div 16 = 15" using b by simp_all
  then show "224 \<le> uint b \<Longrightarrow> uint b < 240 \<Longrightarrow> \<not> bit (char_ext sc b) 4" "240 \<le> uint b \<Longrightarrow> bit (char_ext sc b) 4" by (simp_all add: bit_char_ext)
  have "240 \<le> uint b \<Longrightarrow> uint b < 248 \<Longrightarrow> uint b div 8 = 30" using b by simp
  then show "240 \<le> uint b \<Longrightarrow> uint b < 248 \<Longrightarrow> \<not> bit (char_ext sc b) 3" by (simp add: bit_char_ext)
qed

lemma shift_plus: "uint (push_bit 6 u + (ucast c AND 0x3F) :: 32 word) = (uint u * 64 + uint c mod 64) mod 4294967296" for c :: byte
proof -
  have "uint (push_bit 6 u) = uint u * 64 mod 4294967296"
    by (simp only: unsigned_push_bit_eq) (simp add: take_bit_eq_mod push_bit_eq_mult)
  moreover have "uint (ucast c AND 0x3F :: 32 word) = uint c mod 64"
    by (simp only: unsigned_and_eq uint_ucast8) (simp add: int_masks)
  ultimately show ?thesis by (simp only: uint_word_ariths) (simp add: mod_simps)
qed

lemma shift_plus_mod:
  fixes c :: byte
  assumes "0 < m" "m dvd 67108864"
  shows "uint (push_bit 6 u + (ucast c AND 0x3F) :: 32 word) mod (m * 64) = (uint u mod m) * 64 + uint c mod 64"
proof -
  let ?t = "uint c mod 64"
  have "m * 64 dvd 67108864 * 64" using assms(2) by (rule mult_dvd_mono) simp
  then have "uint (push_bit 6 u + (ucast c AND 0x3F) :: 32 word) mod (m * 64) = (uint u * 64 + ?t) mod (m * 64)"
    unfolding shift_plus by (simp add: mod_mod_cancel)
  also have "\<dots> = 64 * ((uint u * 64 + ?t) div 64 mod m) + (uint u * 64 + ?t) mod 64"
    using assms(1) by (simp only: mult.commute [of m 64] zmod_zmult2_eq)
  finally show ?thesis by simp
qed

lemma uint_masks: "uint (w AND 0x7FF) = uint w mod (32 * 64)" "uint (w AND 0xFFFF) = uint w mod (1024 * 64)" "uint (w AND 0x1FFFFF) = uint w mod (32768 * 64)"
  for w :: "32 word"
  using and_mask_mod [of "uint w" 11] and_mask_mod [of "uint w" 16] and_mask_mod [of "uint w" 21] by (simp_all only: unsigned_and_eq) simp_all

lemma char_ext_mods: "uint (char_ext sc b) mod 32 = uint b mod 32" "uint (char_ext sc b) mod 16 = uint b mod 16" "uint (char_ext sc b) mod 8 = uint b mod 8"
  using char_ext_mod [of sc b, symmetric] by (simp_all add: mod_mod_cancel)

lemma char_ext_ascii: "uint b < 128 \<Longrightarrow> char_ext sc b = ucast b"
proof -
  assume "uint b < 128"
  then have "\<not> bit (uint b) 7" by (simp only: bit_iff_odd) (simp add: div_pos_pos_trivial)
  then have "\<not> bit b 7" by (simp add: bit_uint_iff)
  moreover have "bit b n \<Longrightarrow> 7 \<le> n \<Longrightarrow> n = 7" for n using bit_imp_le_length [of b n] by simp
  ultimately show ?thesis by (intro bit_word_eqI) (auto simp: char_ext_def bit_simps min_def)
qed

lemma at_loop_stop: "first AND msk = 0 \<Longrightarrow> at_loop first msk cur n ign u = Inr (n, msk, ign, u)"
  by (simp add: at_loop.simps)

lemma at_loop_go: "first AND msk \<noteq> 0 \<Longrightarrow> at_loop first msk (c # cur) n ign u =
    at_loop first (drop_bit 1 msk) cur (Suc n) (ign OR msk) (push_bit 6 u + (ucast c AND 0x3F))"
  by (subst at_loop.simps) simp

lemma at_internal_eq:
  assumes "128 \<le> uint a" "at_loop (char_ext sc a) 0x40 cur 1 0xFFFFFF80 (char_ext sc a) = Inr (n, msk, ign, u)" "6 * (n - 1) < 32"
    "NOT (push_bit (6 * (n - 1)) (ign OR msk)) = k"
  shows "utf32_at_internal sc (a # cur) = Inr (u AND k, n)"
  using assms by (simp add: utf32_at_internal_def byte_and_80)

lemma at_decode:
  assumes c: "scalar c"
  shows "utf32_at_internal sc (enc8 c @ rest) = Inr (c, length (enc8 c))"
  using scalar_bound [OF c]
proof (cases rule: enc8_cases)
  case (one b)
  then have "char_ext sc b = c" by (intro word_uintI) (simp add: char_ext_ascii uint_ucast8)
  then show ?thesis using one by (simp add: utf32_at_internal_def byte_and_80)
next
  case (two a b)
  let ?e = "char_ext sc a"
  have "0 \<le> uint c div 64" "uint c div 64 < 32" using two(5) by (simp_all add: pos_imp_zdiv_nonneg_iff)
  then have a: "192 \<le> uint a" "uint a < 224" "uint a mod 32 = uint c div 64"
    using two(2) by (simp_all add: mod_add_left_eq [symmetric, of 192])
  have "at_loop ?e 0x40 (b # rest) 1 0xFFFFFF80 ?e = Inr (2, 0x20, 0xFFFFFFC0, push_bit 6 ?e + (ucast b AND 0x3F))"
    using a lead_bits by (simp add: at_loop_go at_loop_stop and_bit)
  from at_internal_eq [OF _ this, of "0x7FF"] have "utf32_at_internal sc (a # b # rest) = Inr ((push_bit 6 ?e + (ucast b AND 0x3F)) AND 0x7FF, 2)"
    using a by simp
  moreover have "(push_bit 6 ?e + (ucast b AND 0x3F)) AND 0x7FF = c"
  proof (rule word_uintI)
    have "uint (push_bit 6 ?e + (ucast b AND 0x3F) :: 32 word) mod (32 * 64) = uint ?e mod 32 * 64 + uint b mod 64"
      by (rule shift_plus_mod) simp_all
    then show "uint ((push_bit 6 ?e + (ucast b AND 0x3F)) AND 0x7FF) = uint c"
      unfolding uint_masks char_ext_mods a(3) two(3) trail_mod digits64 .
  qed
  ultimately show ?thesis using two by simp
next
  case (three a b d)
  let ?e = "char_ext sc a"
  have "0 \<le> uint c div 4096" "uint c div 4096 < 16" using three(6) by (simp_all add: pos_imp_zdiv_nonneg_iff)
  then have a: "224 \<le> uint a" "uint a < 240" "uint a mod 16 = uint c div 4096"
    using three(2) by (simp_all add: mod_add_left_eq [symmetric, of 224])
  let ?u = "push_bit 6 (push_bit 6 ?e + (ucast b AND 0x3F)) + (ucast d AND 0x3F)"
  have "at_loop ?e 0x40 (b # d # rest) 1 0xFFFFFF80 ?e = Inr (3, 0x10, 0xFFFFFFE0, ?u)"
    using a lead_bits by (simp add: at_loop_go at_loop_stop and_bit)
  from at_internal_eq [OF _ this, of "0xFFFF"] have "utf32_at_internal sc (a # b # d # rest) = Inr (?u AND 0xFFFF, 3)"
    using a by simp
  moreover have "?u AND 0xFFFF = c"
  proof (rule word_uintI)
    have "uint ?u mod (1024 * 64) = uint (push_bit 6 ?e + (ucast b AND 0x3F) :: 32 word) mod (16 * 64) * 64 + uint d mod 64"
      by (subst shift_plus_mod) simp_all
    also have "uint (push_bit 6 ?e + (ucast b AND 0x3F) :: 32 word) mod (16 * 64) = uint ?e mod 16 * 64 + uint b mod 64"
      by (rule shift_plus_mod) simp_all
    finally show "uint (?u AND 0xFFFF) = uint c"
      unfolding uint_masks char_ext_mods a(3) three(3,4) trail_mod digits64 .
  qed
  ultimately show ?thesis using three by simp
next
  case (four a b d e)
  let ?e = "char_ext sc a"
  have "0 \<le> uint c div 262144" "uint c div 262144 < 8" using scalar_bound [OF c] by (simp_all add: pos_imp_zdiv_nonneg_iff)
  then have a: "240 \<le> uint a" "uint a < 248" "uint a mod 8 = uint c div 262144"
    using four(2) by (simp_all add: mod_add_left_eq [symmetric, of 240])
  let ?v = "push_bit 6 ?e + (ucast b AND 0x3F) :: 32 word"
  let ?w = "push_bit 6 ?v + (ucast d AND 0x3F)"
  let ?u = "push_bit 6 ?w + (ucast e AND 0x3F)"
  have "at_loop ?e 0x40 (b # d # e # rest) 1 0xFFFFFF80 ?e = Inr (4, 0x08, 0xFFFFFFF0, ?u)"
    using a lead_bits by (simp add: at_loop_go at_loop_stop and_bit)
  from at_internal_eq [OF _ this, of "0x1FFFFF"] have "utf32_at_internal sc (a # b # d # e # rest) = Inr (?u AND 0x1FFFFF, 4)"
    using a by simp
  moreover have "?u AND 0x1FFFFF = c"
  proof (rule word_uintI)
    have "uint ?u mod (32768 * 64) = uint ?w mod (512 * 64) * 64 + uint e mod 64"
      by (subst shift_plus_mod) simp_all
    also have "uint ?w mod (512 * 64) = uint ?v mod (8 * 64) * 64 + uint d mod 64"
      by (subst shift_plus_mod) simp_all
    also have "uint ?v mod (8 * 64) = uint ?e mod 8 * 64 + uint b mod 64"
      by (rule shift_plus_mod) simp_all
    finally show "uint (?u AND 0x1FFFFF) = uint c"
      unfolding uint_masks char_ext_mods a(3) four(3,4,5) trail_mod digits64 .
  qed
  ultimately show ?thesis using four by simp
qed

section \<open>Writing UTF-16\<close>

lemma put_utf16_enc:
  assumes c: "scalar c" and q: "q + length (enc16 c) \<le> length dst"
  shows "put_utf16 dst q c = Inr (write_at q (enc16 c) dst, q + length (enc16 c))"
    "q + length (enc16 c) \<le> dstLen \<Longrightarrow> put_utf16_n dst dstLen q c = Inr (True, write_at q (enc16 c) dst, q + length (enc16 c))"
proof -
  let ?g = "put_utf16 dst q c = Inr (write_at q (enc16 c) dst, q + length (enc16 c))
    \<and> (q + length (enc16 c) \<le> dstLen \<longrightarrow> put_utf16_n dst dstLen q c = Inr (True, write_at q (enc16 c) dst, q + length (enc16 c)))"
  have ?g
  proof (cases "uint c < 65536")
    case True
    then have "c \<le> 0xFFFF" by (simp add: word_le_def)
    then show ?thesis using q True
      by (simp add: put_utf16_def put_utf16_n_def enc16_BMP wr_ok write_at_one ucast_unit)
  next
    case False
    define y where "y = uint c - 65536"
    have y: "0 \<le> y" "y < 1048576" using False scalar_bound [OF c] by (simp_all add: y_def)
    have e: "enc16 c = [unit_of (55296 + y div 1024), unit_of (56320 + y mod 1024)]" using False by (simp add: enc16_def y_def Let_def)
    have n: "\<not> c \<le> 0xFFFF" using False by (simp add: word_le_def)
    have u: "uint (c - 0x10000) = y" using False by (simp add: uint_sub_if' y_def)
    have "0 \<le> y div 1024" "y div 1024 < 1024" using y by (simp_all add: pos_imp_zdiv_nonneg_iff)
    then have "uint (drop_bit 10 (c - 0x10000) + 0xD800) = 55296 + y div 1024"
      unfolding uint_plus_if' uint_drop_bit u by simp
    then have h: "(ucast (drop_bit 10 (c - 0x10000) + 0xD800) :: 16 word) = unit_of (55296 + y div 1024)"
      using \<open>y div 1024 < 1024\<close> by (simp add: ucast_unit)
    have "uint ((c - 0x10000 AND 0x3FF) + 0xDC00) = 56320 + y mod 1024"
      unfolding uint_plus_if' unsigned_and_eq u by (simp add: int_masks)
    then have l: "(ucast ((c - 0x10000 AND 0x3FF) + 0xDC00) :: 16 word) = unit_of (56320 + y mod 1024)" by (simp add: ucast_unit)
    show ?thesis using q n h l e
      by (simp add: put_utf16_def put_utf16_n_def Let_def wr_ok write_at_one write_at_append)
  qed
  then show "put_utf16 dst q c = Inr (write_at q (enc16 c) dst, q + length (enc16 c))"
    "q + length (enc16 c) \<le> dstLen \<Longrightarrow> put_utf16_n dst dstLen q c = Inr (True, write_at q (enc16 c) dst, q + length (enc16 c))" by simp_all
qed

end
