(* ===== verification/Unicode_Strings.thy ===== *)
theory Unicode_Strings
  imports Unicode_Correct
begin

unbundle bit_operations_syntax

text \<open>
  The functions of \<open>Unicode\<close> on whole strings: the conversions of well-formed strings are inverse to one another,
  what \<open>utf16_to_utf8\<close> makes of surrogates without a partner and how much room \<open>utf16_to_utf8_length\<close> measures for
  it, the bounded conversion \<open>utf8_to_utf16_n\<close>, and the check of \<open>utf8_length\<close>.
\<close>

section \<open>Strings\<close>

lemma enc8_hd: "rd (enc8 c @ rest) 0 = Inr (hd (enc8 c))" "enc8 c \<noteq> []"
  using enc8_pos [of c] by (auto simp: rd_def hd_conv_nth nth_append)

lemma scalar_gt: "scalar c \<Longrightarrow> 0xFFFF < c \<longleftrightarrow> length (enc16 c) = 2" "scalar c \<Longrightarrow> \<not> 0xFFFF < c \<longleftrightarrow> length (enc16 c) = 1"
  by (auto simp: enc16_def word_less_alt Let_def)

lemma utf8_to_utf16_length_ok:
  "\<forall>c \<in> set cs. scalar c \<Longrightarrow>
   utf8_to_utf16_length_loop (utf8 cs @ rest) (int (length (utf8 cs))) n = Inr (0, n + length (utf16 cs))"
proof (induction cs arbitrary: n)
  case Nil
  then show ?case by (simp add: utf8_to_utf16_length_loop.simps)
next
  case (Cons c cs)
  then have c: "scalar c" by simp
  have pos: "\<not> int (length (enc8 c)) + int (length (utf8 cs)) \<le> 0" using enc8_pos [of c] by linarith
  have "utf8_to_utf16_length_loop (utf8 (c # cs) @ rest) (int (length (utf8 (c # cs)))) n
      = utf8_to_utf16_length_loop (utf8 cs @ rest) (int (length (utf8 cs))) (n + length (enc16 c))"
    using pos scalar_gt [OF c]
    by (subst utf8_to_utf16_length_loop.simps) (auto simp: enc8_hd utf8_decode [OF c] Let_def)
  then show ?case using Cons by simp
qed

lemma utf8_to_utf16_ok:
  "\<forall>c \<in> set cs. scalar c \<Longrightarrow> q + length (utf16 cs) \<le> length dst \<Longrightarrow>
   utf8_to_utf16_no_null_terminator_loop (utf8 cs @ rest) (int (length (utf8 cs))) dst q = Inr (write_at q (utf16 cs) dst, q + length (utf16 cs))"
proof (induction cs arbitrary: dst q)
  case Nil
  then show ?case by (simp add: utf8_to_utf16_no_null_terminator_loop.simps)
next
  case (Cons c cs)
  then have c: "scalar c" "q + length (enc16 c) \<le> length dst" by simp_all
  have pos: "\<not> int (length (enc8 c)) + int (length (utf8 cs)) \<le> 0" using enc8_pos [of c] by linarith
  have "utf8_to_utf16_no_null_terminator_loop (utf8 (c # cs) @ rest) (int (length (utf8 (c # cs)))) dst q
      = utf8_to_utf16_no_null_terminator_loop (utf8 cs @ rest) (int (length (utf8 cs))) (write_at q (enc16 c) dst) (q + length (enc16 c))"
    using pos
    by (subst utf8_to_utf16_no_null_terminator_loop.simps) (auto simp: enc8_hd utf8_decode [OF c(1)] put_utf16_enc [OF c] Let_def)
  then show ?case using Cons by (simp add: write_at_append)
qed

lemma utf8_to_utf32_ok:
  "\<forall>c \<in> set cs. scalar c \<Longrightarrow> q + length cs < length dst \<Longrightarrow>
   utf8_to_utf32_loop sc (utf8 cs @ rest) (length (utf8 cs)) dst q = Inr (write_at q (cs @ [0]) dst)"
proof (induction cs arbitrary: dst q)
  case Nil
  then show ?case by (simp add: utf8_to_utf32_loop.simps wr_ok write_at_one)
next
  case (Cons c cs)
  then have c: "scalar c" by simp
  have "utf8_to_utf32_loop sc (utf8 (c # cs) @ rest) (length (utf8 (c # cs))) dst q
      = utf8_to_utf32_loop sc (utf8 cs @ rest) (length (utf8 cs)) (write_at q [c] dst) (Suc q)"
    using enc8_hd(2) [of c] Cons.prems(2)
    by (subst utf8_to_utf32_loop.simps) (simp add: at_decode [OF c] wr_ok write_at_one)
  also have "\<dots> = Inr (write_at (Suc q) (cs @ [0]) (write_at q [c] dst))" using Cons.prems by (intro Cons.IH) simp_all
  finally show ?case using Cons.prems(2) by (simp add: write_at_append)
qed

lemma utf32_length_ok:
  "\<forall>c \<in> set cs. scalar c \<Longrightarrow> utf32_length_loop (length cs) (cs @ rest) n = Inr (n + length (utf8 cs))"
  by (induction cs arbitrary: n) (simp_all add: codepoint_length add.assoc)

lemma count_skip_stop: "f AND m = 0 \<Longrightarrow> count_skip f m n = n"
  by (simp add: count_skip.simps)

lemma count_skip_go: "f AND m \<noteq> 0 \<Longrightarrow> count_skip f m n = count_skip f (drop_bit 1 m) (Suc n)"
  by (subst count_skip.simps) simp

lemma skip_length:
  assumes c: "scalar c"
  shows "(if hd (enc8 c) AND 0x80 = 0 then 1 else count_skip (char_ext sc (hd (enc8 c))) 0x40 1) = length (enc8 c)"
  using scalar_bound [OF c]
proof (cases rule: enc8_cases)
  case (one b)
  then show ?thesis by (simp add: byte_and_80)
next
  case (two a b)
  then have "192 \<le> uint a" "uint a < 224" by simp_all
  then show ?thesis using two(1) lead_bits by (simp add: byte_and_80 count_skip_go count_skip_stop and_bit)
next
  case (three a b d)
  then have "224 \<le> uint a" "uint a < 240" by simp_all
  then show ?thesis using three(1) lead_bits by (simp add: byte_and_80 count_skip_go count_skip_stop and_bit)
next
  case (four a b d e)
  then have "240 \<le> uint a" "uint a < 248" using scalar_bound [OF c] by simp_all
  then show ?thesis using four(1) lead_bits by (simp add: byte_and_80 count_skip_go count_skip_stop and_bit)
qed

lemma utf8_to_utf32_length_ok:
  "\<forall>c \<in> set cs. scalar c \<Longrightarrow> utf8_to_utf32_length_loop sc (utf8 cs @ rest) (length (utf8 cs)) n = Inr (n + length cs)"
proof (induction cs arbitrary: n)
  case Nil
  then show ?case by (simp add: utf8_to_utf32_length_loop.simps)
next
  case (Cons c cs)
  then have c: "scalar c" by simp
  obtain b bs where e: "enc8 c = b # bs" using enc8_hd(2) by (cases "enc8 c") auto
  have s: "(if b AND 0x80 = 0 then 1 else count_skip (char_ext sc b) 0x40 1) = Suc (length bs)"
    using skip_length [OF c, of sc] unfolding e list.sel(1) length_Cons .
  have "utf8_to_utf32_length_loop sc (utf8 (c # cs) @ rest) (length (utf8 (c # cs))) n
      = utf8_to_utf32_length_loop sc (utf8 cs @ rest) (length (utf8 cs)) (Suc n)"
    by (subst utf8_to_utf32_length_loop.simps) (simp add: e s Let_def del: One_nat_def split del: if_split)
  then show ?case using Cons by simp
qed

section \<open>Arbitrary UTF-16\<close>

text \<open>
  The code points of any string of 16-bit units: a surrogate that is not part of a pair stands for itself and is not
  encoded.
\<close>

fun code_points :: "16 word list \<Rightarrow> 32 word list" where
  "code_points [] = []"
| "code_points [c] = [ucast c]"
| "code_points (c # d # s) =
     (if is_high c \<and> is_low d then ((push_bit 10 (ucast c - 0xD800) OR (ucast d - 0xDC00)) + 0x10000) # code_points s
      else ucast c # code_points (d # s))"

definition utf8_lossy :: "32 word list \<Rightarrow> byte list" where
  "utf8_lossy cs = utf8 (filter scalar cs)"

lemma utf8_lossy_simps [simp]: "utf8_lossy [] = []" "utf8_lossy (c # cs) = (if scalar c then enc8 c else []) @ utf8_lossy cs"
  by (simp_all add: utf8_lossy_def)

lemma pair_scalar: "is_high c \<Longrightarrow> is_low d \<Longrightarrow> scalar ((push_bit 10 (ucast c - 0xD800) OR (ucast d - 0xDC00)) + 0x10000)"
  using pair_value [of c d] by (simp add: scalar_def surrogate_iff)

lemma unit_scalar: "scalar (ucast c) \<longleftrightarrow> \<not> is_high c \<and> \<not> is_low c" for c :: "16 word"
  using uint16_bound [of c] by (auto simp: scalar_def surrogate_iff uint_ucast16)

lemma unit_length: "utf32_codepoint_utf8_length (ucast c) = (if scalar (ucast c) then length (enc8 (ucast c)) else 0)" for c :: "16 word"
proof (cases "scalar (ucast c)")
  case True
  then show ?thesis by (simp add: codepoint_length)
next
  case False
  then have "55296 \<le> uint c \<and> uint c < 57344" by (auto simp: unit_scalar surrogate_iff)
  then show ?thesis using False by (simp add: utf32_codepoint_utf8_length_def word_less_alt uint_ucast16 k_defs)
qed

text \<open>One round of \<open>utf16_to_utf8\<close>.\<close>

lemma next_code_point:
  assumes "s \<noteq> []"
  obtains u k where "next_utf16 s (length s) = Inr (u, k)" "0 < k" "k \<le> length s" "code_points s = u # code_points (drop k s)"
    "utf32_codepoint_utf8_length u = length (utf8_lossy [u])"
proof (cases s rule: code_points.cases)
  case (2 c)
  then show thesis by (intro that [of "ucast c" 1]) (simp_all add: next_utf16_def rd_def unit_length)
next
  case (3 c d t)
  show thesis
  proof (cases "is_high c \<and> is_low d")
    case True
    then show thesis using 3 pair_scalar [of c d]
      by (intro that [of "(push_bit 10 (ucast c - 0xD800) OR (ucast d - 0xDC00)) + 0x10000" 2])
        (simp_all add: next_utf16_def rd_def codepoint_length)
  next
    case False
    then show thesis using 3 by (intro that [of "ucast c" 1]) (auto simp: next_utf16_def rd_def unit_length)
  qed
qed (use assms in simp)

lemma codepoint_to_utf8_lossy:
  assumes "p + length (utf8_lossy [u]) \<le> length dst"
  shows "utf32_codepoint_to_utf8 dst p u (length (utf8_lossy [u])) = Inr (write_at p (utf8_lossy [u]) dst)"
  using assms codepoint_to_utf8 [of u p dst] by (auto simp: utf32_codepoint_to_utf8_def)

lemma utf16_to_utf8_any:
  "cur + length (utf8_lossy (code_points s)) < length dst \<Longrightarrow>
   utf16_to_utf8_loop s (length s) dst cur = Inr (write_at cur (utf8_lossy (code_points s) @ [0]) dst)"
proof (induction s arbitrary: dst cur rule: length_induct)
  case (1 s)
  show ?case
  proof (cases "s = []")
    case True
    then show ?thesis using 1(2) by (simp add: utf16_to_utf8_loop.simps wr_ok write_at_one)
  next
    case False
    then obtain u k where u: "next_utf16 s (length s) = Inr (u, k)" "0 < k" "k \<le> length s" "code_points s = u # code_points (drop k s)"
      "utf32_codepoint_utf8_length u = length (utf8_lossy [u])" by (rule next_code_point)
    let ?w = "utf8_lossy [u]"
    have w: "utf8_lossy (code_points s) = ?w @ utf8_lossy (code_points (drop k s))" using u(4) by simp
    have "utf16_to_utf8_loop s (length s) dst cur
        = utf16_to_utf8_loop (drop k s) (length (drop k s)) (write_at cur ?w dst) (cur + length ?w)"
      using False u(1,5) codepoint_to_utf8_lossy [of cur u dst] 1(2) w by (subst utf16_to_utf8_loop.simps) (simp add: Let_def)
    also have "\<dots> = Inr (write_at (cur + length ?w) (utf8_lossy (code_points (drop k s)) @ [0]) (write_at cur ?w dst))"
      using 1 u(2,3) w by (intro 1(1) [rule_format]) simp_all
    finally show ?thesis using 1(2) w by (simp add: write_at_append)
  qed
qed

lemma codepoint_to_utf8_overflow:
  assumes c: "scalar c" and p: "length dst < p + length (enc8 c)"
  shows "utf32_codepoint_to_utf8 dst p c (length (enc8 c)) = Inl Out_of_bounds"
proof -
  have l: "1 \<le> length (enc8 c)" "length (enc8 c) \<le> 4" by (simp_all add: enc8_def Let_def)
  show ?thesis
  proof (cases "length (enc8 c) = 1")
    case True
    then show ?thesis using p by (simp add: utf32_codepoint_to_utf8_def wr_def)
  next
    case False
    then obtain n where "length (enc8 c) - 1 = Suc n" using l(1) by (cases "length (enc8 c) - 1") simp_all
    moreover have "\<not> p + length (enc8 c) - 1 < length dst" "enc8 c \<noteq> []" using p l(1) by auto
    ultimately show ?thesis using l False by (simp add: utf32_codepoint_to_utf8_def wr_def)
  qed
qed

lemma utf16_to_utf8_any_overflow:
  "cur \<le> length dst \<Longrightarrow> length dst \<le> cur + length (utf8_lossy (code_points s)) \<Longrightarrow>
   utf16_to_utf8_loop s (length s) dst cur = Inl Out_of_bounds"
proof (induction s arbitrary: dst cur rule: length_induct)
  case (1 s)
  show ?case
  proof (cases "s = []")
    case True
    then show ?thesis using 1(2,3) by (simp add: utf16_to_utf8_loop.simps wr_def)
  next
    case False
    then obtain u k where u: "next_utf16 s (length s) = Inr (u, k)" "0 < k" "k \<le> length s" "code_points s = u # code_points (drop k s)"
      "utf32_codepoint_utf8_length u = length (utf8_lossy [u])" by (rule next_code_point)
    let ?w = "utf8_lossy [u]"
    have w: "utf8_lossy (code_points s) = ?w @ utf8_lossy (code_points (drop k s))" using u(4) by simp
    show ?thesis
    proof (cases "cur + length ?w \<le> length dst")
      case True
      have "utf16_to_utf8_loop s (length s) dst cur
          = utf16_to_utf8_loop (drop k s) (length (drop k s)) (write_at cur ?w dst) (cur + length ?w)"
        using False u(1,5) codepoint_to_utf8_lossy [of cur u dst] True by (subst utf16_to_utf8_loop.simps) (simp add: Let_def)
      also have "\<dots> = Inl Out_of_bounds"
        using 1 u(2,3) w True by (intro 1(1) [rule_format]) simp_all
      finally show ?thesis .
    next
      case short: False
      then have "utf32_codepoint_to_utf8 dst cur u (length ?w) = Inl Out_of_bounds"
        using codepoint_to_utf8_overflow [of u dst cur] 1(2) by (auto split: if_splits)
      then show ?thesis using False u(1,5) by (subst utf16_to_utf8_loop.simps) (simp add: Let_def)
    qed
  qed
qed

text \<open>The measured length, for strings without two high surrogates in a row.\<close>

fun no_double_high :: "16 word list \<Rightarrow> bool" where
  "no_double_high (c # d # s) = (\<not> (is_high c \<and> is_high d) \<and> no_double_high (d # s))"
| "no_double_high _ = True"

lemma no_double_high_tl: "no_double_high (c # s) \<Longrightarrow> no_double_high s"
  by (cases s) simp_all

lemma pair_length: "is_high c \<Longrightarrow> is_low d \<Longrightarrow> length (enc8 ((push_bit 10 (ucast c - 0xD800) OR (ucast d - 0xDC00)) + 0x10000)) = 4"
  using pair_value [of c d] by (simp add: enc8_def Let_def surrogate_iff)

lemma code_points_unit: "\<not> is_high c \<Longrightarrow> code_points (c # s) = ucast c # code_points s"
  by (cases s) simp_all

lemma utf16_length_steps:
  "utf16_length_loop [] 0 n = Inr n"
  "utf16_length_loop [c] (Suc 0) n = Inr (n + utf32_codepoint_utf8_length (ucast c))"
  "\<not> is_high c \<Longrightarrow> utf16_length_loop (c # s) (Suc (length s)) n = utf16_length_loop s (length s) (n + utf32_codepoint_utf8_length (ucast c))"
  "is_high c \<Longrightarrow> utf16_length_loop (c # d # t) (Suc (Suc (length t))) n =
     utf16_length_loop t (length t) (n + (if is_low d then 4 else utf32_codepoint_utf8_length (ucast d)))"
proof -
  show nil: "utf16_length_loop [] 0 n = Inr n" for n by (simp add: utf16_length_loop.simps)
  show "utf16_length_loop [c] (Suc 0) n = Inr (n + utf32_codepoint_utf8_length (ucast c))"
    by (subst utf16_length_loop.simps) (simp add: rd_def nil)
  show "\<not> is_high c \<Longrightarrow> utf16_length_loop (c # s) (Suc (length s)) n = utf16_length_loop s (length s) (n + utf32_codepoint_utf8_length (ucast c))"
    by (subst utf16_length_loop.simps) (simp add: rd_def)
  show "is_high c \<Longrightarrow> utf16_length_loop (c # d # t) (Suc (Suc (length t))) n =
     utf16_length_loop t (length t) (n + (if is_low d then 4 else utf32_codepoint_utf8_length (ucast d)))"
    by (subst utf16_length_loop.simps) (simp add: rd_def)
qed

lemma utf16_length_ok:
  "no_double_high s \<Longrightarrow> utf16_length_loop s (length s) n = Inr (n + length (utf8_lossy (code_points s)))"
proof (induction s arbitrary: n rule: length_induct)
  case (1 s)
  show ?case
  proof (cases s rule: code_points.cases)
    case 1
    then show ?thesis by (simp add: utf16_length_steps)
  next
    case (2 c)
    then show ?thesis by (simp add: utf16_length_steps unit_length)
  next
    case (3 c d t)
    then have ndh: "no_double_high (d # t)" "no_double_high t" using 1(2) no_double_high_tl [of d t] by simp_all
    have IH: "utf16_length_loop t (length t) m = Inr (m + length (utf8_lossy (code_points t)))"
      "utf16_length_loop (d # t) (length (d # t)) m = Inr (m + length (utf8_lossy (code_points (d # t))))" for m
      using 1(1) [rule_format, of t] 1(1) [rule_format, of "d # t"] ndh 3 by simp_all
    show ?thesis
    proof (cases "is_high c")
      case False
      then show ?thesis using 3 IH(2) utf16_length_steps(3) [of c "d # t" n] by (simp add: unit_length code_points_unit)
    next
      case True
      then show ?thesis using 3 IH(1) 1(2) utf16_length_steps(4) [of c d t n] pair_scalar [of c d] pair_length [of c d]
        by (auto simp: unit_length unit_scalar code_points_unit)
    qed
  qed
qed

text \<open>Well-formed UTF-16 decodes to its code points.\<close>

lemma code_points_utf16: "\<forall>c \<in> set cs. scalar c \<Longrightarrow> code_points (utf16 cs) = cs"
proof (induction cs)
  case (Cons c cs)
  then have c: "scalar c" by simp
  have ne: "utf16 (c # cs) \<noteq> []" using enc16_pos [of c] by auto
  obtain u k where u: "next_utf16 (utf16 (c # cs)) (length (utf16 (c # cs))) = Inr (u, k)"
    "code_points (utf16 (c # cs)) = u # code_points (drop k (utf16 (c # cs)))"
    using next_code_point [OF ne] by metis
  moreover have "next_utf16 (utf16 (c # cs)) (length (utf16 (c # cs))) = Inr (c, length (enc16 c))"
    using next_utf16_enc [OF c, of "length (utf16 (c # cs))" "utf16 cs"] by simp
  ultimately show ?case using Cons by simp
qed simp

lemma no_double_high_utf16: "\<forall>c \<in> set cs. scalar c \<Longrightarrow> no_double_high (utf16 cs)"
proof (induction cs)
  case (Cons c cs)
  then have c: "scalar c" and IH: "no_double_high (utf16 cs)" by simp_all
  have low: "no_double_high (l # s)" if "\<not> is_high l" "no_double_high s" for l s using that by (cases s) simp_all
  show ?case
  proof (cases "uint c < 65536")
    case True
    then have "\<not> is_high (unit_of (uint c))" using c by (auto simp: surrogate_iff uint_unit_of scalar_def)
    then show ?thesis using True IH by (simp add: enc16_BMP low)
  next
    case False
    then obtain h l where "enc16 c = [h, l]" "is_low l" using enc16_pair [of c] scalar_bound [OF c] by auto
    moreover from this have "\<not> is_high l" by (auto simp: surrogate_iff)
    ultimately show ?thesis using IH by (simp add: low)
  qed
qed simp

section \<open>Properties of the conversions\<close>

text \<open>
  C14: the conversions between the three encodings are inverse to one another. For every string of Unicode scalar
  values the functions that measure a conversion return its exact length, and the conversion into a buffer of the
  measured length and one element more (for the terminator) writes the encoding the standard defines and the
  terminator, and nothing outside of the buffer; this holds whether or not \<open>char\<close> is signed.
\<close>

theorem utf_roundtrip:
  assumes "\<forall>c \<in> set cs. scalar c" "cs \<noteq> []"
    and "length d8 = length (utf8 cs) + 1" "length d16 = length (utf16 cs) + 1" "length d32 = length cs + 1"
  shows "utf32_to_utf8_length (Some cs) (length cs) = Inr (int (length d8) - 1)
    \<and> utf32_to_utf8 (Some cs) (length cs) (Some d8) = Inr (Some (utf8 cs @ [0]))
    \<and> utf8_to_utf16_length (utf8 cs) (length (utf8 cs)) = Inr (int (length d16) - 1)
    \<and> utf8_to_utf16 (utf8 cs) (length (utf8 cs)) d16 = Inr (utf16 cs @ [0])
    \<and> utf16_to_utf8_length (Some (utf16 cs)) (length (utf16 cs)) = Inr (int (length d8) - 1)
    \<and> utf16_to_utf8 (Some (utf16 cs)) (length (utf16 cs)) (Some d8) = Inr (Some (utf8 cs @ [0]))
    \<and> utf8_to_utf32_length sc (Some (utf8 cs)) (length (utf8 cs)) = Inr (length d32 - 1)
    \<and> utf8_to_utf32 sc (Some (utf8 cs)) (length (utf8 cs)) (Some d32) = Inr (Some (cs @ [0]))"
proof -
  obtain c cs' where cs: "cs = c # cs'" using assms(2) by (cases cs) simp_all
  then have pos: "utf8 cs \<noteq> []" "utf16 cs \<noteq> []" "length cs \<noteq> 0" using enc8_pos [of c] enc16_pos [of c] by auto
  have w: "write_at 0 (xs @ [x]) d = xs @ [x]" if "length d = length xs + 1" for xs d :: "'a list" and x
    using that by (simp add: write_at_def)
  have wd: "wr (write_at 0 (utf16 cs) d16) (length (utf16 cs)) 0 = Inr (utf16 cs @ [0])"
    using assms(4) by (simp add: wr_ok write_at_one write_at_append w)
  have "utf32_to_utf8_length (Some cs) (length cs) = Inr (int (length d8) - 1)"
    using utf32_length_ok [OF assms(1), of "[]" 0] pos assms(3) by (simp add: utf32_to_utf8_length_def)
  moreover have "utf32_to_utf8 (Some cs) (length cs) (Some d8) = Inr (Some (utf8 cs @ [0]))"
    using utf32_to_utf8_loop_ok [OF assms(1), of 0 d8 "[]"] pos assms(3) w by (simp add: utf32_to_utf8_def)
  moreover have "utf8_to_utf16_length (utf8 cs) (length (utf8 cs)) = Inr (int (length d16) - 1)"
    using utf8_to_utf16_length_ok [OF assms(1), of "[]" 0] assms(4) by (simp add: utf8_to_utf16_length_def)
  moreover have "utf8_to_utf16 (utf8 cs) (length (utf8 cs)) d16 = Inr (utf16 cs @ [0])"
    using utf8_to_utf16_ok [OF assms(1), of 0 d16 "[]"] assms(4) wd by (simp add: utf8_to_utf16_def utf8_to_utf16_no_null_terminator_def)
  moreover have "utf16_to_utf8_length (Some (utf16 cs)) (length (utf16 cs)) = Inr (int (length d8) - 1)"
    using utf16_length_ok [OF no_double_high_utf16 [OF assms(1)], of 0] code_points_utf16 [OF assms(1)] pos assms(1,3)
    by (simp add: utf16_to_utf8_length_def utf8_lossy_def)
  moreover have "utf16_to_utf8 (Some (utf16 cs)) (length (utf16 cs)) (Some d8) = Inr (Some (utf8 cs @ [0]))"
    using utf16_to_utf8_loop_ok [OF assms(1), of 0 d8 "[]"] pos assms(3) w by (simp add: utf16_to_utf8_def)
  moreover have "utf8_to_utf32_length sc (Some (utf8 cs)) (length (utf8 cs)) = Inr (length d32 - 1)"
    using utf8_to_utf32_length_ok [OF assms(1), of sc "[]" 0] pos assms(5) by (simp add: utf8_to_utf32_length_def)
  moreover have "utf8_to_utf32 sc (Some (utf8 cs)) (length (utf8 cs)) (Some d32) = Inr (Some (cs @ [0]))"
    using utf8_to_utf32_ok [OF assms(1), of 0 d32 sc "[]"] pos assms(5) w by (simp add: utf8_to_utf32_def)
  ultimately show ?thesis by blast
qed

theorem utf_roundtrip_witness:
  "utf8_to_utf16 (utf8 [0x41, 0xE9, 0x20AC, 0x1F600]) 10 (replicate 6 0) = Inr [0x41, 0xE9, 0x20AC, 0xD83D, 0xDE00, 0]
    \<and> utf8 [0x41, 0xE9, 0x20AC, 0x1F600] = [0x41, 0xC3, 0xA9, 0xE2, 0x82, 0xAC, 0xF0, 0x9F, 0x98, 0x80]"
proof -
  let ?cs = "[0x41, 0xE9, 0x20AC, 0x1F600] :: 32 word list"
  have e: "utf8 ?cs = [0x41, 0xC3, 0xA9, 0xE2, 0x82, 0xAC, 0xF0, 0x9F, 0x98, 0x80]" "utf16 ?cs = [0x41, 0xE9, 0x20AC, 0xD83D, 0xDE00]"
    by (simp_all add: enc8_def enc16_def byte_of_def unit_of_def)
  have "\<forall>c \<in> set ?cs. scalar c" by (simp add: scalar_def)
  from utf_roundtrip [OF this, of "replicate 11 0" "replicate 6 0" "replicate 5 0" True] show ?thesis unfolding e by (simp add: numeral_eq_Suc)
qed

text \<open>
  C16: \<open>utf16_to_utf8\<close> is safe with a buffer of the length that \<open>utf16_to_utf8_length\<close> measures, also for strings that
  are not well-formed, as long as no two high surrogates follow one another; surrogates without a partner are left out.
\<close>

theorem utf16_to_utf8_measured:
  assumes "no_double_high s" "s \<noteq> []" "utf16_to_utf8_length (Some s) (length s) = Inr n" "int (length d) = n + 1"
  shows "utf16_to_utf8 (Some s) (length s) (Some d) = Inr (Some (utf8_lossy (code_points s) @ [0]))"
proof -
  have "n = int (length (utf8_lossy (code_points s)))"
    using assms(2,3) utf16_length_ok [OF assms(1), of 0] by (simp add: utf16_to_utf8_length_def)
  then have "length d = length (utf8_lossy (code_points s)) + 1" using assms(4) by simp
  then show ?thesis using assms(2) utf16_to_utf8_any [of 0 s d] by (simp add: utf16_to_utf8_def write_at_def)
qed

theorem utf16_to_utf8_measured_witness:
  "utf16_to_utf8 (Some [0xD83D, 0x41, 0xDE00, 0xD83D, 0xDE00]) 5 (Some (replicate 6 7)) = Inr (Some [0x41, 0xF0, 0x9F, 0x98, 0x80, 0])"
proof -
  let ?s = "[0xD83D, 0x41, 0xDE00, 0xD83D, 0xDE00] :: 16 word list"
  have k: "is_high 0xD83D" "\<not> is_high 0x41" "\<not> is_low 0x41" "\<not> is_high 0xDE00" "is_low 0xDE00" "\<not> is_low 0xD83D" by (simp_all add: surrogate_iff)
  have "utf8_lossy (code_points ?s) = [0x41, 0xF0, 0x9F, 0x98, 0x80]"
    by (simp add: k scalar_def enc8_def byte_of_def)
  note L = this
  have nd: "no_double_high ?s" using k by simp
  have "utf16_to_utf8_length (Some ?s) (length ?s) = Inr 5"
    using utf16_length_ok [OF nd, of 0] unfolding L by (simp add: utf16_to_utf8_length_def)
  from utf16_to_utf8_measured [OF nd _ this, of "replicate 6 7"] show ?thesis unfolding L by (simp add: numeral_eq_Suc)
qed

definition triples :: "nat \<Rightarrow> 16 word \<Rightarrow> 16 word \<Rightarrow> 16 word \<Rightarrow> 16 word list" where
  "triples k h1 h2 l = concat (replicate k [h1, h2, l])"

lemma triples_simps [simp]: "triples 0 h1 h2 l = []" "triples (Suc k) h1 h2 l = h1 # h2 # l # triples k h1 h2 l"
  by (simp_all add: triples_def)

lemma length_triples [simp]: "length (triples k h1 h2 l) = 3 * k"
  by (induction k) simp_all

lemma triples_facts:
  assumes "is_high h1" "is_high h2" "is_low l"
  shows "utf16_length_loop (triples k h1 h2 l) (length (triples k h1 h2 l)) n = Inr n" "length (utf8_lossy (code_points (triples k h1 h2 l))) = 4 * k"
proof -
  have low: "\<not> is_low h2" "\<not> is_high l" using assms by (simp_all add: surrogate_iff)
  have z: "utf32_codepoint_utf8_length (ucast h2) = 0" "utf32_codepoint_utf8_length (ucast l) = 0"
    using assms by (simp_all add: unit_length unit_scalar)
  show "utf16_length_loop (triples k h1 h2 l) (length (triples k h1 h2 l)) n = Inr n"
  proof (induction k)
    case (Suc k)
    then show ?case using utf16_length_steps(4) [OF assms(1), of h2 "l # triples k h1 h2 l" n] utf16_length_steps(3) [OF low(2), of "triples k h1 h2 l" n] low z
      by (simp del: length_triples)
  qed (simp add: utf16_length_steps)
  show "length (utf8_lossy (code_points (triples k h1 h2 l))) = 4 * k"
    using assms low by (induction k) (simp_all add: unit_scalar pair_scalar pair_length)
qed

text \<open>
  C15: with two high surrogates in front of a low one the measured length is too small, by any amount: for \<open>k\<close> such
  triples \<open>utf16_to_utf8_length\<close> returns 0 and \<open>utf16_to_utf8\<close> needs \<open>4 * k + 1\<close> bytes; it writes outside of every
  smaller buffer.
\<close>

theorem utf16_to_utf8_overflow:
  assumes "is_high h1" "is_high h2" "is_low l" "0 < k"
  shows "utf16_to_utf8_length (Some (triples k h1 h2 l)) (3 * k) = Inr 0
    \<and> (\<forall>d. length d \<le> 4 * k \<longrightarrow> utf16_to_utf8 (Some (triples k h1 h2 l)) (3 * k) (Some d) = Inl Out_of_bounds)"
  using triples_facts [OF assms(1-3), of k] assms(4) utf16_to_utf8_any_overflow [of 0 _ "triples k h1 h2 l"]
  by (simp add: utf16_to_utf8_length_def utf16_to_utf8_def)

theorem utf16_to_utf8_overflow_witness:
  "utf16_to_utf8_length (Some [0xD800, 0xD83D, 0xDE00]) 3 = Inr 0 \<and> utf16_to_utf8 (Some [0xD800, 0xD83D, 0xDE00]) 3 (Some [0]) = Inl Out_of_bounds"
proof -
  have k: "is_high 0xD800" "is_high 0xD83D" "is_low 0xDE00" by (simp_all add: surrogate_iff)
  from utf16_to_utf8_overflow [OF k, of 1] show ?thesis by simp
qed

section \<open>Bounded conversion\<close>

lemma put_utf16_n_full:
  assumes c: "scalar c" and q: "q < dstLen" "dstLen < q + length (enc16 c)" "dstLen \<le> length dst"
  shows "\<exists>v. put_utf16_n dst dstLen q c = Inr (False, dst[q := v], q)"
proof -
  have "length (enc16 c) \<le> 2" by (simp add: enc16_def Let_def)
  then have e: "length (enc16 c) = 2" "dstLen = q + 1" using q by linarith+
  then have "0xFFFF < c" using scalar_gt [OF c] by simp
  then have "\<not> c \<le> 0xFFFF" by simp
  then show ?thesis using q e(2) by (auto simp: put_utf16_n_def Let_def wr_ok)
qed

lemma utf8_to_utf16_n_ok:
  "\<forall>c \<in> set cs. scalar c \<Longrightarrow> q \<le> dstLen \<Longrightarrow> dstLen \<le> length dst \<Longrightarrow>
   \<exists>m d. utf8_to_utf16_n_loop (utf8 cs @ rest) (int (length (utf8 cs))) dst dstLen q = Inr (d, q + length (utf16 (take m cs)))
     \<and> length d = length dst \<and> take (q + length (utf16 (take m cs))) d = take q dst @ utf16 (take m cs) \<and> drop dstLen d = drop dstLen dst
     \<and> q + length (utf16 (take m cs)) \<le> dstLen \<and> (m < length cs \<longrightarrow> dstLen < q + length (utf16 (take (Suc m) cs))) \<and> m \<le> length cs"
proof (induction cs arbitrary: dst q)
  case Nil
  then show ?case by (simp add: utf8_to_utf16_n_loop.simps)
next
  case (Cons c cs)
  then have c: "scalar c" by simp
  have pos: "\<not> int (length (enc8 c)) + int (length (utf8 cs)) \<le> 0" using enc8_pos [of c] by linarith
  note step = utf8_to_utf16_n_loop.simps [of "utf8 (c # cs) @ rest" "int (length (utf8 (c # cs)))" dst dstLen q]
  consider "dstLen \<le> q" | "q < dstLen" "dstLen < q + length (enc16 c)" | "q + length (enc16 c) \<le> dstLen" "q < dstLen"
    using enc16_pos [of c] by linarith
  then show ?case
  proof cases
    case 1
    then have "utf8_to_utf16_n_loop (utf8 (c # cs) @ rest) (int (length (utf8 (c # cs)))) dst dstLen q = Inr (dst, q)"
      unfolding step by simp
    then show ?thesis using 1 Cons.prems enc16_pos [of c] by (intro exI [of _ 0] exI [of _ dst]) simp
  next
    case 2
    then obtain v where "put_utf16_n dst dstLen q c = Inr (False, dst[q := v], q)" using put_utf16_n_full [OF c] Cons.prems by blast
    then have "utf8_to_utf16_n_loop (utf8 (c # cs) @ rest) (int (length (utf8 (c # cs)))) dst dstLen q = Inr (dst[q := v], q)"
      unfolding step using 2 pos by (simp add: enc8_hd utf8_decode [OF c] Let_def)
    then show ?thesis using 2 Cons.prems by (intro exI [of _ 0] exI [of _ "dst[q := v]"]) simp
  next
    case 3
    let ?d = "write_at q (enc16 c) dst" and ?q = "q + length (enc16 c)"
    have room: "q + length (enc16 c) \<le> length dst" using 3 Cons.prems by simp
    have "utf8_to_utf16_n_loop (utf8 (c # cs) @ rest) (int (length (utf8 (c # cs)))) dst dstLen q
        = utf8_to_utf16_n_loop (utf8 cs @ rest) (int (length (utf8 cs))) ?d dstLen ?q"
      unfolding step using 3 pos by (simp add: enc8_hd utf8_decode [OF c] put_utf16_enc(2) [OF c room 3(1)] Let_def)
    moreover obtain m d where "utf8_to_utf16_n_loop (utf8 cs @ rest) (int (length (utf8 cs))) ?d dstLen ?q = Inr (d, ?q + length (utf16 (take m cs)))"
        "length d = length ?d" "take (?q + length (utf16 (take m cs))) d = take ?q ?d @ utf16 (take m cs)" "drop dstLen d = drop dstLen ?d"
        "?q + length (utf16 (take m cs)) \<le> dstLen" "m < length cs \<longrightarrow> dstLen < ?q + length (utf16 (take (Suc m) cs))" "m \<le> length cs"
      using Cons.IH [of ?q ?d] Cons.prems 3 room by auto
    moreover have "take ?q ?d = take q dst @ enc16 c" "drop dstLen ?d = drop dstLen dst" "length ?d = length dst"
      using room 3 by (simp_all add: write_at_def)
    ultimately show ?thesis by (intro exI [of _ "Suc m"] exI [of _ d]) (simp add: add.assoc)
  qed
qed

lemma codepoint_readable: "k \<le> length src \<Longrightarrow> \<exists>u. utf8_to_utf32_codepoint src k = Inr u"
  by (auto simp: utf8_to_utf32_codepoint_def rd_def)

lemma put_utf16_n_within:
  assumes "q < dstLen" "dstLen \<le> length dst"
  shows "\<exists>ok d q'. put_utf16_n dst dstLen q u = Inr (ok, d, q') \<and> q' \<le> dstLen \<and> length d = length dst \<and> drop dstLen d = drop dstLen dst"
  using assms by (auto simp: put_utf16_n_def wr_ok Let_def)

text \<open>Whatever the bytes are: a code point reads at most three of them behind the end, and nothing is stored behind \<open>dstLen\<close>.\<close>

lemma utf8_to_utf16_n_loop_within:
  "n + 3 \<le> int (length src) \<Longrightarrow> dstLen \<le> length dst \<Longrightarrow> q \<le> dstLen \<Longrightarrow>
   \<exists>d q'. utf8_to_utf16_n_loop src n dst dstLen q = Inr (d, q') \<and> q' \<le> dstLen \<and> length d = length dst \<and> drop dstLen d = drop dstLen dst"
proof (induction "nat n" arbitrary: src n dst q rule: less_induct)
  case less
  show ?case
  proof (cases "n \<le> 0 \<or> dstLen \<le> q")
    case True
    then show ?thesis using less.prems by (subst utf8_to_utf16_n_loop.simps) auto
  next
    case False
    let ?k = "utf8_codepoint_len (src ! 0)"
    have k: "?k \<le> 4" "0 < ?k" "?k \<le> length src" using False less.prems(1) by (auto simp: codepoint_len)
    obtain u where u: "utf8_to_utf32_codepoint src ?k = Inr u" using codepoint_readable [OF k(3)] by blast
    have r: "rd src 0 = Inr (src ! 0)" using less_le_trans [OF k(2,3)] by (simp add: rd_def)
    obtain ok d q' where p: "put_utf16_n dst dstLen q u = Inr (ok, d, q')" "q' \<le> dstLen" "length d = length dst" "drop dstLen d = drop dstLen dst"
      using put_utf16_n_within [of q dstLen dst u] False less.prems(2) by auto
    have "\<exists>e q''. utf8_to_utf16_n_loop (drop ?k src) (n - int ?k) d dstLen q' = Inr (e, q'') \<and> q'' \<le> dstLen \<and> length e = length d \<and> drop dstLen e = drop dstLen d"
      by (rule less.hyps) (use False k less.prems p in auto)
    then show ?thesis using False r u p by (subst utf8_to_utf16_n_loop.simps) (cases ok; auto simp: Let_def)
  qed
qed

text \<open>
  C17: whatever the bytes of the source are, and with three more of them readable, \<open>utf8_to_utf16_n\<close> returns, changes nothing behind
  the \<open>dstLen\<close> units it is given and returns a pointer into them or to their end. For valid UTF-8, which it reads no further than its
  end, the units in front of the returned pointer are the UTF-16 encoding of the longest prefix of the string that fits: a surrogate
  pair is never cut in two, so that the pointer is one unit short of the end where a pair does not fit.
\<close>

theorem utf8_to_utf16_n_prefix:
  assumes "dstLen \<le> length dst"
  shows "(n + 3 \<le> length src \<longrightarrow>
      (\<exists>d q. utf8_to_utf16_n src n dst dstLen = Inr (d, q) \<and> q \<le> dstLen \<and> length d = length dst \<and> drop dstLen d = drop dstLen dst))
    \<and> ((\<forall>c \<in> set cs. scalar c) \<longrightarrow>
      (\<exists>m d. utf8_to_utf16_n (utf8 cs) (length (utf8 cs)) dst dstLen = Inr (d, length (utf16 (take m cs)))
        \<and> take (length (utf16 (take m cs))) d = utf16 (take m cs) \<and> drop dstLen d = drop dstLen dst
        \<and> length (utf16 (take m cs)) \<le> dstLen \<and> (m < length cs \<longrightarrow> dstLen < length (utf16 (take (Suc m) cs))) \<and> m \<le> length cs))"
proof (intro conjI impI)
  assume "n + 3 \<le> length src"
  then show "\<exists>d q. utf8_to_utf16_n src n dst dstLen = Inr (d, q) \<and> q \<le> dstLen \<and> length d = length dst \<and> drop dstLen d = drop dstLen dst"
    using utf8_to_utf16_n_loop_within [of "int n" src dstLen dst 0] assms by (simp add: utf8_to_utf16_n_def)
next
  assume "\<forall>c \<in> set cs. scalar c"
  from utf8_to_utf16_n_ok [OF this, of 0 dstLen dst "[]"] assms
  show "\<exists>m d. utf8_to_utf16_n (utf8 cs) (length (utf8 cs)) dst dstLen = Inr (d, length (utf16 (take m cs)))
        \<and> take (length (utf16 (take m cs))) d = utf16 (take m cs) \<and> drop dstLen d = drop dstLen dst
        \<and> length (utf16 (take m cs)) \<le> dstLen \<and> (m < length cs \<longrightarrow> dstLen < length (utf16 (take (Suc m) cs))) \<and> m \<le> length cs"
    by (auto simp: utf8_to_utf16_n_def)
qed

theorem utf8_to_utf16_n_prefix_witness:
  "(\<exists>m d. utf8_to_utf16_n (utf8 [0x41, 0x1F600]) 5 [7, 7, 7] 2 = Inr (d, length (utf16 (take m [0x41, 0x1F600])))
    \<and> drop 2 d = [7] \<and> length (utf16 (take m [0x41, 0x1F600])) \<le> 2)
  \<and> (\<exists>d q. utf8_to_utf16_n [0xFF, 0xFF, 0xFF, 0xFF] 1 [7, 7, 7] 2 = Inr (d, q) \<and> q \<le> 2 \<and> drop 2 d = [7])"
proof -
  let ?cs = "[0x41, 0x1F600] :: 32 word list"
  have "\<forall>c \<in> set ?cs. scalar c" "length (utf8 ?cs) = 5" by (simp_all add: scalar_def enc8_def)
  with utf8_to_utf16_n_prefix [of 2 "[7, 7, 7]" 1 "[0xFF, 0xFF, 0xFF, 0xFF]" ?cs] show ?thesis by (auto simp: numeral_eq_Suc)
qed

section \<open>Validation\<close>

lemma byte_and_40: "192 \<le> uint b \<Longrightarrow> b AND 0x40 \<noteq> 0" for b :: byte
proof -
  assume "192 \<le> uint b"
  then have "bit b 6" using lead_bits(1) [of b False] by (simp add: bit_char_ext_low)
  then show ?thesis using and_exp_eq_0_iff_not_bit [of b 6] by simp
qed

lemma trail_and_C0: "b AND 0xC0 = 0x80" if "128 \<le> uint b" "uint b < 192" for b :: byte
proof (rule word_uintI)
  have "uint b AND push_bit 6 3 = push_bit 6 (drop_bit 6 (uint b) AND 3)" by (rule and_push_bit)
  also have "\<dots> = 64 * (uint b div 64 mod 4)" by (simp only: int_masks) (simp add: push_bit_eq_mult drop_bit_eq_div)
  also have "uint b div 64 = 2" using that by simp
  finally show "uint (b AND 0xC0) = uint (0x80 :: byte)" by (simp add: unsigned_and_eq)
qed

lemma seq_stop: "first AND msk = 0 \<Longrightarrow> utf8_length_seq (Suc k) first msk ign u cur = Inr (Some (4 - k, msk, ign, u, cur))"
  by simp

lemma seq_go: "first AND msk \<noteq> 0 \<Longrightarrow> 128 \<le> uint c \<Longrightarrow> uint c < 192 \<Longrightarrow> utf8_length_seq (Suc k) first msk ign u (c # cur) =
    utf8_length_seq k first (drop_bit 1 msk) (ign OR msk) (push_bit 6 u + (ucast c AND 0x3F)) cur"
  by (simp add: trail_and_C0)

lemmas seq_rounds = seq_go [where k = 3, simplified] seq_go [where k = 2, simplified] seq_go [where k = 1, unfolded Suc_1]
  seq_stop [where k = 2, simplified] seq_stop [where k = 1, unfolded Suc_1] seq_stop [where k = 0, simplified]

text \<open>What the code makes of the bits of the first byte: the sign extension of a signed \<open>char\<close> survives the mask.\<close>

lemma not_mask_byte: "k \<le> 8 \<Longrightarrow> NOT (push_bit k (mask (8 - k))) AND char_ext False a = take_bit k (ucast a)"
  by (rule bit_word_eqI) (auto simp: char_ext_def bit_simps dest: bit_imp_le_length)

lemma lead_unsigned:
  "uint (NOT (0xC0 OR 0x20) AND char_ext False a) = uint a mod 32" "uint (NOT (0xE0 OR 0x10) AND char_ext False a) = uint a mod 16"
  "uint (NOT (0xF0 OR 0x08) AND char_ext False a) = uint a mod 8"
proof -
  have t: "uint (take_bit k (ucast a :: 32 word)) = uint a mod 2 ^ k" for k
    unfolding unsigned_take_bit_eq uint_ucast8 by (simp add: take_bit_eq_mod)
  have "0xC0 OR 0x20 = push_bit 5 (mask (8 - 5) :: 32 word)" "0xE0 OR 0x10 = push_bit 4 (mask (8 - 4) :: 32 word)"
    "0xF0 OR 0x08 = push_bit 3 (mask (8 - 3) :: 32 word)" by (simp_all add: mask_eq_exp_minus_1)
  then show "uint (NOT (0xC0 OR 0x20) AND char_ext False a) = uint a mod 32" "uint (NOT (0xE0 OR 0x10) AND char_ext False a) = uint a mod 16"
    "uint (NOT (0xF0 OR 0x08) AND char_ext False a) = uint a mod 8"
    using t [of 5] t [of 4] t [of 3] by (simp_all only: not_mask_byte) simp_all
qed

lemma lead_signed:
  assumes "128 \<le> uint a" "k < 24" "\<And>n. 8 \<le> n \<Longrightarrow> \<not> bit m n"
  shows "kUnicodeMaxCodepoint < u OR push_bit k (NOT m AND char_ext True a)"
proof -
  let ?w = "u OR push_bit k (NOT m AND char_ext True a)"
  have "bit a 7" using assms(1) byte_and_80 [of a] and_exp_eq_0_iff_not_bit [of a 7] by simp
  then have "bit ?w 31" using assms(2,3) by (auto simp: char_ext_def bit_simps)
  then have "odd (uint ?w div 2 ^ 31)" by (simp only: bit_iff_odd [symmetric] bit_uint_iff) simp
  then have "\<not> uint ?w < 2147483648" using uint_ge_0 [of ?w] by (auto simp: div_pos_pos_trivial)
  then show ?thesis by (simp add: k_defs word_less_alt)
qed

lemma or_push:
  fixes u w :: "32 word"
  assumes "uint u < 2 ^ k" "uint w * 2 ^ k < 4294967296"
  shows "uint (u OR push_bit k w) = uint w * 2 ^ k + uint u"
proof -
  have "uint (push_bit k w) = uint w * 2 ^ k"
    unfolding unsigned_push_bit_eq using assms(2) by (simp add: take_bit_eq_mod push_bit_eq_mult)
  then show ?thesis using assms(1) or_plus [of "uint w * 2 ^ k" k "uint u"] by (simp only: unsigned_or_eq or.commute [of "uint u"]) simp
qed

lemma trail_value:
  fixes b d e :: byte
  shows "uint (ucast b AND 0x3F :: 32 word) = uint b mod 64"
    "uint (push_bit 6 (ucast b AND 0x3F) + (ucast d AND 0x3F) :: 32 word) = uint b mod 64 * 64 + uint d mod 64"
    "uint (push_bit 6 (push_bit 6 (ucast b AND 0x3F) + (ucast d AND 0x3F)) + (ucast e AND 0x3F) :: 32 word)
      = (uint b mod 64 * 64 + uint d mod 64) * 64 + uint e mod 64"
proof -
  have m: "0 \<le> x mod 64" "x mod 64 < 64" for x :: int by simp_all
  have small: "x mod 4294967296 = x" if "0 \<le> x" "x < 4294967296" for x :: int using that by simp
  show 1: "uint (ucast b AND 0x3F :: 32 word) = uint b mod 64"
    by (simp only: unsigned_and_eq uint_ucast8) (simp add: int_masks)
  show 2: "uint (push_bit 6 (ucast b AND 0x3F) + (ucast d AND 0x3F) :: 32 word) = uint b mod 64 * 64 + uint d mod 64"
    unfolding shift_plus [of "ucast b AND 0x3F"] 1 using m [of "uint b"] m [of "uint d"] by (intro small) linarith+
  show "uint (push_bit 6 (push_bit 6 (ucast b AND 0x3F) + (ucast d AND 0x3F)) + (ucast e AND 0x3F) :: 32 word)
      = (uint b mod 64 * 64 + uint d mod 64) * 64 + uint e mod 64"
    unfolding shift_plus [of "push_bit 6 (ucast b AND 0x3F) + (ucast d AND 0x3F)"] 2
    using m [of "uint b"] m [of "uint d"] m [of "uint e"] by (intro small) (simp_all add: distrib_right)
qed

text \<open>The loop behind a lead byte of two, three and four.\<close>

definition trailing :: "byte \<Rightarrow> bool" where "trailing b \<longleftrightarrow> 128 \<le> uint b \<and> uint b < 192"

lemma seq_two:
  "192 \<le> uint a \<Longrightarrow> uint a < 224 \<Longrightarrow> trailing b \<Longrightarrow>
   utf8_length_seq 4 (char_ext sc a) 0x40 0x80 0 (b # rest) = Inr (Some (2, 0x20, 0xC0, ucast b AND 0x3F, rest))"
  using lead_bits by (simp add: seq_rounds trailing_def and_bit)

lemma seq_three:
  "224 \<le> uint a \<Longrightarrow> uint a < 240 \<Longrightarrow> trailing b \<Longrightarrow> trailing d \<Longrightarrow>
   utf8_length_seq 4 (char_ext sc a) 0x40 0x80 0 (b # d # rest) = Inr (Some (3, 0x10, 0xE0, push_bit 6 (ucast b AND 0x3F) + (ucast d AND 0x3F), rest))"
  using lead_bits by (simp add: seq_rounds trailing_def and_bit)

lemma seq_four:
  "240 \<le> uint a \<Longrightarrow> uint a < 248 \<Longrightarrow> trailing b \<Longrightarrow> trailing d \<Longrightarrow> trailing e \<Longrightarrow>
   utf8_length_seq 4 (char_ext sc a) 0x40 0x80 0 (b # d # e # rest)
     = Inr (Some (4, 0x08, 0xF0, push_bit 6 (push_bit 6 (ucast b AND 0x3F) + (ucast d AND 0x3F)) + (ucast e AND 0x3F), rest))"
  using lead_bits by (simp add: seq_rounds trailing_def and_bit)

text \<open>One multi-byte character: the loop gets to the check of the code point, which depends on the sign of \<open>char\<close>.\<close>

definition checked :: "bool \<Rightarrow> byte \<Rightarrow> nat \<Rightarrow> 32 word \<Rightarrow> 32 word \<Rightarrow> 32 word" where
  "checked sc a num m u = u OR push_bit (6 * (num - 1)) (NOT m AND char_ext sc a)"

lemma checked_signed: "128 \<le> uint a \<Longrightarrow> num < 5 \<Longrightarrow> m \<in> {0xE0, 0xF0, 0xF8} \<Longrightarrow> kUnicodeMaxCodepoint < checked True a num m u"
proof -
  assume a: "128 \<le> uint a" "num < 5" "m \<in> {0xE0, 0xF0, 0xF8}"
  have "\<not> bit m n" if "8 \<le> n" for n
  proof -
    have "m = take_bit 8 m" using a(3) by auto
    then show ?thesis using that by (metis bit_take_bit_iff not_less)
  qed
  then show ?thesis unfolding checked_def using a by (intro lead_signed) auto
qed

lemma length_round:
  assumes "192 \<le> uint a" "utf8_length_seq 4 (char_ext sc a) 0x40 0x80 0 cur = Inr (Some (num, msk, ign, u, rest))" "num < 5" "ign OR msk = m"
  shows "utf8_length_loop sc (a # cur) n =
    (if kUnicodeMaxCodepoint < checked sc a num m u then Inr (-1) else utf8_length_loop sc rest (n + num))"
proof -
  have "a \<noteq> 0" "a AND 0x80 \<noteq> 0" "a AND 0x40 \<noteq> 0" using assms(1) byte_and_80 [of a] byte_and_40 [of a] by auto
  then show ?thesis using assms(2,3) unfolding assms(4) [symmetric] by (subst utf8_length_loop.simps) (simp add: checked_def Let_def)
qed

lemma checked_unsigned:
  assumes "uint u < 2 ^ (6 * (num - 1))" "uint (NOT m AND char_ext False a) = l" "l * 2 ^ (6 * (num - 1)) < 4294967296"
    "l * 2 ^ (6 * (num - 1)) + uint u = uint c"
  shows "checked False a num m u = c"
  using assms or_push [of u "6 * (num - 1)" "NOT m AND char_ext False a"] by (intro word_uintI) (simp add: checked_def)

lemma length_multi:
  assumes c: "scalar c" "128 \<le> uint c"
  obtains a m u where "192 \<le> uint a" "m \<in> {0xE0, 0xF0, 0xF8}" "length (enc8 c) < 5" "checked False a (length (enc8 c)) m u = c"
    "\<And>sc rest n. utf8_length_loop sc (enc8 c @ rest) n =
       (if kUnicodeMaxCodepoint < checked sc a (length (enc8 c)) m u then Inr (-1) else utf8_length_loop sc rest (n + length (enc8 c)))"
  using scalar_bound [OF c(1)]
proof (cases rule: enc8_cases)
  case (one b)
  then show thesis using c by simp
next
  case (two a b)
  have x: "0 \<le> uint c div 64" "uint c div 64 < 32" using two(5) by (simp_all add: pos_imp_zdiv_nonneg_iff)
  then have a: "192 \<le> uint a" "uint a < 224" "uint a mod 32 = uint c div 64" using two(2) by (simp_all add: mod_add_left_eq [symmetric, of 192])
  have t: "trailing b" using two(3) by (simp add: trailing_def)
  have "uint (ucast b AND 0x3F :: 32 word) = uint c mod 64" unfolding trail_value two(3) trail_mod ..
  then have "checked False a 2 0xE0 (ucast b AND 0x3F) = c"
    using lead_unsigned(1) [of a] x a(3) digits64(1) [of "uint c"] by (intro checked_unsigned [where l = "uint c div 64"]) simp_all
  moreover have L: "length (enc8 c) = 2" using two(1) by simp
  ultimately show thesis using two(1) a length_round [OF a(1) seq_two [OF a(1,2) t]]
    by (intro that [of a "0xE0" "ucast b AND 0x3F"], unfold L) simp_all
next
  case (three a b e)
  have x: "0 \<le> uint c div 4096" "uint c div 4096 < 16" using three(6) by (simp_all add: pos_imp_zdiv_nonneg_iff)
  then have a: "224 \<le> uint a" "192 \<le> uint a" "uint a < 240" "uint a mod 16 = uint c div 4096" using three(2) by (simp_all add: mod_add_left_eq [symmetric, of 224])
  have t: "trailing b" "trailing e" using three(3,4) by (simp_all add: trailing_def)
  let ?u = "push_bit 6 (ucast b AND 0x3F) + (ucast e AND 0x3F) :: 32 word"
  have u: "uint ?u = uint c div 64 mod 64 * 64 + uint c mod 64" unfolding trail_value three(3,4) trail_mod ..
  have "0 \<le> uint c div 64 mod 64" "uint c div 64 mod 64 < 64" "0 \<le> uint c mod 64" "uint c mod 64 < 64" by simp_all
  then have "uint ?u < 4096" "uint c div 4096 * 4096 + uint ?u = uint c" using digits64 [of "uint c"] unfolding u by linarith+
  then have "checked False a 3 0xF0 ?u = c"
    using lead_unsigned(2) [of a] x a(4) by (intro checked_unsigned [where l = "uint c div 4096"]) simp_all
  moreover have L: "length (enc8 c) = 3" using three(1) by simp
  ultimately show thesis using three(1) a length_round [OF a(2) seq_three [OF a(1,3) t]]
    by (intro that [of a "0xF0" ?u], unfold L) simp_all
next
  case (four a b e f)
  have x: "0 \<le> uint c div 262144" "uint c div 262144 < 8" using scalar_bound [OF c(1)] by (simp_all add: pos_imp_zdiv_nonneg_iff)
  then have a: "240 \<le> uint a" "192 \<le> uint a" "uint a < 248" "uint a mod 8 = uint c div 262144" using four(2) by (simp_all add: mod_add_left_eq [symmetric, of 240])
  have t: "trailing b" "trailing e" "trailing f" using four(3-5) by (simp_all add: trailing_def)
  let ?u = "push_bit 6 (push_bit 6 (ucast b AND 0x3F) + (ucast e AND 0x3F)) + (ucast f AND 0x3F) :: 32 word"
  have u: "uint ?u = (uint c div 4096 mod 64 * 64 + uint c div 64 mod 64) * 64 + uint c mod 64" unfolding trail_value four(3-5) trail_mod ..
  have "0 \<le> uint c div 4096 mod 64" "uint c div 4096 mod 64 < 64" "0 \<le> uint c div 64 mod 64" "uint c div 64 mod 64 < 64" "0 \<le> uint c mod 64" "uint c mod 64 < 64"
    by simp_all
  then have "uint ?u < 262144" "uint c div 262144 * 262144 + uint ?u = uint c" using digits64 [of "uint c"] unfolding u distrib_right by linarith+
  then have "checked False a 4 0xF8 ?u = c"
    using lead_unsigned(3) [of a] x a(4) by (intro checked_unsigned [where l = "uint c div 262144"]) simp_all
  moreover have L: "length (enc8 c) = 4" using four(1) by simp
  ultimately show thesis using four(1) a length_round [OF a(2) seq_four [OF a(1,3) t]]
    by (intro that [of a "0xF8" ?u], unfold L) simp_all
qed

lemma length_char:
  assumes "scalar c" "c \<noteq> 0"
  shows "utf8_length_loop False (enc8 c @ rest) n = utf8_length_loop False rest (n + length (enc8 c))"
    and "utf8_length_loop True (enc8 c @ rest) n = (if uint c < 128 then utf8_length_loop True rest (n + length (enc8 c)) else Inr (-1))"
proof -
  have one: "utf8_length_loop sc (enc8 c @ rest) n = utf8_length_loop sc rest (n + length (enc8 c))" if u: "uint c < 128" for sc
    using scalar_bound [OF assms(1)]
  proof (cases rule: enc8_cases)
    case (one b)
    then have "b \<noteq> 0" "b AND 0x80 = 0" using assms(2) u byte_and_80 [of b] by (auto simp: unsigned_eq_0_iff)
    then show ?thesis using one(1) by (subst utf8_length_loop.simps) simp
  qed (use u in simp_all)
  have "\<not> kUnicodeMaxCodepoint < c" using scalar_bound [OF assms(1)] by (simp add: kUnicodeMaxCodepoint_def word_less_def)
  then show "utf8_length_loop False (enc8 c @ rest) n = utf8_length_loop False rest (n + length (enc8 c))"
    using one length_multi [OF assms(1)] by (metis not_less)
  show "utf8_length_loop True (enc8 c @ rest) n = (if uint c < 128 then utf8_length_loop True rest (n + length (enc8 c)) else Inr (-1))"
  proof (cases "uint c < 128")
    case False
    then obtain a m u where *: "192 \<le> uint a" "m \<in> {0xE0, 0xF0, 0xF8}" "length (enc8 c) < 5"
      "utf8_length_loop True (enc8 c @ rest) n =
       (if kUnicodeMaxCodepoint < checked True a (length (enc8 c)) m u then Inr (-1) else utf8_length_loop True rest (n + length (enc8 c)))"
      using length_multi [OF assms(1)] by (metis not_less)
    have "128 \<le> uint a" using *(1) by simp
    then show ?thesis using *(4) checked_signed [OF _ *(3,2)] False by simp
  qed (simp add: one)
qed

text \<open>C18: Where \<open>char\<close> is unsigned (ARM) \<open>utf8_length\<close> accepts the encoding of every sequence of Unicode scalar
  values and returns its length. Where \<open>char\<close> is signed (x86), the sign extension of the lead byte pushes the value it
  checks above the last code point, so that it refuses every such string with a character outside ASCII.\<close>

theorem utf8_length_signedness:
  assumes "\<forall>c \<in> set cs. scalar c \<and> c \<noteq> 0"
  shows "utf8_length False (utf8 cs @ 0 # later) = Inr (int (length (utf8 cs))) \<and>
    utf8_length True (utf8 cs @ 0 # later) = Inr (if \<forall>c \<in> set cs. uint c < 128 then int (length (utf8 cs)) else -1)"
proof -
  have "utf8_length_loop False (utf8 cs @ 0 # later) n = Inr (int (n + length (utf8 cs))) \<and>
    utf8_length_loop True (utf8 cs @ 0 # later) n = Inr (if \<forall>c \<in> set cs. uint c < 128 then int (n + length (utf8 cs)) else -1)" for n
    using assms
  proof (induction cs arbitrary: n)
    case Nil
    then show ?case by (simp add: utf8_def utf8_length_loop.simps)
  next
    case (Cons c cs)
    then show ?case by (simp add: utf8_def length_char add.assoc)
  qed
  from this [of 0] show ?thesis by (simp add: utf8_length_def)
qed


theorem utf8_length_signedness_witness:
  "utf8_length False (utf8 [0x48, 0xE9, 0x1F600] @ 0 # []) = Inr (int (length (utf8 [0x48, 0xE9, 0x1F600]))) \<and>
    utf8_length True (utf8 [0x48, 0xE9, 0x1F600] @ 0 # [])
      = Inr (if \<forall>c \<in> set [0x48, 0xE9, 0x1F600 :: 32 word]. uint c < 128 then int (length (utf8 [0x48, 0xE9, 0x1F600])) else -1)"
  by (rule utf8_length_signedness) (simp add: scalar_def)

end
