(* ===== verification/Jstring.thy ===== *)
theory Jstring
  imports Unicode_Correct
begin

unbundle bit_operations_syntax

text \<open>
  Strings of the Java native interface: UTF-16 of a given length and modified UTF-8, in which the character 0 has two
  bytes and surrogates are encoded one by one (\<open>libcutils/strdup16to8.c\<close>, \<open>libcutils/strdup8to16.c\<close>). Memory is as in
  \<open>Unicode\<close>; \<open>size_t\<close> has 64 bits. \<open>malloc_n\<close> is a call of \<open>malloc\<close> that succeeds or not and leaves garbage in what it
  returns.
\<close>

section \<open>UTF-16 to modified UTF-8\<close>

definition SIZE_MAX :: "64 word" where "SIZE_MAX = 0xFFFFFFFFFFFFFFFF"

definition malloc_n :: "bool \<Rightarrow> (nat \<Rightarrow> 'a) \<Rightarrow> nat \<Rightarrow> 'a list option" where
  "malloc_n ok garbage n = (if ok then Some (map garbage [0..<n]) else None)"

text \<open>The bytes one unit adds to the length.\<close>

definition unit_len :: "16 word \<Rightarrow> nat" where
  "unit_len uic = (if 0x7ff < uic then 3 else if 0x7f < uic \<or> uic = 0 then 2 else 1)"

primrec strnlen16to8_fast :: "nat \<Rightarrow> 16 word list \<Rightarrow> 64 word \<Rightarrow> 64 word res" where
  "strnlen16to8_fast 0 utf16Str utf8Len = Inr utf8Len"
| "strnlen16to8_fast (Suc len) utf16Str utf8Len =
     (case utf16Str of
        [] \<Rightarrow> Inl Out_of_bounds
      | uic # utf16Str' \<Rightarrow> strnlen16to8_fast len utf16Str' (utf8Len + of_nat (unit_len uic)))"

primrec strnlen16to8_slow :: "nat \<Rightarrow> 16 word list \<Rightarrow> 64 word \<Rightarrow> 64 word res" where
  "strnlen16to8_slow 0 utf16Str utf8Len = Inr (if utf8Len = SIZE_MAX then SIZE_MAX - 1 else utf8Len)"
| "strnlen16to8_slow (Suc len) utf16Str utf8Cur =
     (case utf16Str of
        [] \<Rightarrow> Inl Out_of_bounds
      | uic # utf16Str' \<Rightarrow>
          let utf8Len = utf8Cur + of_nat (unit_len uic)
          in if utf8Len < utf8Cur then Inr (SIZE_MAX - 1) else strnlen16to8_slow len utf16Str' utf8Len)"

definition strnlen16to8 :: "16 word list \<Rightarrow> 64 word \<Rightarrow> 64 word res" where
  "strnlen16to8 utf16Str len =
     (if len < (SIZE_MAX - 1) div 3 then strnlen16to8_fast (unat len) utf16Str 0
      else strnlen16to8_slow (unat len) utf16Str 0)"

text \<open>\<open>wr_list\<close> is a sequence of assignments \<open>*cur++ = b\<close>.\<close>

primrec wr_list :: "'a list \<Rightarrow> nat \<Rightarrow> 'a list \<Rightarrow> 'a list res" where
  "wr_list dst cur [] = Inr dst"
| "wr_list dst cur (b # bs) = rbind (wr dst cur b) (\<lambda>dst. wr_list dst (Suc cur) bs)"

primrec strncpy16to8_loop :: "nat \<Rightarrow> 16 word list \<Rightarrow> byte list \<Rightarrow> nat \<Rightarrow> byte list res" where
  "strncpy16to8_loop 0 utf16Str dst utf8cur = wr dst utf8cur 0"
| "strncpy16to8_loop (Suc len) utf16Str dst utf8cur =
     (case utf16Str of
        [] \<Rightarrow> Inl Out_of_bounds
      | c # utf16Str' \<Rightarrow>
          let uic = ucast c :: 32 word
          in if 0x7ff < uic then
               rbind (wr_list dst utf8cur
                   [ucast (drop_bit 12 uic OR 0xe0), ucast ((drop_bit 6 uic AND 0x3f) OR 0x80), ucast ((uic AND 0x3f) OR 0x80)])
                 (\<lambda>dst. strncpy16to8_loop len utf16Str' dst (utf8cur + 3))
             else if 0x7f < uic \<or> uic = 0 then
               rbind (wr_list dst utf8cur [ucast (drop_bit 6 uic OR 0xc0), ucast ((uic AND 0x3f) OR 0x80)])
                 (\<lambda>dst. strncpy16to8_loop len utf16Str' dst (utf8cur + 2))
             else
               rbind (wr_list dst utf8cur [ucast uic])
                 (\<lambda>dst. if uic = 0 then wr dst (utf8cur + 1) 0 else strncpy16to8_loop len utf16Str' dst (utf8cur + 1)))"

definition strncpy16to8 :: "byte list \<Rightarrow> 16 word list \<Rightarrow> 64 word \<Rightarrow> byte list res" where
  "strncpy16to8 utf8Str utf16Str len = strncpy16to8_loop (unat len) utf16Str utf8Str 0"

definition strndup16to8 :: "bool \<Rightarrow> (nat \<Rightarrow> byte) \<Rightarrow> 16 word list option \<Rightarrow> 64 word \<Rightarrow> byte list option res" where
  "strndup16to8 ok garbage s n =
     (case s of
        None \<Rightarrow> Inr None
      | Some s \<Rightarrow>
          rbind (strnlen16to8 s n) (\<lambda>len.
            if SIZE_MAX - 1 \<le> len then Inr None
            else (case malloc_n ok garbage (unat (len + 1)) of
                    None \<Rightarrow> Inr None
                  | Some ret \<Rightarrow> rbind (strncpy16to8 ret s n) (\<lambda>ret. Inr (Some ret)))))"

section \<open>Modified UTF-8 to UTF-16\<close>

definition UTF16_REPLACEMENT_CHAR :: "32 word" where "UTF16_REPLACEMENT_CHAR = 0xfffd"
definition UNICODE_UPPER_LIMIT :: "32 word" where "UNICODE_UPPER_LIMIT = 0x10fffd"

definition UTF8_SEQ_LENGTH :: "32 word \<Rightarrow> nat" where
  "UTF8_SEQ_LENGTH ch = unat (drop_bit (unat (signed_drop_bit 3 ch AND 0x1e)) (0xe5000000 :: 32 word) AND 3) + 1"

definition UTF8_SHIFT_AND_MASK :: "32 word \<Rightarrow> 32 word \<Rightarrow> 32 word" where
  "UTF8_SHIFT_AND_MASK unicode b = push_bit 6 unicode OR (0x3f AND b)"

text \<open>\<open>expected\<close> is an \<open>int\<close> that the loop only counts down between lead bytes.\<close>

primrec strlen8to16_loop :: "bool \<Rightarrow> byte list \<Rightarrow> 64 word \<Rightarrow> int \<Rightarrow> 64 word res" where
  "strlen8to16_loop sc [] len expected = Inl Out_of_bounds"
| "strlen8to16_loop sc (c # utf8Str) len expected =
     (let ic = char_ext sc c
      in if ic = 0 then Inr len
         else if ic AND 0xc0 = 0x80 then
           let expected = i32 (expected - 1)
           in strlen8to16_loop sc utf8Str (if expected < 0 then len + 1 else len) expected
         else
           let expected = int (UTF8_SEQ_LENGTH ic) - 1
           in strlen8to16_loop sc utf8Str (if expected = 3 then len + 2 else len + 1) expected)"

definition strlen8to16 :: "bool \<Rightarrow> byte list \<Rightarrow> 64 word res" where
  "strlen8to16 sc utf8Str = strlen8to16_loop sc utf8Str 0 0"

definition leaderMask :: "byte list" where "leaderMask = [0xff, 0x1f, 0x0f, 0x07]"

text \<open>The loop of \<open>getUtf32FromUtf8\<close>; \<open>i\<close> counts the bytes that the pointer has moved.\<close>

primrec seq_loop :: "bool \<Rightarrow> nat \<Rightarrow> byte list \<Rightarrow> 32 word \<Rightarrow> nat \<Rightarrow> (32 word \<times> nat) res" where
  "seq_loop sc 0 p ret i = Inr (ret, i)"
| "seq_loop sc (Suc n) p ret i =
     (case p of
        [] \<Rightarrow> Inl Out_of_bounds
      | c # p' \<Rightarrow>
          if c = 0 then Inr (UTF16_REPLACEMENT_CHAR, i)
          else if char_ext sc c AND 0xc0 \<noteq> 0x80 then Inr (UTF16_REPLACEMENT_CHAR, i)
          else seq_loop sc n p' (UTF8_SHIFT_AND_MASK ret (char_ext sc c)) (i + 1))"

text \<open>The result is the character and the number of bytes to advance.\<close>

definition getUtf32FromUtf8 :: "bool \<Rightarrow> byte list \<Rightarrow> (32 word \<times> nat) res" where
  "getUtf32FromUtf8 sc pUtf8Ptr =
     rbind (rd pUtf8Ptr 0) (\<lambda>b.
       if char_ext sc b AND 0xc0 = 0x80 then Inr (UTF16_REPLACEMENT_CHAR, 1)
       else
         let seq_len = UTF8_SEQ_LENGTH (char_ext sc b);
             ret = char_ext sc b AND char_ext sc (leaderMask ! (seq_len - 1))
         in if b = 0 then Inr (ret, 0) else seq_loop sc (seq_len - 1) (tl pUtf8Ptr) ret 1)"

lemma seq_loop_advance: "seq_loop sc n p ret i = Inr (r, k) \<Longrightarrow> i \<le> k"
  by (induction n arbitrary: p ret i) (force split: list.splits if_splits)+

lemma getUtf32FromUtf8_advance: "getUtf32FromUtf8 sc (b # p) = Inr (r, k) \<Longrightarrow> b \<noteq> 0 \<Longrightarrow> 0 < k"
  by (auto simp: getUtf32FromUtf8_def rd_def Let_def dest!: seq_loop_advance split: if_splits)

text \<open>The units of one character at \<open>dest\<close>; a null destination faults.\<close>

definition wr_units :: "16 word list option \<Rightarrow> nat \<Rightarrow> 16 word list \<Rightarrow> 16 word list option res" where
  "wr_units dst dest us = (case dst of None \<Rightarrow> Inl Null_deref | Some d \<Rightarrow> rbind (wr_list d dest us) (\<lambda>d. Inr (Some d)))"

definition char_units :: "32 word \<Rightarrow> 16 word list" where
  "char_units ret =
     (if ret \<le> 0xffff then [ucast ret]
      else if ret \<le> UNICODE_UPPER_LIMIT then
        [ucast (0xd800 OR drop_bit 10 (ret - 0x10000)), ucast (0xdc00 OR ((ret - 0x10000) AND 0x3ff))]
      else [ucast UTF16_REPLACEMENT_CHAR])"

lemma char_units_pos [simp]: "char_units ret \<noteq> []"
  by (simp add: char_units_def)

function strcpy8to16_loop :: "bool \<Rightarrow> byte list \<Rightarrow> 16 word list option \<Rightarrow> nat \<Rightarrow> (16 word list option \<times> nat) res" where
  "strcpy8to16_loop sc utf8Str dst dest =
     (case utf8Str of
        [] \<Rightarrow> Inl Out_of_bounds
      | c # _ \<Rightarrow>
          if c = 0 then Inr (dst, dest)
          else (case getUtf32FromUtf8 sc utf8Str of
                  Inl e \<Rightarrow> Inl e
                | Inr (ret, k) \<Rightarrow>
                    (case wr_units dst dest (char_units ret) of
                       Inl e \<Rightarrow> Inl e
                     | Inr dst' \<Rightarrow> strcpy8to16_loop sc (drop k utf8Str) dst' (dest + length (char_units ret)))))"
  by pat_completeness auto
termination
  by (relation "measure (\<lambda>(sc, utf8Str, dst, dest). length utf8Str)") (auto dest: getUtf32FromUtf8_advance)

declare strcpy8to16_loop.simps [simp del]

definition strcpy8to16 :: "bool \<Rightarrow> 16 word list option \<Rightarrow> byte list \<Rightarrow> (16 word list option \<times> nat) res" where
  "strcpy8to16 sc utf16Str utf8Str = strcpy8to16_loop sc utf8Str utf16Str 0"

lemma wr_list_bound: "wr_list d q us = Inr d' \<Longrightarrow> us \<noteq> [] \<Longrightarrow> length d' = length d \<and> q + length us \<le> length d"
proof (induction us arbitrary: d q)
  case (Cons u us)
  then show ?case by (cases us) (fastforce simp: wr_def split: if_splits)+
qed simp

lemma wr_units_bound:
  "wr_units dst q us = Inr dst' \<Longrightarrow> us \<noteq> [] \<Longrightarrow> \<exists>d d'. dst = Some d \<and> dst' = Some d' \<and> length d' = length d \<and> q + length us \<le> length d"
  by (auto simp: wr_units_def dest: wr_list_bound split: option.splits)

text \<open>\<open>n\<close> is the distance from \<open>utf8Str\<close> to \<open>end\<close>. The loop ends because the destination does.\<close>

function strcpylen8to16_loop :: "bool \<Rightarrow> byte list \<Rightarrow> int \<Rightarrow> 16 word list option \<Rightarrow> nat \<Rightarrow> (16 word list option \<times> nat) res" where
  "strcpylen8to16_loop sc utf8Str n dst dest =
     (if n \<le> 0 then Inr (dst, dest)
      else (case getUtf32FromUtf8 sc utf8Str of
              Inl e \<Rightarrow> Inl e
            | Inr (ret, k) \<Rightarrow>
                (case wr_units dst dest (char_units ret) of
                   Inl e \<Rightarrow> Inl e
                 | Inr dst' \<Rightarrow> strcpylen8to16_loop sc (drop k utf8Str) (n - int k) dst' (dest + length (char_units ret)))))"
  by pat_completeness auto
termination
proof (relation "measure (\<lambda>(sc, utf8Str, n, dst, dest). case dst of None \<Rightarrow> 0 | Some d \<Rightarrow> length d - dest)", goal_cases)
  case (2 sc utf8Str n dst dest x ret k dst')
  have "0 < length (char_units ret)" by simp
  moreover obtain d d' where d: "dst = Some d" "dst' = Some d'" "length d' = length d" "dest + length (char_units ret) \<le> length d"
    using wr_units_bound [OF 2(4) char_units_pos] by blast
  ultimately have "length d - (dest + length (char_units ret)) < length d - dest" by linarith
  then show ?case using d by simp
qed simp

declare strcpylen8to16_loop.simps [simp del]

definition strcpylen8to16 :: "bool \<Rightarrow> 16 word list option \<Rightarrow> byte list \<Rightarrow> int \<Rightarrow> (16 word list option \<times> nat) res" where
  "strcpylen8to16 sc utf16Str utf8Str n = strcpylen8to16_loop sc utf8Str n utf16Str 0"

definition strdup8to16 :: "bool \<Rightarrow> bool \<Rightarrow> (nat \<Rightarrow> 16 word) \<Rightarrow> byte list option \<Rightarrow> (16 word list option \<times> nat) option res" where
  "strdup8to16 sc ok garbage s =
     (case s of
        None \<Rightarrow> Inr None
      | Some s \<Rightarrow>
          rbind (strlen8to16 sc s) (\<lambda>len.
            if len \<noteq> 0 \<and> SIZE_MAX div len < 2 then Inr None
            else rbind (strcpy8to16 sc (malloc_n ok garbage (unat len)) s) (\<lambda>r. Inr (Some r))))"

end
