(* ===== verification/Jstring_Correct.thy ===== *)
theory Jstring_Correct
  imports Jstring
begin

unbundle bit_operations_syntax

text \<open>
  The functions of \<open>Jstring\<close> against the definition of modified UTF-8 (\<open>mutf8\<close>): the exact length and its saturation, the
  round trip of every sequence of units, the bound of what \<open>strcpy8to16\<close> stores for arbitrary bytes, and the zero byte
  on which \<open>strcpylen8to16\<close> never ends.
\<close>

section \<open>Modified UTF-8\<close>

definition enc_unit :: "16 word \<Rightarrow> byte list" where
  "enc_unit c =
     (let x = uint c
      in if 2047 < x then [byte_of (224 + x div 4096), byte_of (128 + x div 64 mod 64), byte_of (128 + x mod 64)]
         else if 127 < x \<or> x = 0 then [byte_of (192 + x div 64), byte_of (128 + x mod 64)]
         else [byte_of x])"

definition mutf8 :: "16 word list \<Rightarrow> byte list" where "mutf8 s = concat (map enc_unit s)"

lemma mutf8_simps [simp]: "mutf8 [] = []" "mutf8 (c # s) = enc_unit c @ mutf8 s"
  by (simp_all add: mutf8_def)

lemma unit_len_enc: "unit_len c = length (enc_unit c)"
  by (auto simp: unit_len_def enc_unit_def Let_def word_less_alt unsigned_eq_0_iff)

lemma unit_len_bounds: "1 \<le> unit_len c" "unit_len c \<le> 3"
  by (simp_all add: unit_len_def)

lemma length_mutf8: "length s \<le> length (mutf8 s) \<and> length (mutf8 s) \<le> 3 * length s"
proof (induction s)
  case (Cons c s)
  then show ?case using unit_len_bounds [of c] by (simp add: unit_len_enc)
qed simp

section \<open>Measuring\<close>

lemma strnlen_fast:
  "n \<le> length s \<Longrightarrow> strnlen16to8_fast n s k = Inr (k + of_nat (length (mutf8 (take n s))))"
proof (induction n arbitrary: s k)
  case (Suc n)
  then show ?case by (cases s) (simp_all add: unit_len_enc add.assoc)
qed simp

lemma word64_add: "unat (k + of_nat u :: 64 word) = unat k + u \<and> \<not> k + of_nat u < k" if "unat k + u < 2 ^ 64"
proof -
  have "u < 2 ^ 64" using that by simp
  then have "unat (of_nat u :: 64 word) = u" by (simp add: unsigned_of_nat take_bit_eq_mod)
  then show ?thesis using that by (simp add: unat_word_ariths word_less_nat_alt)
qed

lemma word64_wrap: "k + of_nat u < k" if "2 ^ 64 \<le> unat k + u" "u < 2 ^ 64" for k :: "64 word"
proof -
  have u: "unat (of_nat u :: 64 word) = u" using that(2) by (simp add: unsigned_of_nat take_bit_eq_mod)
  have "unat k < 2 ^ 64" using unsigned_less [of k] by simp
  then show ?thesis using that u by (auto simp: unat_word_ariths word_less_nat_alt mod_if)
qed

lemma strnlen_slow:
  "n \<le> length s \<Longrightarrow> strnlen16to8_slow n s k = Inr (of_nat (min (unat k + length (mutf8 (take n s))) (2 ^ 64 - 2)))"
proof (induction n arbitrary: s k)
  case 0
  have "unat k < 2 ^ 64" using unsigned_less [of k] by simp
  moreover have "unat k \<noteq> 2 ^ 64 - 1" if "k \<noteq> SIZE_MAX" using that by (simp add: SIZE_MAX_def word_unat_eq_iff)
  ultimately have "min (unat k) (2 ^ 64 - 2) = unat k" if "k \<noteq> SIZE_MAX" using that by simp
  then show ?case by (simp add: SIZE_MAX_def)
next
  case (Suc n)
  then obtain c s' where s: "s = c # s'" "n \<le> length s'" by (cases s) auto
  show ?case
  proof (cases "unat k + unit_len c < 2 ^ 64")
    case True
    then show ?thesis using Suc.IH [OF s(2)] word64_add [OF True] s(1) by (simp add: Let_def unit_len_enc add.assoc)
  next
    case False
    then have "k + of_nat (unit_len c) < k" using unit_len_bounds(2) [of c] by (intro word64_wrap) simp_all
    then show ?thesis using False s(1) by (simp add: SIZE_MAX_def unit_len_enc)
  qed
qed

lemma strnlen16to8_eq:
  assumes "unat n \<le> length s"
  shows "strnlen16to8 s n = Inr (of_nat (min (length (mutf8 (take (unat n) s))) (2 ^ 64 - 2)))"
proof (cases "n < (SIZE_MAX - 1) div 3")
  case True
  then have "unat n < 6148914691236517204" by (simp add: SIZE_MAX_def word_less_nat_alt)
  then have "length (mutf8 (take (unat n) s)) \<le> 2 ^ 64 - 2" using length_mutf8 [of "take (unat n) s"] assms by simp
  then show ?thesis using True strnlen_fast [OF assms, of 0] by (simp add: strnlen16to8_def)
qed (simp add: strnlen16to8_def strnlen_slow [OF assms])

section \<open>Writing\<close>

lemma wr_list_ok: "cur + length bs \<le> length dst \<Longrightarrow> wr_list dst cur bs = Inr (write_at cur bs dst)"
proof (induction bs arbitrary: dst cur)
  case (Cons b bs)
  then show ?case using write_at_append [of "Suc cur" cur "[b]" bs dst] by (simp add: wr_ok write_at_one)
qed simp

lemma wr_list_short: "length dst < cur + length bs \<Longrightarrow> bs \<noteq> [] \<Longrightarrow> wr_list dst cur bs = Inl Out_of_bounds"
proof (induction bs arbitrary: dst cur)
  case (Cons b bs)
  then show ?case by (cases "bs = []") (auto simp: wr_def)
qed simp

lemma or_add: "x mod 2 ^ k = 0 \<Longrightarrow> 0 \<le> b \<Longrightarrow> b < 2 ^ k \<Longrightarrow> b OR x = b + (x :: int)"
  using or_plus [of x k b] by (simp add: or.commute add.commute)

lemma unit_bytes:
  fixes c :: "16 word" defines "uic \<equiv> ucast c :: 32 word"
  shows "(ucast ((uic AND 0x3f) OR 0x80) :: byte) = byte_of (128 + uint c mod 64)"
    and "(ucast ((drop_bit 6 uic AND 0x3f) OR 0x80) :: byte) = byte_of (128 + uint c div 64 mod 64)"
    and "uint c < 2048 \<Longrightarrow> (ucast (drop_bit 6 uic OR 0xc0) :: byte) = byte_of (192 + uint c div 64)"
    and "(ucast (drop_bit 12 uic OR 0xe0) :: byte) = byte_of (224 + uint c div 4096)"
    and "uint c < 256 \<Longrightarrow> (ucast uic :: byte) = byte_of (uint c)"
proof -
  have u: "uint uic = uint c" by (simp add: uic_def uint_ucast16)
  have b: "(ucast w :: byte) = byte_of y" if "uint w = y" "y < 256" for w :: "32 word" and y
    using that ucast_byte [of w] by simp
  have t: "uint ((w AND 0x3f) OR 0x80) = 128 + uint w mod 64" for w :: "32 word"
    using or_add [of 128 6 "uint w mod 64"] by (simp only: unsigned_or_eq unsigned_and_eq) (simp add: int_masks)
  show "(ucast ((uic AND 0x3f) OR 0x80) :: byte) = byte_of (128 + uint c mod 64)"
    using t [of uic] by (intro b) (simp_all add: u)
  show "(ucast ((drop_bit 6 uic AND 0x3f) OR 0x80) :: byte) = byte_of (128 + uint c div 64 mod 64)"
    using t [of "drop_bit 6 uic"] unfolding uint_drop_bit by (intro b) (simp_all add: u)
  show "(ucast (drop_bit 6 uic OR 0xc0) :: byte) = byte_of (192 + uint c div 64)" if "uint c < 2048"
    using that or_add [of 192 6 "uint c div 64"] uint16_bound [of c]
    by (intro b) (simp_all only: unsigned_or_eq uint_drop_bit u, simp_all add: pos_imp_zdiv_nonneg_iff)
  show "(ucast (drop_bit 12 uic OR 0xe0) :: byte) = byte_of (224 + uint c div 4096)"
    using or_add [of 224 5 "uint c div 4096"] uint16_bound [of c]
    by (intro b) (simp_all only: unsigned_or_eq uint_drop_bit u, simp_all add: pos_imp_zdiv_nonneg_iff)
  show "(ucast uic :: byte) = byte_of (uint c)" if "uint c < 256" using that by (intro b) (simp_all add: u)
qed

lemma strncpy_loop:
  "n \<le> length s \<Longrightarrow> cur + length (mutf8 (take n s)) < length dst \<Longrightarrow>
   strncpy16to8_loop n s dst cur = Inr (write_at cur (mutf8 (take n s) @ [0]) dst)"
proof (induction n arbitrary: s dst cur)
  case 0
  then show ?case by (simp add: wr_ok write_at_one)
next
  case (Suc n)
  then obtain c s' where s: "s = c # s'" "n \<le> length s'" by (cases s) auto
  define e where "e = enc_unit c"
  have e: "cur + length e + length (mutf8 (take n s')) < length dst" using Suc.prems s by (simp add: e_def)
  have "strncpy16to8_loop (Suc n) s dst cur = rbind (wr_list dst cur e) (\<lambda>dst. strncpy16to8_loop n s' dst (cur + length e))"
    unfolding e_def s(1) using uint16_bound [of c]
    by (auto simp: enc_unit_def Let_def unit_bytes word_less_alt uint_ucast16 word_uint_eq_iff numeral_3_eq_3)
  also have "\<dots> = strncpy16to8_loop n s' (write_at cur e dst) (cur + length e)" using e by (simp add: wr_list_ok)
  also have "\<dots> = Inr (write_at (cur + length e) (mutf8 (take n s') @ [0]) (write_at cur e dst))"
    using e s(2) by (intro Suc.IH) simp_all
  also have "\<dots> = Inr (write_at cur (mutf8 (take (Suc n) s) @ [0]) dst)"
    using e write_at_append [of "cur + length e" cur e "mutf8 (take n s') @ [0]" dst] by (simp add: s e_def)
  finally show ?case .
qed

section \<open>Reading\<close>

definition ext_byte :: "byte \<Rightarrow> bool" where "ext_byte b \<longleftrightarrow> 128 \<le> uint b \<and> uint b < 192"

lemma char_ext_and: "uint (char_ext sc b AND m) = uint b AND uint m" if "uint m < 256" for m :: "32 word"
proof -
  have "uint m = uint m mod 256" using that by simp
  also have "\<dots> = uint m AND 255" by (simp add: and_mask_mod [of _ 8, simplified])
  finally have "uint (char_ext sc b AND m) = (uint (char_ext sc b) AND 255) AND uint m"
    by (simp only: unsigned_and_eq) (metis and.assoc and.commute)
  then show ?thesis using char_ext_mod [of sc b] by (simp add: and_mask_mod [of _ 8, simplified])
qed

lemma ext_test: "(char_ext sc b AND 0xc0 = 0x80) = ext_byte b"
proof -
  have "uint b AND 192 = 64 * (uint b div 64)"
    using and_push_bit [of "uint b" 6 3] uint_byte_bound [of b]
    by (simp add: push_bit_eq_mult drop_bit_eq_div int_masks pos_imp_zdiv_nonneg_iff)
  then have "uint (char_ext sc b AND 0xc0) = 64 * (uint b div 64)" by (simp add: char_ext_and)
  then have "(char_ext sc b AND 0xc0 = 0x80) = (uint b div 64 = 2)" by (simp add: word_uint_eq_iff)
  then show ?thesis by (auto simp: ext_byte_def)
qed

lemma seq_length: "UTF8_SEQ_LENGTH (char_ext sc b) = utf8_codepoint_len b"
proof -
  have "signed_drop_bit 3 (char_ext sc b) AND 0x1e = (ucast (drop_bit 3 b AND 0x1e) :: 32 word)"
  proof (rule bit_word_eqI)
    fix n assume "n < LENGTH(32)"
    have m: "bit (0x1e :: 32 word) n \<longleftrightarrow> n \<in> {1, 2, 3, 4}" "bit (0x1e :: byte) n \<longleftrightarrow> n \<in> {1, 2, 3, 4}"
      by (auto simp: bit_numeral_rec bit_1_iff split: nat.splits)
    show "bit (signed_drop_bit 3 (char_ext sc b) AND 0x1e) n = bit (ucast (drop_bit 3 b AND 0x1e) :: 32 word) n"
      unfolding bit_and_iff bit_ucast_iff m
      by (cases "n \<in> {1, 2, 3, 4}") (auto simp: bit_signed_drop_bit_iff bit_drop_bit_eq bit_char_ext_low)
  qed
  then have "unat (signed_drop_bit 3 (char_ext sc b) AND 0x1e) = unat (drop_bit 3 b AND 0x1e)"
    by (simp only: unat_eq_nat_uint uint_ucast8)
  then show ?thesis by (simp only: UTF8_SEQ_LENGTH_def utf8_codepoint_len_def)
qed

lemma shift_mask: "UTF8_SHIFT_AND_MASK r (char_ext sc b) = utf8_shift_and_mask r b"
proof -
  have "uint (char_ext sc b AND 0x3f) = uint b AND 63" by (simp add: char_ext_and)
  moreover have "uint (ucast b AND 0x3f :: 32 word) = uint b AND 63" by (simp only: unsigned_and_eq uint_ucast8) simp
  ultimately have "char_ext sc b AND 0x3f = ucast b AND 0x3f" by (intro word_uintI) simp
  then show ?thesis by (simp add: UTF8_SHIFT_AND_MASK_def utf8_shift_and_mask_def and.commute)
qed

lemma char_ext_eq_0 [simp]: "char_ext sc b = 0 \<longleftrightarrow> b = 0"
  using char_ext_mod [of sc b] by (auto simp: char_ext_def unsigned_eq_0_iff)

text \<open>The first byte of a sequence, without its length bits.\<close>

definition lead_value :: "byte \<Rightarrow> int" where
  "lead_value b = (if uint b < 192 then uint b else if uint b < 224 then uint b mod 32 else if uint b < 240 then uint b mod 16 else uint b mod 8)"

lemma leader: "\<not> ext_byte b \<Longrightarrow> uint (char_ext sc b AND char_ext sc (leaderMask ! (utf8_codepoint_len b - 1))) = lead_value b"
proof -
  assume b: "\<not> ext_byte b"
  have m: "char_ext sc 0x1f = 0x1f" "char_ext sc 0x0f = 0x0f" "char_ext sc 0x07 = 0x07" by (simp_all add: char_ext_def)
  have a: "uint (char_ext sc b AND char_ext sc 0xff) = uint b" if "uint b < 128"
  proof -
    have "char_ext sc b = ucast b" using that by (rule char_ext_ascii)
    then have "uint (char_ext sc b AND char_ext sc 0xff) = uint (char_ext sc 0xff AND char_ext sc b)" by (simp add: and.commute)
    also have "\<dots> = uint b" using that char_ext_and [of "char_ext sc b" sc "0xff"] \<open>char_ext sc b = ucast b\<close>
      by (simp add: uint_ucast8 and.commute [of 255] and_mask_mod [of _ 8, simplified])
    finally show ?thesis .
  qed
  show ?thesis using b a uint_byte_bound [of b]
    by (auto simp: codepoint_len leaderMask_def lead_value_def ext_byte_def m char_ext_and int_masks)
qed

text \<open>One character: the value of the sequence if it is complete, the replacement character otherwise.\<close>

lemma get_ext: "ext_byte b \<Longrightarrow> getUtf32FromUtf8 sc (b # p) = Inr (UTF16_REPLACEMENT_CHAR, 1)"
  by (simp add: getUtf32FromUtf8_def rd_def ext_test)

lemma get_lead:
  "\<not> ext_byte b \<Longrightarrow> b \<noteq> 0 \<Longrightarrow> getUtf32FromUtf8 sc (b # p) = seq_loop sc (utf8_codepoint_len b - 1) p (word_of_int (lead_value b)) 1"
  using leader [of b sc] by (simp add: getUtf32FromUtf8_def rd_def ext_test seq_length Let_def) (metis word_of_int_uint)

lemma lead_ext: "ext_byte c \<Longrightarrow> seq_loop sc (Suc n) (c # p) ret i = seq_loop sc n p (utf8_shift_and_mask ret c) (i + 1)"
  by (auto simp: ext_test shift_mask ext_byte_def)

lemma lead_stop: "\<not> ext_byte c \<Longrightarrow> seq_loop sc (Suc n) (c # p) ret i = Inr (UTF16_REPLACEMENT_CHAR, i)"
  by (auto simp: ext_test)

lemma byte_of_word [simp]: "0 \<le> x \<Longrightarrow> x < 256 \<Longrightarrow> uint (byte_of x) = x" by (rule uint_byte_of)

lemma get_unit: "getUtf32FromUtf8 sc (enc_unit c @ p) = Inr (ucast c, length (enc_unit c))"
proof -
  let ?x = "uint c"
  have x: "0 \<le> ?x" "?x < 65536" by (rule uint16_bound)+
  have t: "ext_byte (byte_of (128 + y mod 64))" "uint (byte_of (128 + y mod 64)) mod 64 = y mod 64" for y
    by (simp_all add: ext_byte_def trail_mod)
  have w: "uint (word_of_int y :: 32 word) = y" if "0 \<le> y" "y < 65536" for y
    using that by (simp add: take_bit_int_eq_self unsigned_of_int)
  have r: "r = ucast c" if "uint r = ?x" for r :: "32 word" using that by (intro word_uintI) (simp add: uint_ucast16)
  consider "2047 < ?x" | "?x \<le> 2047" "127 < ?x \<or> ?x = 0" | "0 < ?x" "?x \<le> 127" using x by linarith
  then show ?thesis
  proof cases
    case 1
    define a where "a = byte_of (224 + ?x div 4096)"
    have d: "0 \<le> ?x div 4096" "?x div 4096 < 16" using x by (simp_all add: pos_imp_zdiv_nonneg_iff)
    then have u: "uint a = 224 + ?x div 4096" by (simp add: a_def)
    then have a: "\<not> ext_byte a" "a \<noteq> 0" "utf8_codepoint_len a = 3" "lead_value a = ?x div 4096"
      using d by (auto simp: ext_byte_def codepoint_len lead_value_def mod_add_left_eq [symmetric, of 224])
    let ?s = "utf8_shift_and_mask (word_of_int (?x div 4096)) (byte_of (128 + ?x div 64 mod 64))"
    have s: "uint ?s = ?x div 64" using w [of "?x div 4096"] d digits64(2) [of ?x] t(2) [of "?x div 64"] by (simp add: shift_and_mask)
    have "uint ?s < 67108864" unfolding s using x by simp
    from shift_and_mask [OF this, of "byte_of (128 + ?x mod 64)"]
    have "uint (utf8_shift_and_mask ?s (byte_of (128 + ?x mod 64))) = ?x" unfolding s t(2) digits64(1) .
    from r [OF this] show ?thesis using 1 a t(1)
      by (simp add: enc_unit_def Let_def a_def [symmetric] get_lead numeral_2_eq_2 lead_ext del: seq_loop.simps(2))
  next
    case 2
    define a where "a = byte_of (192 + ?x div 64)"
    have d: "0 \<le> ?x div 64" "?x div 64 < 32" using x 2 by (simp_all add: pos_imp_zdiv_nonneg_iff)
    then have u: "uint a = 192 + ?x div 64" by (simp add: a_def)
    then have a: "\<not> ext_byte a" "a \<noteq> 0" "utf8_codepoint_len a = 2" "lead_value a = ?x div 64"
      using d by (auto simp: ext_byte_def codepoint_len lead_value_def mod_add_left_eq [symmetric, of 192])
    have "uint (utf8_shift_and_mask (word_of_int (?x div 64)) (byte_of (128 + ?x mod 64))) = ?x"
      using w [of "?x div 64"] d digits64(1) [of ?x] t(2) [of ?x] by (simp add: shift_and_mask)
    from r [OF this] show ?thesis using 2 a t(1)
      by (simp add: enc_unit_def Let_def a_def [symmetric] get_lead lead_ext del: seq_loop.simps(2))
  next
    case 3
    define a where "a = byte_of ?x"
    have u: "uint a = ?x" using 3 by (simp add: a_def)
    then have a: "\<not> ext_byte a" "a \<noteq> 0" "utf8_codepoint_len a = 1" "lead_value a = ?x"
      using 3 by (auto simp: ext_byte_def codepoint_len lead_value_def)
    have "uint (word_of_int ?x :: 32 word) = ?x" by (rule w [OF x])
    from r [OF this] show ?thesis using 3 a by (simp add: enc_unit_def Let_def a_def [symmetric] get_lead)
  qed
qed

lemma char_units_unit: "char_units (ucast c) = [c]"
proof -
  have "uint (ucast c :: 32 word) < 65536" unfolding uint_ucast16 by (rule uint16_bound)
  then have "(ucast (ucast c :: 32 word) :: 16 word) = unit_of (uint c)" by (simp only: ucast_unit uint_ucast16)
  then show ?thesis using uint16_bound [of c] by (simp add: char_units_def word_le_def uint_ucast16 unit_of_def)
qed

lemma enc_unit_nonzero: "0 \<notin> set (enc_unit c)" "enc_unit c \<noteq> []"
proof -
  have "byte_of y \<noteq> 0" if "0 < y" "y < 256" for y using that by (metis uint_byte_of less_le unsigned_0)
  moreover have "0 \<le> uint c div 4096" "uint c div 4096 < 16" "uint c < 2048 \<Longrightarrow> uint c div 64 < 32" "0 \<le> uint c div 64"
    using uint16_bound [of c] by (simp_all add: pos_imp_zdiv_nonneg_iff)
  ultimately show "0 \<notin> set (enc_unit c)" using uint16_bound [of c]
    by (auto simp: enc_unit_def Let_def)
  show "enc_unit c \<noteq> []" by (simp add: enc_unit_def Let_def)
qed

section \<open>Strings\<close>

lemma strlen_ext:
  "\<forall>b \<in> set ts. ext_byte b \<Longrightarrow> length ts \<le> e \<Longrightarrow> e < 5 \<Longrightarrow>
   strlen8to16_loop sc (ts @ u) len (int e) = strlen8to16_loop sc u len (int (e - length ts))"
proof (induction ts arbitrary: e)
  case (Cons b ts)
  then have "b \<noteq> 0" "char_ext sc b AND 0xc0 = 0x80" by (auto simp: ext_test ext_byte_def)
  moreover have "i32 (int e - 1) = int (e - 1)" using Cons.prems by (auto simp: i32_def)
  ultimately show ?case using Cons.IH [of "e - 1"] Cons.prems by simp
qed simp

lemma strlen_lead:
  assumes "\<not> ext_byte b" "b \<noteq> 0"
  shows "strlen8to16_loop sc (b # u) len e =
   strlen8to16_loop sc u (len + (if utf8_codepoint_len b = 4 then 2 else 1)) (int (utf8_codepoint_len b) - 1)"
proof -
  have "(int (utf8_codepoint_len b) - 1 = 3) = (utf8_codepoint_len b = 4)" by linarith
  then show ?thesis using assms by (simp add: ext_test seq_length Let_def)
qed

lemma copy_step:
  assumes "b \<noteq> 0" "getUtf32FromUtf8 sc (b # p) = Inr (ret, k)" "dest + length (char_units ret) \<le> length dst"
  shows "strcpy8to16_loop sc (b # p) (Some dst) dest =
    strcpy8to16_loop sc (drop k (b # p)) (Some (write_at dest (char_units ret) dst)) (dest + length (char_units ret))"
  using assms by (subst strcpy8to16_loop.simps) (simp add: wr_units_def wr_list_ok)

lemma copylen_step:
  assumes "0 < n" "getUtf32FromUtf8 sc p = Inr (ret, k)" "dest + length (char_units ret) \<le> length dst"
  shows "strcpylen8to16_loop sc p n (Some dst) dest =
    strcpylen8to16_loop sc (drop k p) (n - int k) (Some (write_at dest (char_units ret) dst)) (dest + length (char_units ret))"
  using assms by (subst strcpylen8to16_loop.simps) (simp add: wr_units_def wr_list_ok)

lemma copy_end: "strcpy8to16_loop sc (0 # p) dst dest = Inr (dst, dest)"
  by (simp add: strcpy8to16_loop.simps)

lemma strlen_end: "strlen8to16_loop sc (0 # p) len e = Inr len"
  by simp

text \<open>Well-formed strings.\<close>

lemma strlen_unit:
  "strlen8to16_loop sc (enc_unit c @ u) len e = strlen8to16_loop sc u (len + 1) (int 0)"
proof -
  obtain a ts where e: "enc_unit c = a # ts" "\<forall>b \<in> set ts. ext_byte b" "\<not> ext_byte a" "a \<noteq> 0" "utf8_codepoint_len a = Suc (length ts)" "length ts < 3"
  proof -
    have x: "0 \<le> uint c div 4096" "uint c div 4096 < 16" "0 \<le> uint c div 64" "uint c < 2048 \<Longrightarrow> uint c div 64 < 32"
      using uint16_bound [of c] by (simp_all add: pos_imp_zdiv_nonneg_iff)
    show thesis using x uint16_bound [of c]
      by (intro that [of "hd (enc_unit c)" "tl (enc_unit c)"])
        (auto simp: enc_unit_def Let_def ext_byte_def codepoint_len enc_unit_nonzero word_uint_eq_iff)
  qed
  show ?thesis unfolding e(1) append_Cons strlen_lead [OF e(3,4)] e(5)
    using strlen_ext [OF e(2), of "length ts"] e(6) by simp
qed

lemma strlen_mutf8: "strlen8to16_loop sc (mutf8 s @ 0 # p) len e = Inr (len + of_nat (length s))"
proof (induction s arbitrary: len e)
  case (Cons c s)
  then show ?case by (simp add: strlen_unit add.assoc del: strlen8to16_loop.simps)
qed (simp add: strlen_end)

lemma copy_mutf8:
  "dest + length s \<le> length dst \<Longrightarrow> strcpy8to16_loop sc (mutf8 s @ 0 # p) (Some dst) dest = Inr (Some (write_at dest s dst), dest + length s)"
proof (induction s arbitrary: dst dest)
  case (Cons c s)
  obtain b bs where b: "enc_unit c = b # bs" "b \<noteq> 0" using enc_unit_nonzero [of c] by (cases "enc_unit c") auto
  have g: "getUtf32FromUtf8 sc (b # bs @ mutf8 s @ 0 # p) = Inr (ucast c, Suc (length bs))" using get_unit [of sc c "mutf8 s @ 0 # p"] b by simp
  have "strcpy8to16_loop sc (mutf8 (c # s) @ 0 # p) (Some dst) dest = strcpy8to16_loop sc (mutf8 s @ 0 # p) (Some (write_at dest [c] dst)) (dest + 1)"
    using copy_step [OF b(2) g, of dest dst] Cons.prems b(1) by (simp add: char_units_unit)
  then show ?case using Cons write_at_append [of "dest + 1" dest "[c]" s dst] by simp
qed (simp add: copy_end)

lemma copylen_mutf8:
  "dest + length s \<le> length dst \<Longrightarrow> strcpylen8to16_loop sc (mutf8 s @ p) (int (length (mutf8 s)) + n) (Some dst) dest =
   strcpylen8to16_loop sc p n (Some (write_at dest s dst)) (dest + length s)" if "0 \<le> n"
proof (induction s arbitrary: dst dest)
  case (Cons c s)
  have n: "0 < int (length (mutf8 (c # s))) + n" using that enc_unit_nonzero [of c] by (simp add: add_pos_nonneg)
  show ?case using copylen_step [OF n get_unit [of sc c "mutf8 s @ p", folded append_assoc], of dest dst] Cons
      write_at_append [of "dest + 1" dest "[c]" s dst] by (simp add: char_units_unit)
qed simp

text \<open>
  C21: \<open>strnlen16to8\<close> returns the exact length of the modified UTF-8 string, for every length that \<open>size_t\<close> can hold, up
  to its largest result \<open>SIZE_MAX - 1\<close>, which stands for every length from there on: a caller that adds one for the
  terminator never wraps.
\<close>

theorem strnlen16to8_saturates:
  assumes "unat len \<le> length s"
  shows "strnlen16to8 s len = Inr (of_nat (min (length (mutf8 (take (unat len) s))) (unat (SIZE_MAX - 1))))"
  using strnlen16to8_eq [OF assms] by (simp add: SIZE_MAX_def)

theorem strnlen16to8_saturates_witness: "strnlen16to8 [0x41, 0, 0x20AC, 0xD83D] 3 = Inr 6"
proof -
  have "length (mutf8 (take 3 [0x41, 0, 0x20AC, 0xD83D])) = 6" by (simp add: enc_unit_def)
  then show ?thesis using strnlen16to8_saturates [of 3 "[0x41, 0, 0x20AC, 0xD83D]"] by (simp add: SIZE_MAX_def)
qed

lemma strndup_ok:
  assumes "3 * length s < 2 ^ 64 - 2"
  shows "strndup16to8 True g (Some s) (of_nat (length s)) = Inr (Some (mutf8 s @ [0]))"
proof -
  let ?n = "of_nat (length s) :: 64 word" and ?m = "length (mutf8 s)"
  have b: "?m < 2 ^ 64 - 2" "length s < 2 ^ 64" using assms length_mutf8 [of s] by linarith+
  have n: "unat ?n = length s" using b by (simp add: unsigned_of_nat take_bit_eq_mod)
  have m: "unat (of_nat ?m :: 64 word) = ?m" "unat (of_nat ?m + 1 :: 64 word) = Suc ?m"
    using b(1) word64_add [of "of_nat ?m" 1] by (simp_all add: unsigned_of_nat take_bit_eq_mod)
  have "strnlen16to8 s ?n = Inr (of_nat ?m)" using strnlen16to8_eq [of ?n s] n b(1) by simp
  moreover have "\<not> SIZE_MAX - 1 \<le> (of_nat ?m :: 64 word)" using b(1) m by (simp add: SIZE_MAX_def word_le_nat_alt)
  moreover have "strncpy16to8 (map g [0..<Suc ?m]) s ?n = Inr (mutf8 s @ [0])"
    using strncpy_loop [of "length s" s 0 "map g [0..<Suc ?m]"] n by (simp add: strncpy16to8_def write_at_def)
  ultimately show ?thesis using m by (simp add: strndup16to8_def malloc_n_def del: upt_Suc)
qed

lemma strdup8to16_ok:
  assumes "2 * length s < 2 ^ 64"
  shows "strdup8to16 sc True g (Some (mutf8 s @ 0 # p)) = Inr (Some (Some s, length s))"
proof -
  let ?n = "of_nat (length s) :: 64 word"
  have n: "unat ?n = length s" using assms by (simp add: unsigned_of_nat take_bit_eq_mod)
  have l: "strlen8to16 sc (mutf8 s @ 0 # p) = Inr ?n" using strlen_mutf8 [of sc s p 0 0] by (simp add: strlen8to16_def)
  have "\<not> SIZE_MAX div ?n < 2" if "?n \<noteq> 0"
  proof -
    have "2 * length s \<le> 2 ^ 64 - 1" "0 < length s" using assms that by auto
    then have "2 \<le> (2 ^ 64 - 1) div length s" by (simp add: less_eq_div_iff_mult_less_eq)
    then show ?thesis using n by (simp add: word_less_nat_alt unat_div SIZE_MAX_def)
  qed
  moreover have "strcpy8to16 sc (Some (map g [0..<length s])) (mutf8 s @ 0 # p) = Inr (Some s, length s)"
    using copy_mutf8 [of 0 s "map g [0..<length s]"] by (simp add: strcpy8to16_def write_at_def)
  ultimately show ?thesis using l n by (auto simp: strdup8to16_def malloc_n_def)
qed

text \<open>
  C19: every sequence of 16-bit units, zeros and surrogates without a partner included, survives the way to modified
  UTF-8 and back: \<open>strndup16to8\<close> makes a string whose only zero byte is its terminator, and \<open>strdup8to16\<close> and
  \<open>strcpylen8to16\<close> give back the units, on machines with signed and with unsigned \<open>char\<close>.
\<close>

theorem jstring_roundtrip:
  assumes "3 * length s < 2 ^ 64 - 2" "length d = length s"
  shows "\<exists>t. strndup16to8 True g (Some s) (of_nat (length s)) = Inr (Some (t @ [0])) \<and> 0 \<notin> set t
    \<and> strdup8to16 sc True g' (Some (t @ [0])) = Inr (Some (Some s, length s))
    \<and> strcpylen8to16 sc (Some d) (t @ [0]) (int (length t)) = Inr (Some s, length s)"
proof (intro exI [of _ "mutf8 s"] conjI)
  show "strndup16to8 True g (Some s) (of_nat (length s)) = Inr (Some (mutf8 s @ [0]))" using assms(1) by (rule strndup_ok)
  show "0 \<notin> set (mutf8 s)" by (induction s) (simp_all add: enc_unit_nonzero)
  show "strdup8to16 sc True g' (Some (mutf8 s @ [0])) = Inr (Some (Some s, length s))" using assms(1) by (intro strdup8to16_ok) linarith
  show "strcpylen8to16 sc (Some d) (mutf8 s @ [0]) (int (length (mutf8 s))) = Inr (Some s, length s)"
    using copylen_mutf8 [of 0 0 s d sc "[0]"] assms(2) by (simp add: strcpylen8to16_def strcpylen8to16_loop.simps write_at_def)
qed

theorem jstring_roundtrip_witness:
  "\<exists>t. strndup16to8 True (\<lambda>_. 7) (Some [0x41, 0, 0xD83D]) 3 = Inr (Some (t @ [0])) \<and> 0 \<notin> set t
    \<and> strdup8to16 True True (\<lambda>_. 9) (Some (t @ [0])) = Inr (Some (Some [0x41, 0, 0xD83D], 3))
    \<and> strcpylen8to16 True (Some [1, 2, 3]) (t @ [0]) (int (length t)) = Inr (Some [0x41, 0, 0xD83D], 3)"
  using jstring_roundtrip [of "[0x41, 0, 0xD83D]" "[1, 2, 3]" "\<lambda>_. 7" True "\<lambda>_. 9"] by (simp add: numeral_3_eq_3)

lemma copylen_step_short:
  assumes "0 < n" "getUtf32FromUtf8 sc p = Inr (ret, k)" "length dst < dest + length (char_units ret)"
  shows "strcpylen8to16_loop sc p n (Some dst) dest = Inl Out_of_bounds"
  using assms by (subst strcpylen8to16_loop.simps) (simp add: wr_units_def wr_list_short)

lemma copylen_short:
  "length dst < dest + length s \<Longrightarrow> dest \<le> length dst \<Longrightarrow>
   strcpylen8to16_loop sc (mutf8 s @ p) (int (length (mutf8 s)) + n) (Some dst) dest = Inl Out_of_bounds" if "0 \<le> n"
proof (induction s arbitrary: dst dest)
  case (Cons c s)
  have n: "0 < int (length (mutf8 (c # s))) + n" using that enc_unit_nonzero [of c] by (simp add: add_pos_nonneg)
  note g = get_unit [of sc c "mutf8 s @ p"]
  show ?case
  proof (cases "dest < length dst")
    case True
    then show ?thesis using copylen_step [OF n g, of dest dst] Cons by (simp add: char_units_unit)
  next
    case False
    then show ?thesis using copylen_step_short [OF n g, of dst dest] by (simp add: char_units_unit)
  qed
qed simp

lemma copylen_stuck: "0 < n \<Longrightarrow> strcpylen8to16_loop sc (0 # p) n (Some dst) dest = Inl Out_of_bounds"
proof (induction "length dst - dest" arbitrary: dst dest)
  case 0
  have g: "getUtf32FromUtf8 sc (0 # p) = Inr (0, 0)" by (simp add: getUtf32FromUtf8_def rd_def char_ext_def)
  show ?case using 0 copylen_step_short [OF 0(2) g, of dst dest] by (simp add: char_units_def)
next
  case (Suc m)
  have g: "getUtf32FromUtf8 sc (0 # p) = Inr (0, 0)" by (simp add: getUtf32FromUtf8_def rd_def char_ext_def)
  show ?case using Suc copylen_step [OF Suc(3) g, of dest dst] by (simp add: char_units_def)
qed

text \<open>
  C22: \<open>strcpylen8to16\<close> does not get past a zero byte in front of the end it was given: it stores zeros until it
  leaves the destination, whatever its size.
\<close>

theorem strcpylen8to16_zero_byte:
  assumes "int (length (mutf8 s)) < n"
  shows "strcpylen8to16 sc (Some d) (mutf8 s @ 0 # p) n = Inl Out_of_bounds"
proof (cases "length s \<le> length d")
  case True
  then show ?thesis using copylen_mutf8 [of "n - int (length (mutf8 s))" 0 s d sc "0 # p"] assms
    by (simp add: strcpylen8to16_def copylen_stuck)
next
  case False
  then show ?thesis using copylen_short [of "n - int (length (mutf8 s))" d 0 s sc "0 # p"] assms by (simp add: strcpylen8to16_def)
qed

theorem strcpylen8to16_zero_byte_witness:
  "strcpylen8to16 False (Some (replicate 1000 7)) [0x48, 0x69, 0, 0x21] 4 = Inl Out_of_bounds"
  using strcpylen8to16_zero_byte [of "[0x48, 0x69]" 4 False "replicate 1000 7" "[0x21]"] by (simp add: enc_unit_def byte_of_def)

section \<open>Arbitrary bytes\<close>

lemma seq_any:
  "0 \<notin> set t \<Longrightarrow> \<exists>ts t' r. t = ts @ t' \<and> (\<forall>b \<in> set ts. ext_byte b) \<and> length ts \<le> n \<and>
     seq_loop sc n (t @ 0 # p) ret i = Inr (r, i + length ts) \<and> (length ts = n \<or> t' = [] \<or> \<not> ext_byte (hd t')) \<and>
     ((uint ret + 1) * 64 ^ n \<le> 65536 \<longrightarrow> uint r < 65536)"
proof (induction n arbitrary: t ret i)
  case 0
  show ?case by (rule exI [of _ "[]"]) simp
next
  case (Suc n)
  have stop: "seq_loop sc (Suc n) (t @ 0 # p) ret i = Inr (UTF16_REPLACEMENT_CHAR, i)" if "t = [] \<or> \<not> ext_byte (hd t)"
    using that by (cases t) (auto simp: lead_stop simp del: seq_loop.simps(2), simp)
  show ?case
  proof (cases "t = [] \<or> \<not> ext_byte (hd t)")
    case True
    then show ?thesis using stop [OF True] by (intro exI [of _ "[]"] exI [of _ t] exI [of _ UTF16_REPLACEMENT_CHAR]) (simp add: UTF16_REPLACEMENT_CHAR_def del: seq_loop.simps(2))
  next
    case False
    then obtain b t1 where t: "t = b # t1" "ext_byte b" by (cases t) auto
    define ret1 where "ret1 = utf8_shift_and_mask ret b"
    have small: "(uint ret1 + 1) * 64 ^ n \<le> 65536" if "(uint ret + 1) * 64 ^ Suc n \<le> 65536"
    proof -
      have p: "(1 :: int) \<le> 64 ^ n" by simp
      have "(uint ret + 1) * 64 \<le> (uint ret + 1) * 64 * 64 ^ n" using mult_left_mono [OF p, of "(uint ret + 1) * 64"] by simp
      moreover have a: "(uint ret + 1) * 64 * 64 ^ n \<le> 65536" using that by (simp only: power_Suc mult.assoc)
      ultimately have "(uint ret + 1) * 64 \<le> 65536" by (rule order_trans)
      then have "uint ret < 67108864" by simp
      then have "uint ret1 = uint ret * 64 + uint b mod 64" unfolding ret1_def by (rule shift_and_mask)
      moreover have "uint b mod 64 < 64" by simp
      ultimately have "uint ret1 + 1 \<le> (uint ret + 1) * 64" by (simp add: distrib_right)
      then have "(uint ret1 + 1) * 64 ^ n \<le> (uint ret + 1) * 64 * 64 ^ n" by (intro mult_right_mono) simp_all
      then show ?thesis using a by (rule order_trans)
    qed
    have "0 \<notin> set t1" using Suc.prems t(1) by simp
    from Suc.IH [OF this, of ret1 "i + 1"] obtain ts t' r where *: "t1 = ts @ t'" "\<forall>b \<in> set ts. ext_byte b" "length ts \<le> n" "seq_loop sc n (t1 @ 0 # p) ret1 (i + 1) = Inr (r, i + 1 + length ts)"
      "length ts = n \<or> t' = [] \<or> \<not> ext_byte (hd t')" "(uint ret1 + 1) * 64 ^ n \<le> 65536 \<longrightarrow> uint r < 65536"
      by blast
    then show ?thesis using t(2) small
      by (intro exI [of _ "b # ts"] exI [of _ t'] exI [of _ r]) (simp add: t(1) lead_ext ret1_def [symmetric] del: seq_loop.simps(2))
  qed
qed

lemma char_units_length: "length (char_units r) \<le> 2" "uint r < 65536 \<Longrightarrow> length (char_units r) = 1"
  by (auto simp: char_units_def word_le_def)

lemma lead_small:
  assumes "utf8_codepoint_len b \<noteq> 4"
  shows "(uint (word_of_int (lead_value b) :: 32 word) + 1) * 64 ^ (utf8_codepoint_len b - 1) \<le> 65536"
proof -
  have m: "0 \<le> uint b mod 16" "uint b mod 16 < 16" "0 \<le> uint b mod 32" "uint b mod 32 < 32" by simp_all
  then have "0 \<le> lead_value b" "lead_value b < 256" using uint_byte_bound [of b] unfolding lead_value_def by (auto intro: less_le_trans)
  then have "uint (word_of_int (lead_value b) :: 32 word) = lead_value b" by (simp add: take_bit_int_eq_self unsigned_of_int)
  then show ?thesis using assms m uint_byte_bound [of b]
    by (auto simp: lead_value_def codepoint_len split: if_splits)
qed

text \<open>\<open>fits t e\<close>: from the state \<open>e\<close> of \<open>expected\<close>, the units that the string \<open>t\<close> becomes are at most the counted ones.\<close>

definition fits :: "bool \<Rightarrow> byte list \<Rightarrow> byte list \<Rightarrow> int \<Rightarrow> bool" where
  "fits sc p t e \<longleftrightarrow> (\<exists>k us. length us \<le> k \<and> k \<le> 2 * length t \<and> (\<forall>len. strlen8to16_loop sc (t @ 0 # p) len e = Inr (len + of_nat k)) \<and>
     (\<forall>dst dest. dest + length us \<le> length dst \<longrightarrow>
        strcpy8to16_loop sc (t @ 0 # p) (Some dst) dest = Inr (Some (write_at dest us dst), dest + length us)))"

lemma fits_step:
  assumes "fits sc p t' e'" "b \<noteq> 0" "getUtf32FromUtf8 sc (b # t @ 0 # p) = Inr (r, Suc j)" "drop j (t @ 0 # p) = t' @ 0 # p"
    "\<And>len. strlen8to16_loop sc (b # t @ 0 # p) len e = strlen8to16_loop sc (t' @ 0 # p) (len + of_nat m) e'" "length (char_units r) \<le> m" "m + 2 * length t' \<le> 2 * length (b # t)"
  shows "fits sc p (b # t) e"
proof -
  obtain k us where f: "length us \<le> k" "k \<le> 2 * length t'" "\<And>len. strlen8to16_loop sc (t' @ 0 # p) len e' = Inr (len + of_nat k)"
    "\<And>dst dest. dest + length us \<le> length dst \<Longrightarrow> strcpy8to16_loop sc (t' @ 0 # p) (Some dst) dest = Inr (Some (write_at dest us dst), dest + length us)"
    using assms(1) unfolding fits_def by blast
  show ?thesis unfolding fits_def
  proof (intro exI [of _ "m + k"] exI [of _ "char_units r @ us"] conjI allI impI)
    show "length (char_units r @ us) \<le> m + k" using f(1) assms(6) by simp
    show "m + k \<le> 2 * length (b # t)" using f(2) assms(7) by linarith
    show "strlen8to16_loop sc ((b # t) @ 0 # p) len e = Inr (len + of_nat (m + k))" for len
      using assms(5) [of len] f(3) by (simp add: add.assoc del: strlen8to16_loop.simps)
    show "strcpy8to16_loop sc ((b # t) @ 0 # p) (Some dst) dest = Inr (Some (write_at dest (char_units r @ us) dst), dest + length (char_units r @ us))"
      if "dest + length (char_units r @ us) \<le> length dst" for dst dest
      using that copy_step [OF assms(2,3), of dest dst] f(4) [of "dest + length (char_units r)" "write_at dest (char_units r) dst"] assms(4)
        write_at_append [of "dest + length (char_units r)" dest "char_units r" us dst]
      by (simp add: add.assoc)
  qed
qed

lemma strlen_sequence:
  assumes "\<not> ext_byte b" "b \<noteq> 0" "\<forall>b \<in> set ts. ext_byte b" "length ts \<le> utf8_codepoint_len b - 1"
  shows "strlen8to16_loop sc (b # ts @ u) len e =
    strlen8to16_loop sc u (len + of_nat (if utf8_codepoint_len b = 4 then 2 else 1)) (int (utf8_codepoint_len b - 1 - length ts))"
proof -
  have n: "utf8_codepoint_len b - 1 < 5" "int (utf8_codepoint_len b) - 1 = int (utf8_codepoint_len b - 1)" by (auto simp: codepoint_len)
  show ?thesis unfolding strlen_lead [OF assms(1,2)] n(2) strlen_ext [OF assms(3,4) n(1)] by simp
qed

lemma fits_lead:
  assumes "\<not> ext_byte b" "b \<noteq> 0" "0 \<notin> set t"
    "\<And>t' e'. \<exists>ts. t = ts @ t' \<Longrightarrow> t' = [] \<or> \<not> ext_byte (hd t') \<or> e' = 0 \<Longrightarrow> fits sc p t' e'"
  shows "fits sc p (b # t) e"
proof -
  let ?n = "utf8_codepoint_len b - 1"
  obtain ts t' r where *: "t = ts @ t'" "\<forall>b \<in> set ts. ext_byte b" "length ts \<le> ?n"
    "seq_loop sc ?n (t @ 0 # p) (word_of_int (lead_value b)) 1 = Inr (r, 1 + length ts)"
    "length ts = ?n \<or> t' = [] \<or> \<not> ext_byte (hd t')" "(uint (word_of_int (lead_value b) :: 32 word) + 1) * 64 ^ ?n \<le> 65536 \<longrightarrow> uint r < 65536"
    using seq_any [OF assms(3), of ?n sc p "word_of_int (lead_value b)" 1] by blast
  define m :: nat where "m = (if utf8_codepoint_len b = 4 then 2 else 1)"
  have s: "strlen8to16_loop sc (b # t @ 0 # p) len e = strlen8to16_loop sc (t' @ 0 # p) (len + of_nat m) (int (?n - length ts))" for len
    unfolding *(1) append_assoc m_def by (rule strlen_sequence [OF assms(1,2) *(2,3)])
  have g: "getUtf32FromUtf8 sc (b # t @ 0 # p) = Inr (r, Suc (length ts))" unfolding get_lead [OF assms(1,2)] *(4) by simp
  have "length (char_units r) \<le> m" using char_units_length [of r] lead_small [of b] *(6) by (auto simp: m_def)
  moreover have "fits sc p t' (int (?n - length ts))" using *(1,3,5) by (intro assms(4)) auto
  moreover have "m + 2 * length t' \<le> 2 * length (b # t)" using *(1) by (simp add: m_def)
  moreover have "drop (length ts) (t @ 0 # p) = t' @ 0 # p" using *(1) by simp
  ultimately show ?thesis using fits_step [OF _ assms(2) g _ s] by blast
qed

lemma fits_any:
  "0 \<notin> set t \<Longrightarrow> int (length t) \<le> 2147483648 \<Longrightarrow> t = [] \<or> \<not> ext_byte (hd t) \<or> e \<le> 0 \<and> int (length t) \<le> e + 2147483648 \<Longrightarrow> fits sc p t e"
proof (induction t arbitrary: e rule: length_induct)
  case (1 t)
  show ?case
  proof (cases t)
    case Nil
    then show ?thesis unfolding fits_def by (intro exI [of _ 0] exI [of _ "[]"]) (simp add: copy_end)
  next
    case t: (Cons b t1)
    have b: "b \<noteq> 0" "0 \<notin> set t1" using 1(2) t by auto
    show ?thesis
    proof (cases "ext_byte b")
      case True
      have e: "e \<le> 0" "int (length t1) \<le> e - 1 + 2147483648" using 1(4) t True by auto
      then have "i32 (e - 1) = e - 1" by (auto simp: i32_def)
      then have s: "strlen8to16_loop sc (b # t1 @ 0 # p) len e = strlen8to16_loop sc (t1 @ 0 # p) (len + of_nat 1) (e - 1)" for len
        using e(1) True b(1) by (simp add: ext_test)
      have "fits sc p t1 (e - 1)" using 1(1,3) b(2) e t by (simp del: of_nat_Suc)
      moreover have "getUtf32FromUtf8 sc (b # t1 @ 0 # p) = Inr (UTF16_REPLACEMENT_CHAR, Suc 0)" using get_ext [OF True] by simp
      moreover have "length (char_units UTF16_REPLACEMENT_CHAR) \<le> 1" by (simp add: UTF16_REPLACEMENT_CHAR_def char_units_length)
      ultimately show ?thesis unfolding t using s by (intro fits_step [OF _ b(1), of sc p t1 "e - 1" _ _ 0 _ 1]) simp_all
    next
      case False
      have "fits sc p t' e'" if "\<exists>ts. t1 = ts @ t'" "t' = [] \<or> \<not> ext_byte (hd t') \<or> e' = 0" for t' e' using that 1 b(2) t by auto
      then show ?thesis unfolding t using False b by (intro fits_lead) blast+
    qed
  qed
qed

text \<open>
  C20: for every zero-terminated string of fewer than \<open>2 ^ 31\<close> bytes, well-formed or not, \<open>strlen8to16\<close> measures at least
  the units that \<open>strcpy8to16\<close> stores: \<open>strdup8to16\<close> stays within what it allocates.
\<close>

theorem strdup8to16_within:
  assumes "0 \<notin> set t" "length t < 2 ^ 31"
  shows "\<exists>d n. strdup8to16 sc True g (Some (t @ 0 # p)) = Inr (Some (Some d, n)) \<and> n \<le> length d \<and> strlen8to16 sc (t @ 0 # p) = Inr (of_nat (length d))"
proof -
  have "fits sc p t 0" using assms by (intro fits_any) auto
  then obtain k us where f: "length us \<le> k" "k \<le> 2 * length t" "strlen8to16_loop sc (t @ 0 # p) 0 0 = Inr (of_nat k)"
    "\<And>dst. length us \<le> length dst \<Longrightarrow> strcpy8to16_loop sc (t @ 0 # p) (Some dst) 0 = Inr (Some (write_at 0 us dst), length us)"
    unfolding fits_def by (metis add_0)
  have k: "k < 2 ^ 32" using f(2) assms(2) by simp
  then have n: "unat (of_nat k :: 64 word) = k" by (simp add: unsigned_of_nat take_bit_eq_mod)
  have "\<not> SIZE_MAX div of_nat k < 2" if "of_nat k \<noteq> (0 :: 64 word)"
  proof -
    have "0 < k" using that by (cases k) auto
    then have "2 \<le> (2 ^ 64 - 1) div k" using k by (simp add: less_eq_div_iff_mult_less_eq)
    then show ?thesis using n by (simp add: word_less_nat_alt unat_div SIZE_MAX_def)
  qed
  then have "strdup8to16 sc True g (Some (t @ 0 # p)) = Inr (Some (Some (write_at 0 us (map g [0..<k])), length us))"
    using f(1,3) f(4) [of "map g [0..<k]"] n by (auto simp: strdup8to16_def strlen8to16_def strcpy8to16_def malloc_n_def)
  then show ?thesis using f(1,3) by (simp add: strlen8to16_def)
qed

theorem strdup8to16_within_witness:
  "\<exists>d n. strdup8to16 True True (\<lambda>_. 0) (Some ([0xF0, 0x41, 0xE2, 0x82, 0x80, 0x80] @ 0 # [])) = Inr (Some (Some d, n)) \<and> n \<le> length d
    \<and> strlen8to16 True ([0xF0, 0x41, 0xE2, 0x82, 0x80, 0x80] @ 0 # []) = Inr (of_nat (length d))"
  by (rule strdup8to16_within) simp_all

end
