(* ===== verification/Mincrypt_Hash.thy ===== *)
theory Mincrypt_Hash
  imports "HOL-Library.Word"
begin

text \<open>
  What the hashes of \<open>libmincrypt\<close> share (\<open>mincrypt/hash-internal.h\<close>): the context, the big-endian words, and the
  scheme of \<open>SHA_update\<close> and \<open>SHA_final\<close> that \<open>sha.c\<close> and \<open>sha256.c\<close> both follow. The scheme is the locale
  \<open>block_hash\<close>; in it, feeding a message in pieces and padding it is shown to compress the blocks of the
  padded message one after the other.
\<close>

unbundle bit_operations_syntax

section \<open>The context\<close>

text \<open>The function tables are named by the hash they belong to.\<close>

datatype HASH_VTAB = SHA_VTAB | SHA256_VTAB

record HASH_CTX =
  ctx_f :: HASH_VTAB
  ctx_count :: "64 word"
  ctx_buf :: "8 word list"
  ctx_state :: "32 word list"

text \<open>A context as the caller allocates it, with whatever the memory held.\<close>

definition ctx_ok :: "HASH_CTX \<Rightarrow> bool" where
  "ctx_ok ctx \<longleftrightarrow> length (ctx_buf ctx) = 64 \<and> length (ctx_state ctx) = 8"

text \<open>Four bytes as a big-endian word, and back.\<close>

definition be_word :: "8 word list \<Rightarrow> 32 word" where
  "be_word p = push_bit 24 (ucast (p ! 0)) OR push_bit 16 (ucast (p ! 1)) OR push_bit 8 (ucast (p ! 2)) OR ucast (p ! 3)"

definition word_be :: "32 word \<Rightarrow> 8 word list" where
  "word_be tmp = [ucast (drop_bit 24 tmp), ucast (drop_bit 16 tmp), ucast (drop_bit 8 tmp), ucast tmp]"

lemma length_word_be [simp]: "length (word_be w) = 4"
  by (simp add: word_be_def)

lemma length_concat_word_be [simp]: "length (concat (map word_be ws)) = 4 * length ws"
  by (induction ws) simp_all

section \<open>Blocks and padding\<close>

text \<open>The blocks of a message, and the padding of FIPS 180-4.\<close>

function blocks :: "'a list \<Rightarrow> 'a list list" where
  "blocks xs = (if length xs < 64 then [] else take 64 xs # blocks (drop 64 xs))"
  by pat_completeness auto
termination
  by (relation "measure length") auto

declare blocks.simps [simp del]

definition length_bytes :: "nat \<Rightarrow> 8 word list" where
  "length_bytes n = map (\<lambda>i. of_nat (8 * n div 256 ^ (7 - i))) [0..<8]"

definition pad_message :: "8 word list \<Rightarrow> 8 word list" where
  "pad_message msg = msg @ 0x80 # replicate ((119 - length msg mod 64) mod 64) 0 @ length_bytes (length msg)"

lemma blocks_short: "length xs < 64 \<Longrightarrow> blocks xs = []"
  by (simp add: blocks.simps)

lemma blocks_block: "length xs = 64 \<Longrightarrow> blocks (xs @ ys) = xs # blocks ys"
  by (subst blocks.simps) simp

lemma blocks_append: "64 dvd length xs \<Longrightarrow> blocks (xs @ ys) = blocks xs @ blocks ys"
proof (induction xs rule: blocks.induct)
  case (1 xs)
  show ?case
  proof (cases "length xs < 64")
    case True
    then have "xs = []" using 1(2) by (auto elim!: dvdE)
    then show ?thesis by (simp add: blocks_short)
  next
    case False
    then have "64 dvd length (drop 64 xs)" using 1(2) by (simp add: dvd_minus_self)
    from 1(1) [OF False this] have "blocks (take 64 xs @ drop 64 xs @ ys) = (take 64 xs # blocks (drop 64 xs)) @ blocks ys"
      using False by (simp add: blocks_block del: append_take_drop_id)
    moreover have "take 64 xs # blocks (drop 64 xs) = blocks xs" using False by (subst (2) blocks.simps) simp
    moreover have "take 64 xs @ drop 64 xs @ ys = xs @ ys" by (simp add: append_assoc [symmetric] del: append_assoc)
    ultimately show ?thesis by simp
  qed
qed

text \<open>The number of zeros that take a length with remainder \<open>r\<close> to one with remainder 56.\<close>

lemma zeros: "r < 64 \<Longrightarrow> (120 - r) mod 64 = (if r \<le> 56 then 56 - r else 120 - r :: nat)"
  by (simp add: mod_if)

lemma zeros_Suc: "r < 64 \<Longrightarrow> (119 - r) mod 64 = (if r \<le> 55 then 55 - r else 119 - r :: nat)"
  by (simp add: mod_if)

lemma length_pad_message: "64 dvd length (pad_message msg)"
proof -
  define r where "r = length msg mod 64"
  have "r < 64" by (simp add: r_def)
  then have "(r + 9 + (119 - r) mod 64) mod 64 = 0"
    by (simp add: zeros_Suc)
  moreover have "length (pad_message msg) mod 64 = (r + 9 + (119 - r) mod 64) mod 64"
    by (simp add: pad_message_def length_bytes_def r_def mod_simps add.assoc)
  ultimately show ?thesis by auto
qed

lemma and_63: "(w :: 64 word) AND 63 = take_bit 6 w"
  by (simp add: take_bit_eq_mask mask_eq_exp_minus_1)

lemma unat_and_63: "unat ((of_nat n :: 64 word) AND 63) = n mod 64"
  by (simp add: and_63 unsigned_take_bit_eq unsigned_of_nat) (simp add: take_bit_eq_mod)

text \<open>The padding loops end: each turn takes the count one closer to a remainder of 56.\<close>

definition pad_distance :: "HASH_CTX \<Rightarrow> nat" where
  "pad_distance ctx = (120 - unat (ctx_count ctx AND 63)) mod 64"

lemma pad_distance_less:
  assumes "ctx_count ctx AND 63 \<noteq> 56" "ctx_count ctx' = ctx_count ctx + 1"
  shows "pad_distance ctx' < pad_distance ctx"
proof -
  define n where "n = unat (ctx_count ctx)"
  have n: "ctx_count ctx = of_nat n" "ctx_count ctx' = of_nat (Suc n)" using assms(2) by (simp_all add: n_def)
  have "n mod 64 \<noteq> 56" using assms(1) unat_and_63 [of n] by (auto simp: n(1) word_unat_eq_iff)
  moreover define r where "r = n mod 64"
  moreover have "r < 64" "Suc n mod 64 = (if r = 63 then 0 else Suc r)" by (simp_all add: r_def mod_Suc)
  ultimately show ?thesis
    unfolding pad_distance_def n unat_and_63 r_def [symmetric] by (auto simp: zeros)
qed

section \<open>Feeding and finishing\<close>

locale block_hash =
  fixes Transform :: "HASH_CTX \<Rightarrow> HASH_CTX"
    and loop :: "nat \<Rightarrow> 8 word list \<Rightarrow> HASH_CTX \<Rightarrow> HASH_CTX"
    and update :: "HASH_CTX \<Rightarrow> 8 word list \<Rightarrow> HASH_CTX"
    and pad :: "HASH_CTX \<Rightarrow> HASH_CTX"
    and put_length :: "HASH_CTX \<Rightarrow> 64 word \<Rightarrow> HASH_CTX"
    and compress :: "32 word list \<Rightarrow> 8 word list \<Rightarrow> 32 word list"
  assumes transform: "ctx_ok ctx \<Longrightarrow> Transform ctx = ctx\<lparr>ctx_state := compress (ctx_state ctx) (ctx_buf ctx)\<rparr>"
    and compress_length: "length s = 8 \<Longrightarrow> length blk = 64 \<Longrightarrow> length (compress s blk) = 8"
    and loop_Nil: "loop i [] ctx = ctx"
    and loop_Cons: "loop i (b # p) ctx =
      (if i + 1 = 64 then loop 0 p (Transform (ctx\<lparr>ctx_buf := (ctx_buf ctx)[i := b]\<rparr>))
       else loop (i + 1) p (ctx\<lparr>ctx_buf := (ctx_buf ctx)[i := b]\<rparr>))"
    and update: "update ctx data =
      loop (unat (ctx_count ctx AND 63)) data (ctx\<lparr>ctx_count := ctx_count ctx + of_nat (length data)\<rparr>)"
    and pad: "pad ctx = (if ctx_count ctx AND 63 = 56 then ctx else pad (update ctx [0]))"
    and put_length: "put_length ctx cnt = fold (\<lambda>i c. update c [ucast (drop_bit ((7 - i) * 8) cnt)]) [0..<8] ctx"
begin

text \<open>The context after a message: the full blocks are compressed, the rest is in the buffer.\<close>

definition fed :: "32 word list \<Rightarrow> 8 word list \<Rightarrow> HASH_CTX \<Rightarrow> bool" where
  "fed s0 msg ctx \<longleftrightarrow> ctx_ok ctx \<and> length s0 = 8 \<and> ctx_count ctx = of_nat (length msg)
     \<and> ctx_state ctx = foldl compress s0 (blocks msg)
     \<and> (\<exists>done. 64 dvd length done \<and> msg = done @ take (length msg mod 64) (ctx_buf ctx))"

lemma fed_one:
  assumes "fed s0 msg ctx"
  shows "fed s0 (msg @ [b]) (loop (length msg mod 64) [b] (ctx\<lparr>ctx_count := ctx_count ctx + 1\<rparr>))"
proof -
  let ?i = "length msg mod 64" and ?c = "ctx\<lparr>ctx_count := ctx_count ctx + 1\<rparr>"
  obtain xs where ok: "ctx_ok ctx" "length s0 = 8" "ctx_count ctx = of_nat (length msg)" "ctx_state ctx = foldl compress s0 (blocks msg)"
    and xs: "64 dvd length xs" "msg = xs @ take ?i (ctx_buf ctx)" using assms by (auto simp: fed_def)
  have i: "?i < 64" "length (ctx_buf ctx) = 64" using ok(1) by (simp_all add: ctx_ok_def)
  let ?buf = "(ctx_buf ctx)[?i := b]"
  have front: "take (Suc ?i) ?buf = take ?i (ctx_buf ctx) @ [b]" using i by (simp add: take_Suc_conv_app_nth)
  have "blocks msg = blocks xs @ blocks (take ?i (ctx_buf ctx))" using blocks_append [OF xs(1)] xs(2) by metis
  then have full: "blocks msg = blocks xs" using i by (simp add: blocks_short)
  have cnt: "ctx_count ctx + 1 = of_nat (length (msg @ [b]))" using ok(3) by simp
  have msg: "msg @ [b] = xs @ take (Suc ?i) ?buf" using front xs(2) by (metis append.assoc)
  then have new: "blocks (msg @ [b]) = blocks xs @ blocks (take (Suc ?i) ?buf)" using blocks_append [OF xs(1)] by metis
  show ?thesis
  proof (cases "?i = 63")
    case True
    then have "take (Suc ?i) ?buf = ?buf" "length (msg @ [b]) mod 64 = 0" using i by (simp_all add: mod_Suc)
    then have "blocks (msg @ [b]) = blocks xs @ [?buf]" "64 dvd length (msg @ [b])"
      using new blocks_block [of ?buf "[]"] i by (simp_all add: blocks_short dvd_eq_mod_eq_0)
    then show ?thesis using True ok i full cnt transform [of "?c\<lparr>ctx_buf := ?buf\<rparr>"] compress_length [of "ctx_state ctx" ?buf]
      by (simp add: fed_def loop_Cons loop_Nil ctx_ok_def mod_Suc)
  next
    case False
    then have s: "Suc ?i < 64" "length (msg @ [b]) mod 64 = Suc ?i" using i by (simp_all add: mod_Suc)
    then have "blocks (msg @ [b]) = blocks msg" using new full by (simp add: blocks_short)
    then show ?thesis using s ok i cnt msg xs(1) by (auto simp: fed_def loop_Cons loop_Nil ctx_ok_def)
  qed
qed

lemma fed_index: "fed s0 msg ctx \<Longrightarrow> unat (ctx_count ctx AND 63) = length msg mod 64"
  by (simp add: fed_def unat_and_63)

text \<open>Feeding bytes at once or one by one is the same.\<close>

lemma loop_append: "loop i (xs @ ys) ctx = loop ((i + length xs) mod 64) ys (loop i xs ctx)" if "i < 64"
  using that
proof (induction xs arbitrary: i ctx)
  case (Cons x xs)
  have "(63 + Suc n) mod 64 = n mod 64" for n :: nat using mod_add_self1 [of 64 n] by simp
  then show ?case using Cons.IH [of 0] Cons.IH [of "Suc i"] Cons.prems by (cases "i = 63") (simp_all add: loop_Cons)
qed (simp add: loop_Nil)

lemma Transform_ok: "ctx_ok ctx \<Longrightarrow> ctx_ok (Transform ctx)"
  using compress_length by (simp add: transform ctx_ok_def)

lemma Transform_count: "ctx_ok ctx \<Longrightarrow> Transform (ctx\<lparr>ctx_count := n\<rparr>) = (Transform ctx)\<lparr>ctx_count := n\<rparr>"
  by (simp add: transform ctx_ok_def)

lemma loop_count: "ctx_ok ctx \<Longrightarrow> loop i xs (ctx\<lparr>ctx_count := n\<rparr>) = (loop i xs ctx)\<lparr>ctx_count := n\<rparr> \<and> ctx_ok (loop i xs ctx)
    \<and> ctx_count (loop i xs ctx) = ctx_count ctx"
proof (induction xs arbitrary: i ctx)
  case (Cons x xs)
  let ?c = "ctx\<lparr>ctx_buf := (ctx_buf ctx)[i := x]\<rparr>"
  have c: "ctx_ok ?c" using Cons.prems by (simp add: ctx_ok_def)
  have "loop i (x # xs) (ctx\<lparr>ctx_count := n\<rparr>) =
      (if i + 1 = 64 then loop 0 xs (Transform (?c\<lparr>ctx_count := n\<rparr>)) else loop (i + 1) xs (?c\<lparr>ctx_count := n\<rparr>))"
    by (cases ctx) (simp add: loop_Cons)
  moreover have "ctx_count (Transform ?c) = ctx_count ctx" using c by (simp add: transform)
  ultimately show ?case using Cons.IH [OF c] Cons.IH [OF Transform_ok [OF c]] Transform_count [OF c]
    by (cases "i = 63") (auto simp: loop_Cons)
qed (simp add: loop_Nil)

lemma fed_update: "fed s0 msg ctx \<Longrightarrow> fed s0 (msg @ data) (update ctx data)"
proof (induction data rule: rev_induct)
  case Nil
  then show ?case by (simp add: update loop_Nil)
next
  case (snoc b data)
  have ok: "ctx_ok ctx" using snoc.prems by (simp add: fed_def)
  let ?i = "length msg mod 64" and ?n = "ctx_count ctx + of_nat (length data)"
  let ?l = "loop ?i data ctx"
  have l: "loop ?i data (ctx\<lparr>ctx_count := m\<rparr>) = ?l\<lparr>ctx_count := m\<rparr>" for m using loop_count [OF ok, of ?i data m] by simp
  have "of_nat (length (data @ [b])) = of_nat (length data) + (1 :: 64 word)" by simp
  then have "update ctx (data @ [b]) = loop ((?i + length data) mod 64) [b] (?l\<lparr>ctx_count := ?n + 1\<rparr>)"
    using l [of "?n + 1"] loop_append [of ?i data "[b]" "ctx\<lparr>ctx_count := ?n + 1\<rparr>"]
    by (simp only: update fed_index [OF snoc.prems] add.assoc)
  moreover have "update ctx data = ?l\<lparr>ctx_count := ?n\<rparr>" by (simp only: update fed_index [OF snoc.prems] l)
  ultimately have "update ctx (data @ [b]) = loop (length (msg @ data) mod 64) [b] ((update ctx data)\<lparr>ctx_count := ctx_count (update ctx data) + 1\<rparr>)"
    by (simp add: mod_add_left_eq)
  then show ?case using fed_one [OF snoc.IH [OF snoc.prems], of b] by simp
qed

lemma fed_fold: "fed s0 msg ctx \<Longrightarrow> fed s0 (msg @ concat ds) (fold (\<lambda>d c. update c d) ds ctx)"
proof (induction ds arbitrary: msg ctx)
  case (Cons d ds)
  then show ?case using Cons.IH [OF fed_update [OF Cons.prems, of d]] by simp
qed simp

lemma pad_index: "fed s0 msg ctx \<Longrightarrow> (ctx_count ctx AND 63 = 56) = (length msg mod 64 = 56)"
  by (simp only: word_unat_eq_iff fed_index) simp

lemma fed_pad:
  assumes "fed s0 msg ctx"
  shows "fed s0 (msg @ replicate ((120 - length msg mod 64) mod 64) 0) (pad ctx)"
  using assms
proof (induction "(120 - length msg mod 64) mod 64" arbitrary: msg ctx rule: less_induct)
  case less
  define r where "r = length msg mod 64"
  have r: "r < 64" by (simp add: r_def)
  show ?case
  proof (cases "r = 56")
    case True
    then show ?thesis using less.prems pad_index [OF less.prems] pad [of ctx] by (simp add: r_def [symmetric])
  next
    case False
    define d where "d = (120 - r) mod 64"
    have next_r: "length (msg @ [0]) mod 64 = (if r = 63 then 0 else Suc r)" by (simp add: r_def mod_Suc)
    have d: "(120 - length (msg @ [0]) mod 64) mod 64 = d - 1" "0 < d"
      using False r unfolding next_r d_def by (simp_all add: zeros)
    have "fed s0 ((msg @ [0]) @ replicate (d - 1) 0) (pad (update ctx [0]))"
      using less.hyps [OF _ fed_update [OF less.prems, of "[0]"]] d by (simp add: d_def r_def)
    moreover have "replicate d (0 :: 8 word) = 0 # replicate (d - 1) 0" using d(2) by (cases d) simp_all
    moreover have "pad ctx = pad (update ctx [0])" using False pad_index [OF less.prems] pad [of ctx] by (simp add: r_def)
    ultimately show ?thesis by (simp add: d_def r_def)
  qed
qed

lemma length_byte:
  assumes "i < 8"
  shows "(ucast (drop_bit ((7 - i) * 8) (of_nat m :: 64 word)) :: 8 word) = of_nat (m div 256 ^ (7 - i))"
proof -
  have "(256 :: nat) ^ (7 - i) = 2 ^ ((7 - i) * 8)" using power_mult [of "2 :: nat" 8 "7 - i"] by (simp add: mult.commute)
  then have "m div 256 ^ (7 - i) = drop_bit ((7 - i) * 8) m" by (simp add: drop_bit_eq_div)
  then show ?thesis using assms by (intro bit_word_eqI) (auto simp: bit_simps)
qed

text \<open>The whole of \<open>final\<close>: the marker, the zeros and the length.\<close>

lemma fed_final:
  assumes "fed s0 msg ctx"
  shows "fed s0 (pad_message msg) (put_length (pad (update ctx [0x80])) (ctx_count ctx * 8))"
proof -
  let ?z = "(119 - length msg mod 64) mod 64"
  have "(120 - length (msg @ [0x80 :: 8 word]) mod 64) mod 64 = ?z"
    using zeros_Suc [of "length msg mod 64"] by (simp add: mod_Suc zeros)
  then have p: "fed s0 (msg @ [0x80] @ replicate ?z 0) (pad (update ctx [0x80]))"
    using fed_pad [OF fed_update [OF assms, of "[0x80]"]] by simp
  let ?cnt = "ctx_count ctx * 8"
  have "concat (map (\<lambda>i. [ucast (drop_bit ((7 - i) * 8) ?cnt)]) [0..<8]) = length_bytes (length msg)"
    using assms length_byte [of _ "8 * length msg"] by (auto simp: fed_def length_bytes_def concat_map_singleton mult.commute)
  then have "fed s0 ((msg @ [0x80] @ replicate ?z 0) @ length_bytes (length msg))
      (fold (\<lambda>d c. update c d) (map (\<lambda>i. [ucast (drop_bit ((7 - i) * 8) ?cnt)]) [0..<8]) (pad (update ctx [0x80])))"
    using fed_fold [OF p] by metis
  then show ?thesis by (simp add: put_length fold_map comp_def pad_message_def)
qed

lemma final_state:
  assumes "fed s0 msg ctx"
  shows "ctx_state (put_length (pad (update ctx [0x80])) (ctx_count ctx * 8)) = foldl compress s0 (blocks (pad_message msg))"
    "ctx_ok (put_length (pad (update ctx [0x80])) (ctx_count ctx * 8))"
  using fed_final [OF assms] by (simp_all add: fed_def)

end

end
