(* ===== verification/Mincrypt_Sha.thy ===== *)
theory Mincrypt_Sha
  imports Mincrypt_Hash
begin

text \<open>
  SHA-1 and SHA-256 of \<open>libmincrypt\<close> (\<open>sha.c\<close>, \<open>sha256.c\<close>). The code is followed with its word operations; the
  references are the definitions of FIPS 180-4. \<open>data\<close> lists the \<open>len\<close> bytes an update is given.
\<close>

section \<open>sha.c\<close>

definition rol :: "nat \<Rightarrow> 32 word \<Rightarrow> 32 word" where
  "rol bits value = push_bit bits value OR drop_bit (32 - bits) value"

text \<open>The first sixteen words of \<open>W\<close> and the loop that extends them.\<close>

definition load_words :: "8 word list \<Rightarrow> 32 word list" where
  "load_words p = map (\<lambda>t. be_word (drop (4 * t) p)) [0..<16]"

definition sha1_extend :: "nat \<Rightarrow> 32 word list \<Rightarrow> 32 word list" where
  "sha1_extend t W = W @ [rol 1 (W ! (t - 3) XOR W ! (t - 8) XOR W ! (t - 14) XOR W ! (t - 16))]"

type_synonym sha1_vars = "32 word \<times> 32 word \<times> 32 word \<times> 32 word \<times> 32 word"

definition sha1_round :: "32 word list \<Rightarrow> nat \<Rightarrow> sha1_vars \<Rightarrow> sha1_vars" where
  "sha1_round W t = (\<lambda>(A, B, C, D, E).
     let tmp = rol 5 A + E + W ! t;
         tmp = tmp + (if t < 20 then (D XOR (B AND (C XOR D))) + 0x5A827999
                      else if t < 40 then (B XOR C XOR D) + 0x6ED9EBA1
                      else if t < 60 then ((B AND C) OR (D AND (B OR C))) + 0x8F1BBCDC
                      else (B XOR C XOR D) + 0xCA62C1D6)
     in (tmp, A, rol 30 B, C, D))"

definition SHA1_Transform :: "HASH_CTX \<Rightarrow> HASH_CTX" where
  "SHA1_Transform ctx =
     (let W = fold sha1_extend [16..<80] (load_words (ctx_buf ctx));
          s = ctx_state ctx
      in case fold (sha1_round W) [0..<80] (s ! 0, s ! 1, s ! 2, s ! 3, s ! 4) of
           (A, B, C, D, E) \<Rightarrow>
             ctx\<lparr>ctx_state := s[0 := s ! 0 + A, 1 := s ! 1 + B, 2 := s ! 2 + C, 3 := s ! 3 + D, 4 := s ! 4 + E]\<rparr>)"

definition SHA_init :: "HASH_CTX \<Rightarrow> HASH_CTX" where
  "SHA_init ctx =
     ctx\<lparr>ctx_f := SHA_VTAB,
       ctx_state := (ctx_state ctx)[0 := 0x67452301, 1 := 0xEFCDAB89, 2 := 0x98BADCFE, 3 := 0x10325476, 4 := 0xC3D2E1F0],
       ctx_count := 0\<rparr>"

fun sha1_update_loop :: "nat \<Rightarrow> 8 word list \<Rightarrow> HASH_CTX \<Rightarrow> HASH_CTX" where
  "sha1_update_loop i [] ctx = ctx"
| "sha1_update_loop i (b # p) ctx =
     (let ctx1 = ctx\<lparr>ctx_buf := (ctx_buf ctx)[i := b]\<rparr>
      in if i + 1 = 64 then sha1_update_loop 0 p (SHA1_Transform ctx1) else sha1_update_loop (i + 1) p ctx1)"

definition SHA_update :: "HASH_CTX \<Rightarrow> 8 word list \<Rightarrow> HASH_CTX" where
  "SHA_update ctx data =
     sha1_update_loop (unat (ctx_count ctx AND 63)) data (ctx\<lparr>ctx_count := ctx_count ctx + of_nat (length data)\<rparr>)"

lemma sha1_update_loop_count: "ctx_count (sha1_update_loop i p ctx) = ctx_count ctx"
  by (induction i p ctx rule: sha1_update_loop.induct)
    (simp_all add: Let_def SHA1_Transform_def split: prod.split)

function sha1_pad_loop :: "HASH_CTX \<Rightarrow> HASH_CTX" where
  "sha1_pad_loop ctx = (if ctx_count ctx AND 63 = 56 then ctx else sha1_pad_loop (SHA_update ctx [0]))"
  by pat_completeness auto
termination
  by (relation "measure pad_distance") (auto intro!: pad_distance_less simp: SHA_update_def sha1_update_loop_count simp del: sha1_update_loop.simps)

declare sha1_pad_loop.simps [simp del]

definition sha1_put_length :: "HASH_CTX \<Rightarrow> 64 word \<Rightarrow> HASH_CTX" where
  "sha1_put_length ctx cnt = fold (\<lambda>i c. SHA_update c [ucast (drop_bit ((7 - i) * 8) cnt)]) [0..<8] ctx"

text \<open>\<open>SHA_final\<close> returns the context; the digest is at the front of its buffer.\<close>

definition SHA_final :: "HASH_CTX \<Rightarrow> HASH_CTX" where
  "SHA_final ctx =
     (let cnt = ctx_count ctx * 8;
          ctx = sha1_put_length (sha1_pad_loop (SHA_update ctx [0x80])) cnt
      in ctx\<lparr>ctx_buf := concat (map word_be (take 5 (ctx_state ctx))) @ drop 20 (ctx_buf ctx)\<rparr>)"

definition SHA_DIGEST_SIZE :: nat where "SHA_DIGEST_SIZE = 20"

text \<open>\<open>ctx\<close> is the context on the stack, with whatever it holds.\<close>

definition SHA_hash :: "HASH_CTX \<Rightarrow> 8 word list \<Rightarrow> 8 word list" where
  "SHA_hash ctx data = take SHA_DIGEST_SIZE (ctx_buf (SHA_final (SHA_update (SHA_init ctx) data)))"

section \<open>sha256.c\<close>

definition ror :: "32 word \<Rightarrow> nat \<Rightarrow> 32 word" where
  "ror value bits = drop_bit bits value OR push_bit (32 - bits) value"

definition shr :: "32 word \<Rightarrow> nat \<Rightarrow> 32 word" where
  "shr value bits = drop_bit bits value"

definition K :: "32 word list" where
  "K = concat [
    [0x428a2f98, 0x71374491, 0xb5c0fbcf, 0xe9b5dba5],
    [0x3956c25b, 0x59f111f1, 0x923f82a4, 0xab1c5ed5],
    [0xd807aa98, 0x12835b01, 0x243185be, 0x550c7dc3],
    [0x72be5d74, 0x80deb1fe, 0x9bdc06a7, 0xc19bf174],
    [0xe49b69c1, 0xefbe4786, 0x0fc19dc6, 0x240ca1cc],
    [0x2de92c6f, 0x4a7484aa, 0x5cb0a9dc, 0x76f988da],
    [0x983e5152, 0xa831c66d, 0xb00327c8, 0xbf597fc7],
    [0xc6e00bf3, 0xd5a79147, 0x06ca6351, 0x14292967],
    [0x27b70a85, 0x2e1b2138, 0x4d2c6dfc, 0x53380d13],
    [0x650a7354, 0x766a0abb, 0x81c2c92e, 0x92722c85],
    [0xa2bfe8a1, 0xa81a664b, 0xc24b8b70, 0xc76c51a3],
    [0xd192e819, 0xd6990624, 0xf40e3585, 0x106aa070],
    [0x19a4c116, 0x1e376c08, 0x2748774c, 0x34b0bcb5],
    [0x391c0cb3, 0x4ed8aa4a, 0x5b9cca4f, 0x682e6ff3],
    [0x748f82ee, 0x78a5636f, 0x84c87814, 0x8cc70208],
    [0x90befffa, 0xa4506ceb, 0xbef9a3f7, 0xc67178f2]]"

definition sha256_extend :: "nat \<Rightarrow> 32 word list \<Rightarrow> 32 word list" where
  "sha256_extend t W =
     (let s0 = ror (W ! (t - 15)) 7 XOR ror (W ! (t - 15)) 18 XOR shr (W ! (t - 15)) 3;
          s1 = ror (W ! (t - 2)) 17 XOR ror (W ! (t - 2)) 19 XOR shr (W ! (t - 2)) 10
      in W @ [W ! (t - 16) + s0 + W ! (t - 7) + s1])"

type_synonym sha256_vars = "32 word \<times> 32 word \<times> 32 word \<times> 32 word \<times> 32 word \<times> 32 word \<times> 32 word \<times> 32 word"

definition sha256_round :: "32 word list \<Rightarrow> nat \<Rightarrow> sha256_vars \<Rightarrow> sha256_vars" where
  "sha256_round W t = (\<lambda>(A, B, C, D, E, F, G, H).
     let s0 = ror A 2 XOR ror A 13 XOR ror A 22;
         maj = (A AND B) XOR (A AND C) XOR (B AND C);
         t2 = s0 + maj;
         s1 = ror E 6 XOR ror E 11 XOR ror E 25;
         ch = (E AND F) XOR ((NOT E) AND G);
         t1 = H + s1 + ch + K ! t + W ! t
     in (t1 + t2, A, B, C, D + t1, E, F, G))"

definition SHA256_Transform :: "HASH_CTX \<Rightarrow> HASH_CTX" where
  "SHA256_Transform ctx =
     (let W = fold sha256_extend [16..<64] (load_words (ctx_buf ctx));
          s = ctx_state ctx
      in case fold (sha256_round W) [0..<64] (s ! 0, s ! 1, s ! 2, s ! 3, s ! 4, s ! 5, s ! 6, s ! 7) of
           (A, B, C, D, E, F, G, H) \<Rightarrow>
             ctx\<lparr>ctx_state := s[0 := s ! 0 + A, 1 := s ! 1 + B, 2 := s ! 2 + C, 3 := s ! 3 + D,
                              4 := s ! 4 + E, 5 := s ! 5 + F, 6 := s ! 6 + G, 7 := s ! 7 + H]\<rparr>)"

definition SHA256_init :: "HASH_CTX \<Rightarrow> HASH_CTX" where
  "SHA256_init ctx =
     ctx\<lparr>ctx_f := SHA256_VTAB,
       ctx_state := (ctx_state ctx)[0 := 0x6a09e667, 1 := 0xbb67ae85, 2 := 0x3c6ef372, 3 := 0xa54ff53a,
                                    4 := 0x510e527f, 5 := 0x9b05688c, 6 := 0x1f83d9ab, 7 := 0x5be0cd19],
       ctx_count := 0\<rparr>"

fun sha256_update_loop :: "nat \<Rightarrow> 8 word list \<Rightarrow> HASH_CTX \<Rightarrow> HASH_CTX" where
  "sha256_update_loop i [] ctx = ctx"
| "sha256_update_loop i (b # p) ctx =
     (let ctx1 = ctx\<lparr>ctx_buf := (ctx_buf ctx)[i := b]\<rparr>
      in if i + 1 = 64 then sha256_update_loop 0 p (SHA256_Transform ctx1) else sha256_update_loop (i + 1) p ctx1)"

definition SHA256_update :: "HASH_CTX \<Rightarrow> 8 word list \<Rightarrow> HASH_CTX" where
  "SHA256_update ctx data =
     sha256_update_loop (unat (ctx_count ctx AND 63)) data (ctx\<lparr>ctx_count := ctx_count ctx + of_nat (length data)\<rparr>)"

lemma sha256_update_loop_count: "ctx_count (sha256_update_loop i p ctx) = ctx_count ctx"
  by (induction i p ctx rule: sha256_update_loop.induct)
    (simp_all add: Let_def SHA256_Transform_def split: prod.split)

function sha256_pad_loop :: "HASH_CTX \<Rightarrow> HASH_CTX" where
  "sha256_pad_loop ctx = (if ctx_count ctx AND 63 = 56 then ctx else sha256_pad_loop (SHA256_update ctx [0]))"
  by pat_completeness auto
termination
  by (relation "measure pad_distance")
    (auto intro!: pad_distance_less simp: SHA256_update_def sha256_update_loop_count simp del: sha256_update_loop.simps)

declare sha256_pad_loop.simps [simp del]

definition sha256_put_length :: "HASH_CTX \<Rightarrow> 64 word \<Rightarrow> HASH_CTX" where
  "sha256_put_length ctx cnt = fold (\<lambda>i c. SHA256_update c [ucast (drop_bit ((7 - i) * 8) cnt)]) [0..<8] ctx"

definition SHA256_final :: "HASH_CTX \<Rightarrow> HASH_CTX" where
  "SHA256_final ctx =
     (let cnt = ctx_count ctx * 8;
          ctx = sha256_put_length (sha256_pad_loop (SHA256_update ctx [0x80])) cnt
      in ctx\<lparr>ctx_buf := concat (map word_be (take 8 (ctx_state ctx))) @ drop 32 (ctx_buf ctx)\<rparr>)"

definition SHA256_DIGEST_SIZE :: nat where "SHA256_DIGEST_SIZE = 32"

definition SHA256_hash :: "HASH_CTX \<Rightarrow> 8 word list \<Rightarrow> 8 word list" where
  "SHA256_hash ctx data = take SHA256_DIGEST_SIZE (ctx_buf (SHA256_final (SHA256_update (SHA256_init ctx) data)))"

section \<open>The function tables\<close>

text \<open>The macros of \<open>hash-internal.h\<close> call through the table of the context; \<open>local\<close> is the context on the stack of the
  \<open>hash\<close> function.\<close>

definition HASH_init :: "HASH_CTX \<Rightarrow> HASH_CTX" where
  "HASH_init ctx = (case ctx_f ctx of SHA_VTAB \<Rightarrow> SHA_init ctx | SHA256_VTAB \<Rightarrow> SHA256_init ctx)"

definition HASH_update :: "HASH_CTX \<Rightarrow> 8 word list \<Rightarrow> HASH_CTX" where
  "HASH_update ctx data = (case ctx_f ctx of SHA_VTAB \<Rightarrow> SHA_update ctx data | SHA256_VTAB \<Rightarrow> SHA256_update ctx data)"

definition HASH_final :: "HASH_CTX \<Rightarrow> HASH_CTX" where
  "HASH_final ctx = (case ctx_f ctx of SHA_VTAB \<Rightarrow> SHA_final ctx | SHA256_VTAB \<Rightarrow> SHA256_final ctx)"

definition HASH_hash :: "HASH_CTX \<Rightarrow> HASH_CTX \<Rightarrow> 8 word list \<Rightarrow> 8 word list" where
  "HASH_hash ctx local data = (case ctx_f ctx of SHA_VTAB \<Rightarrow> SHA_hash local data | SHA256_VTAB \<Rightarrow> SHA256_hash local data)"

definition HASH_size :: "HASH_CTX \<Rightarrow> nat" where
  "HASH_size ctx = (case ctx_f ctx of SHA_VTAB \<Rightarrow> SHA_DIGEST_SIZE | SHA256_VTAB \<Rightarrow> SHA256_DIGEST_SIZE)"

end
