(* ===== verification/Mincrypt_Sha_Correct.thy ===== *)
theory Mincrypt_Sha_Correct
  imports Mincrypt_Sha
begin

text \<open>
  The hashes of \<open>libmincrypt\<close> are those of FIPS 180-4, however the message is cut into updates. Both are
  interpretations of the locale \<open>block_hash\<close>; what remains to show for each is that its compression
  function is that of the standard.
\<close>

section \<open>The standard\<close>

definition Ch :: "32 word \<Rightarrow> 32 word \<Rightarrow> 32 word \<Rightarrow> 32 word" where
  "Ch x y z = (x AND y) XOR (NOT x AND z)"

definition Parity :: "32 word \<Rightarrow> 32 word \<Rightarrow> 32 word \<Rightarrow> 32 word" where
  "Parity x y z = x XOR y XOR z"

definition Maj :: "32 word \<Rightarrow> 32 word \<Rightarrow> 32 word \<Rightarrow> 32 word" where
  "Maj x y z = (x AND y) XOR (x AND z) XOR (y AND z)"

text \<open>Word \<open>t\<close> of a block, most significant byte first.\<close>

definition block_word :: "8 word list \<Rightarrow> nat \<Rightarrow> 32 word" where
  "block_word M t =
     ucast (M ! (4 * t)) * 2 ^ 24 + ucast (M ! (4 * t + 1)) * 2 ^ 16 + ucast (M ! (4 * t + 2)) * 2 ^ 8 + ucast (M ! (4 * t + 3))"

fun sha1_schedule :: "8 word list \<Rightarrow> nat \<Rightarrow> 32 word" where
  "sha1_schedule M t =
     (if t < 16 then block_word M t
      else word_rotl 1 (sha1_schedule M (t - 3) XOR sha1_schedule M (t - 8) XOR sha1_schedule M (t - 14) XOR sha1_schedule M (t - 16)))"

definition sha1_f :: "nat \<Rightarrow> 32 word \<Rightarrow> 32 word \<Rightarrow> 32 word \<Rightarrow> 32 word" where
  "sha1_f t = (if t < 20 then Ch else if t < 40 then Parity else if t < 60 then Maj else Parity)"

definition sha1_K :: "nat \<Rightarrow> 32 word" where
  "sha1_K t = (if t < 20 then 0x5a827999 else if t < 40 then 0x6ed9eba1 else if t < 60 then 0x8f1bbcdc else 0xca62c1d6)"

definition sha1_step :: "8 word list \<Rightarrow> nat \<Rightarrow> sha1_vars \<Rightarrow> sha1_vars" where
  "sha1_step M t = (\<lambda>(a, b, c, d, e).
     (word_rotl 5 a + sha1_f t b c d + e + sha1_K t + sha1_schedule M t, a, word_rotl 30 b, c, d))"

definition sha1_block :: "32 word list \<Rightarrow> 8 word list \<Rightarrow> 32 word list" where
  "sha1_block H M =
     (case fold (sha1_step M) [0..<80] (H ! 0, H ! 1, H ! 2, H ! 3, H ! 4) of
        (a, b, c, d, e) \<Rightarrow> [a + H ! 0, b + H ! 1, c + H ! 2, d + H ! 3, e + H ! 4])"

definition sha1 :: "8 word list \<Rightarrow> 8 word list" where
  "sha1 msg = concat (map word_be
     (foldl sha1_block [0x67452301, 0xefcdab89, 0x98badcfe, 0x10325476, 0xc3d2e1f0] (blocks (pad_message msg))))"

definition Sigma0 :: "32 word \<Rightarrow> 32 word" where "Sigma0 x = word_rotr 2 x XOR word_rotr 13 x XOR word_rotr 22 x"

definition Sigma1 :: "32 word \<Rightarrow> 32 word" where "Sigma1 x = word_rotr 6 x XOR word_rotr 11 x XOR word_rotr 25 x"

definition sigma0 :: "32 word \<Rightarrow> 32 word" where "sigma0 x = word_rotr 7 x XOR word_rotr 18 x XOR drop_bit 3 x"

definition sigma1 :: "32 word \<Rightarrow> 32 word" where "sigma1 x = word_rotr 17 x XOR word_rotr 19 x XOR drop_bit 10 x"

fun sha256_schedule :: "8 word list \<Rightarrow> nat \<Rightarrow> 32 word" where
  "sha256_schedule M t =
     (if t < 16 then block_word M t
      else sigma1 (sha256_schedule M (t - 2)) + sha256_schedule M (t - 7) + sigma0 (sha256_schedule M (t - 15)) + sha256_schedule M (t - 16))"

definition sha256_step :: "8 word list \<Rightarrow> nat \<Rightarrow> sha256_vars \<Rightarrow> sha256_vars" where
  "sha256_step M t = (\<lambda>(a, b, c, d, e, f, g, h).
     let T1 = h + Sigma1 e + Ch e f g + K ! t + sha256_schedule M t; T2 = Sigma0 a + Maj a b c
     in (T1 + T2, a, b, c, d + T1, e, f, g))"

definition sha256_block :: "32 word list \<Rightarrow> 8 word list \<Rightarrow> 32 word list" where
  "sha256_block H M =
     (case fold (sha256_step M) [0..<64] (H ! 0, H ! 1, H ! 2, H ! 3, H ! 4, H ! 5, H ! 6, H ! 7) of
        (a, b, c, d, e, f, g, h) \<Rightarrow>
          [a + H ! 0, b + H ! 1, c + H ! 2, d + H ! 3, e + H ! 4, f + H ! 5, g + H ! 6, h + H ! 7])"

definition sha256 :: "8 word list \<Rightarrow> 8 word list" where
  "sha256 msg = concat (map word_be
     (foldl sha256_block [0x6a09e667, 0xbb67ae85, 0x3c6ef372, 0xa54ff53a, 0x510e527f, 0x9b05688c, 0x1f83d9ab, 0x5be0cd19]
        (blocks (pad_message msg))))"

declare sha1_schedule.simps [simp del] sha256_schedule.simps [simp del]

section \<open>The compression functions\<close>

lemma rol_eq: "0 < n \<Longrightarrow> n < 32 \<Longrightarrow> rol n w = word_rotl n w"
proof (rule bit_word_eqI)
  fix k assume "0 < n" "n < 32" "k < LENGTH(32)"
  then show "bit (rol n w) k \<longleftrightarrow> bit (word_rotl n w) k"
    by (auto simp: rol_def bit_simps mod_if bit_word_rotl_iff add.commute [of k] dest: bit_imp_le_length)
qed

lemma ror_eq: "0 < n \<Longrightarrow> n < 32 \<Longrightarrow> ror w n = word_rotr n w"
proof (rule bit_word_eqI)
  fix k assume "0 < n" "n < 32" "k < LENGTH(32)"
  then show "bit (ror w n) k \<longleftrightarrow> bit (word_rotr n w) k"
    by (auto simp: ror_def bit_simps mod_if bit_word_rotr_iff add.commute [of k] dest: bit_imp_le_length)
qed

lemma Ch_eq: "d XOR (b AND (c XOR d)) = Ch b c d"
  by (rule bit_word_eqI) (auto simp: Ch_def bit_simps)

lemma Maj_eq: "(b AND c) OR (d AND (b OR c)) = Maj b c d"
  by (rule bit_word_eqI) (auto simp: Maj_def bit_simps)

lemma be_word_plus: "be_word p = ucast (p ! 0) * 2 ^ 24 + ucast (p ! 1) * 2 ^ 16 + ucast (p ! 2) * 2 ^ 8 + ucast (p ! 3)"
proof -
  let ?a = "push_bit 24 (ucast (p ! 0)) :: 32 word" and ?b = "push_bit 16 (ucast (p ! 1)) :: 32 word"
  let ?c = "push_bit 8 (ucast (p ! 2)) :: 32 word" and ?d = "ucast (p ! 3) :: 32 word"
  have byte: "n < 8" if "bit (x :: 8 word) n" for x n using that bit_imp_le_length by fastforce
  have "?a + ?b = ?a OR ?b" by (rule disjunctive_add) (auto simp: bit_simps dest!: byte)
  moreover have "(?a OR ?b) + ?c = (?a OR ?b) OR ?c" by (rule disjunctive_add) (auto simp: bit_simps dest!: byte)
  moreover have "((?a OR ?b) OR ?c) + ?d = ((?a OR ?b) OR ?c) OR ?d" by (rule disjunctive_add) (auto simp: bit_simps dest!: byte)
  ultimately have "?a + ?b + ?c + ?d = ?a OR ?b OR ?c OR ?d" by (simp add: or.assoc)
  then show ?thesis by (simp add: be_word_def push_bit_eq_mult)
qed

lemma be_word_eq: "t < 16 \<Longrightarrow> length p = 64 \<Longrightarrow> be_word (drop (4 * t) p) = block_word p t"
  by (simp add: be_word_plus block_word_def add.assoc)

lemma load_words_eq: "length p = 64 \<Longrightarrow> load_words p = map (block_word p) [0..<16]"
  by (simp add: load_words_def be_word_eq)

lemma sha1_extend_eq:
  assumes "length p = 64" "16 \<le> n"
  shows "fold sha1_extend [16..<n] (load_words p) = map (sha1_schedule p) [0..<n]"
  using assms(2)
proof (induction n rule: dec_induct)
  case base
  then show ?case using assms(1) by (simp add: load_words_eq sha1_schedule.simps)
next
  case (step n)
  then show ?case by (simp add: sha1_extend_def rol_eq) (subst sha1_schedule.simps, simp)
qed

lemma sha1_round_eq: "t < 80 \<Longrightarrow> sha1_round (map (sha1_schedule p) [0..<80]) t = sha1_step p t"
  by (auto simp: fun_eq_iff sha1_round_def sha1_step_def sha1_f_def sha1_K_def Let_def Ch_eq Maj_eq Parity_def rol_eq)

lemma sha1_rounds_eq: "fold (sha1_round (map (sha1_schedule p) [0..<80])) [0..<80] v = fold (sha1_step p) [0..<80] v"
  by (rule fold_cong) (auto simp: sha1_round_eq)

lemma state_words:
  assumes "ctx_ok ctx"
  obtains a b c d e f g h where "ctx_state ctx = [a, b, c, d, e, f, g, h]"
  using assms by (auto simp: ctx_ok_def eval_nat_numeral length_Suc_conv)

definition sha1_compress :: "32 word list \<Rightarrow> 8 word list \<Rightarrow> 32 word list" where
  "sha1_compress s b = sha1_block (take 5 s) b @ drop 5 s"

lemma SHA1_Transform_eq:
  assumes "ctx_ok ctx"
  shows "SHA1_Transform ctx = ctx\<lparr>ctx_state := sha1_compress (ctx_state ctx) (ctx_buf ctx)\<rparr>"
proof -
  obtain a b c d e f g h where s: "ctx_state ctx = [a, b, c, d, e, f, g, h]" by (rule state_words [OF assms])
  have "length (ctx_buf ctx) = 64" using assms by (simp add: ctx_ok_def)
  then show ?thesis
    by (simp add: SHA1_Transform_def sha1_extend_eq sha1_rounds_eq sha1_compress_def sha1_block_def s Let_def add.commute
      del: upt_rec_numeral split: prod.split)
qed

lemma sha256_extend_eq:
  assumes "length p = 64" "16 \<le> n"
  shows "fold sha256_extend [16..<n] (load_words p) = map (sha256_schedule p) [0..<n]"
  using assms(2)
proof (induction n rule: dec_induct)
  case base
  then show ?case using assms(1) by (simp add: load_words_eq sha256_schedule.simps)
next
  case (step n)
  then show ?case
    by (simp add: sha256_extend_def ror_eq shr_def sigma0_def sigma1_def Let_def)
      (subst sha256_schedule.simps, simp add: sigma0_def sigma1_def add_ac)
qed

lemma sha256_round_eq: "t < 64 \<Longrightarrow> sha256_round (map (sha256_schedule p) [0..<64]) t = sha256_step p t"
  by (auto simp: fun_eq_iff sha256_round_def sha256_step_def Let_def Ch_def Maj_def Sigma0_def Sigma1_def ror_eq)

lemma sha256_rounds_eq: "fold (sha256_round (map (sha256_schedule p) [0..<64])) [0..<64] v = fold (sha256_step p) [0..<64] v"
  by (rule fold_cong) (auto simp: sha256_round_eq)

lemma SHA256_Transform_eq:
  assumes "ctx_ok ctx"
  shows "SHA256_Transform ctx = ctx\<lparr>ctx_state := sha256_block (ctx_state ctx) (ctx_buf ctx)\<rparr>"
proof -
  obtain a b c d e f g h where s: "ctx_state ctx = [a, b, c, d, e, f, g, h]" by (rule state_words [OF assms])
  have "length (ctx_buf ctx) = 64" using assms by (simp add: ctx_ok_def)
  then show ?thesis
    by (simp add: SHA256_Transform_def sha256_extend_eq sha256_rounds_eq sha256_block_def s Let_def add.commute
      del: upt_rec_numeral split: prod.split)
qed

section \<open>Feeding and finishing\<close>

interpretation sha1_hash: block_hash SHA1_Transform sha1_update_loop SHA_update sha1_pad_loop sha1_put_length sha1_compress
proof unfold_locales
  show "SHA1_Transform ctx = ctx\<lparr>ctx_state := sha1_compress (ctx_state ctx) (ctx_buf ctx)\<rparr>" if "ctx_ok ctx" for ctx
    using that by (rule SHA1_Transform_eq)
  show "length (sha1_compress s blk) = 8" if "length s = 8" for s blk
    using that by (simp add: sha1_compress_def sha1_block_def split: prod.split)
  show "sha1_pad_loop ctx = (if ctx_count ctx AND 63 = 56 then ctx else sha1_pad_loop (SHA_update ctx [0]))" for ctx
    by (rule sha1_pad_loop.simps)
qed (simp_all only: sha1_update_loop.simps Let_def SHA_update_def sha1_put_length_def)

interpretation sha256_hash: block_hash SHA256_Transform sha256_update_loop SHA256_update sha256_pad_loop sha256_put_length sha256_block
proof unfold_locales
  show "SHA256_Transform ctx = ctx\<lparr>ctx_state := sha256_block (ctx_state ctx) (ctx_buf ctx)\<rparr>" if "ctx_ok ctx" for ctx
    using that by (rule SHA256_Transform_eq)
  show "length (sha256_block s blk) = 8" for s blk
    by (simp add: sha256_block_def split: prod.split)
  show "sha256_pad_loop ctx = (if ctx_count ctx AND 63 = 56 then ctx else sha256_pad_loop (SHA256_update ctx [0]))" for ctx
    by (rule sha256_pad_loop.simps)
qed (simp_all only: sha256_update_loop.simps Let_def SHA256_update_def sha256_put_length_def)

lemma take_sha1_compress: "length s = 8 \<Longrightarrow> take 5 (foldl sha1_compress s bs) = foldl sha1_block (take 5 s) bs"
proof (induction bs arbitrary: s)
  case (Cons b bs)
  have "length (sha1_block (take 5 s) b) = 5" by (simp add: sha1_block_def split: prod.split)
  then show ?case using Cons.IH [of "sha1_compress s b"] Cons.prems by (simp add: sha1_compress_def)
qed simp

lemma sha1_fed_init:
  assumes "ctx_ok ctx"
  shows "sha1_hash.fed (ctx_state (SHA_init ctx)) [] (SHA_init ctx)"
  using assms by (simp add: sha1_hash.fed_def ctx_ok_def SHA_init_def blocks_short)

lemma sha1_final:
  assumes "ctx_ok ctx"
  shows "take SHA_DIGEST_SIZE (ctx_buf (SHA_final (fold (\<lambda>d c. SHA_update c d) ds (SHA_init ctx)))) = sha1 (concat ds)"
proof -
  let ?s = "ctx_state (SHA_init ctx)"
  have f: "sha1_hash.fed ?s (concat ds) (fold (\<lambda>d c. SHA_update c d) ds (SHA_init ctx))"
    using sha1_hash.fed_fold [OF sha1_fed_init [OF assms]] by simp
  obtain x0 x1 x2 x3 x4 x5 x6 x7 where "ctx_state ctx = [x0, x1, x2, x3, x4, x5, x6, x7]" by (rule state_words [OF assms])
  then have s: "length ?s = 8" "take 5 ?s = [0x67452301, 0xefcdab89, 0x98badcfe, 0x10325476, 0xc3d2e1f0]"
    by (simp_all add: SHA_init_def)
  have "length (foldl sha1_block [0x67452301, 0xefcdab89, 0x98badcfe, 0x10325476, 0xc3d2e1f0] bs) = 5" for bs
    by (induction bs rule: rev_induct) (simp_all add: sha1_block_def split: prod.split)
  then show ?thesis
    by (simp add: SHA_final_def Let_def SHA_DIGEST_SIZE_def sha1_hash.final_state [OF f] take_sha1_compress [OF s(1)] s(2) sha1_def)
qed

lemma sha256_final:
  assumes "ctx_ok ctx"
  shows "take SHA256_DIGEST_SIZE (ctx_buf (SHA256_final (fold (\<lambda>d c. SHA256_update c d) ds (SHA256_init ctx)))) = sha256 (concat ds)"
proof -
  let ?s = "ctx_state (SHA256_init ctx)"
  obtain x0 x1 x2 x3 x4 x5 x6 x7 where "ctx_state ctx = [x0, x1, x2, x3, x4, x5, x6, x7]" by (rule state_words [OF assms])
  then have s: "?s = [0x6a09e667, 0xbb67ae85, 0x3c6ef372, 0xa54ff53a, 0x510e527f, 0x9b05688c, 0x1f83d9ab, 0x5be0cd19]"
    by (simp add: SHA256_init_def)
  have "sha256_hash.fed ?s [] (SHA256_init ctx)"
    using assms by (simp add: sha256_hash.fed_def ctx_ok_def SHA256_init_def blocks_short)
  from sha256_hash.fed_fold [OF this, of ds]
  have f: "sha256_hash.fed ?s (concat ds) (fold (\<lambda>d c. SHA256_update c d) ds (SHA256_init ctx))" by simp
  have "length (foldl sha256_block ?s bs) = 8" for bs
    by (induction bs rule: rev_induct) (simp_all add: s sha256_block_def split: prod.split)
  then show ?thesis
    by (simp add: SHA256_final_def Let_def SHA256_DIGEST_SIZE_def sha256_hash.final_state [OF f] sha256_def s)
qed

lemma SHA_hash_eq: "ctx_ok ctx \<Longrightarrow> SHA_hash ctx data = sha1 data"
  using sha1_final [of ctx "[data]"] by (simp add: SHA_hash_def)

lemma SHA256_hash_eq: "ctx_ok ctx \<Longrightarrow> SHA256_hash ctx data = sha256 data"
  using sha256_final [of ctx "[data]"] by (simp add: SHA256_hash_def)

section \<open>Properties\<close>

text \<open>The digest of the bytes fed by a sequence of updates, for either hash.\<close>

definition stream_digest :: "HASH_CTX \<Rightarrow> 8 word list list \<Rightarrow> 8 word list" where
  "stream_digest ctx ds = take (HASH_size ctx) (ctx_buf (HASH_final (fold (\<lambda>d c. HASH_update c d) ds (HASH_init ctx))))"

lemma loop_f:
  "ctx_f (sha1_update_loop i p ctx) = ctx_f ctx" "ctx_f (sha256_update_loop i p ctx) = ctx_f ctx"
  by (induction p arbitrary: i ctx) (simp_all add: Let_def SHA1_Transform_def SHA256_Transform_def del: upt_rec_numeral split: prod.split)

lemma HASH_fold:
  "ctx_f ctx = SHA_VTAB \<Longrightarrow> fold (\<lambda>d c. HASH_update c d) ds ctx = fold (\<lambda>d c. SHA_update c d) ds ctx \<and> ctx_f (fold (\<lambda>d c. SHA_update c d) ds ctx) = SHA_VTAB"
  "ctx_f ctx = SHA256_VTAB \<Longrightarrow> fold (\<lambda>d c. HASH_update c d) ds ctx = fold (\<lambda>d c. SHA256_update c d) ds ctx \<and> ctx_f (fold (\<lambda>d c. SHA256_update c d) ds ctx) = SHA256_VTAB"
  by (induction ds arbitrary: ctx) (simp_all add: HASH_update_def SHA_update_def SHA256_update_def loop_f)

text \<open>
  C10: the hashes are those of FIPS 180-4: through the function table, on a context with any contents,
  feeding a message in pieces of any sizes and finishing gives the digest the standard defines for the
  whole message.
\<close>

theorem hash_stream:
  assumes "ctx_ok ctx"
  shows "stream_digest ctx ds = (case ctx_f ctx of SHA_VTAB \<Rightarrow> sha1 (concat ds) | SHA256_VTAB \<Rightarrow> sha256 (concat ds))"
proof (cases "ctx_f ctx")
  case SHA_VTAB
  then have "ctx_f (SHA_init ctx) = SHA_VTAB" by (simp add: SHA_init_def)
  from HASH_fold(1) [OF this, of ds] SHA_VTAB sha1_final [OF assms, of ds] show ?thesis
    by (simp add: stream_digest_def HASH_init_def HASH_final_def HASH_size_def)
next
  case SHA256_VTAB
  then have "ctx_f (SHA256_init ctx) = SHA256_VTAB" by (simp add: SHA256_init_def)
  from HASH_fold(2) [OF this, of ds] SHA256_VTAB sha256_final [OF assms, of ds] show ?thesis
    by (simp add: stream_digest_def HASH_init_def HASH_final_def HASH_size_def)
qed

definition ex_ctx :: HASH_CTX where
  "ex_ctx = \<lparr>ctx_f = SHA256_VTAB, ctx_count = 7, ctx_buf = replicate 64 1, ctx_state = replicate 8 2\<rparr>"

theorem hash_stream_witness:
  "stream_digest ex_ctx [[0x61], [0x62, 0x63]] = sha256 [0x61, 0x62, 0x63]"
  using hash_stream [of ex_ctx "[[0x61], [0x62, 0x63]]"] by (simp add: ex_ctx_def ctx_ok_def)

end
