(* ===== verification/Mincrypt_Padding.thy ===== *)
theory Mincrypt_Padding
  imports Mincrypt_Sha_Correct
begin

text \<open>
  The constants of \<open>rsa.c\<close> against the paddings they are said to be hashes of. The hashes of the standard are
  computed on integers, with the message schedule in a window of sixteen words, and the digests of the
  two padded messages are derived by rewriting, block by block.
\<close>

section \<open>Words as integers\<close>

definition add32 :: "int \<Rightarrow> int \<Rightarrow> int" where
  "add32 a b = (a + b) mod 4294967296"

definition rot32 :: "nat \<Rightarrow> int \<Rightarrow> int" where
  "rot32 n x = take_bit 32 (push_bit n x) OR drop_bit (32 - n) x"

lemma uint_add32: "uint (a + b :: 32 word) = add32 (uint a) (uint b)"
  by (simp add: add32_def uint_word_ariths)

lemma uint_drop: "uint (drop_bit n (w :: 32 word)) = drop_bit n (uint w)"
  by (rule bit_eqI) (auto simp: bit_simps dest: bit_imp_le_length)

lemma uint_rotl: "0 < n \<Longrightarrow> n < 32 \<Longrightarrow> uint (word_rotl n (w :: 32 word)) = rot32 n (uint w)"
  by (simp add: rol_eq [symmetric] rol_def rot32_def unsigned_or_eq unsigned_push_bit_eq uint_drop)

lemma uint_rotr: "0 < n \<Longrightarrow> n < 32 \<Longrightarrow> uint (word_rotr n (w :: 32 word)) = rot32 (32 - n) (uint w)"
  by (simp add: ror_eq [symmetric] ror_def rot32_def unsigned_or_eq unsigned_push_bit_eq uint_drop or.commute)

lemmas uint_ops = uint_add32 uint_rotl uint_rotr uint_drop unsigned_and_eq unsigned_or_eq unsigned_xor_eq

section \<open>The rounds\<close>

definition f1 :: "nat \<Rightarrow> int \<Rightarrow> int \<Rightarrow> int \<Rightarrow> int" where
  "f1 t b c d = (if t < 20 then d XOR (b AND (c XOR d)) else if t < 40 then b XOR c XOR d
     else if t < 60 then (b AND c) OR (d AND (b OR c)) else b XOR c XOR d)"

definition k1 :: "nat \<Rightarrow> int" where
  "k1 t = (if t < 20 then 0x5a827999 else if t < 40 then 0x6ed9eba1 else if t < 60 then 0x8f1bbcdc else 0xca62c1d6)"

primrec rounds1 :: "nat list \<Rightarrow> int list \<Rightarrow> int \<Rightarrow> int \<Rightarrow> int \<Rightarrow> int \<Rightarrow> int \<Rightarrow> int list" where
  "rounds1 [] W a b c d e = [a, b, c, d, e]"
| "rounds1 (t # ts) W a b c d e =
     rounds1 ts (tl W @ [rot32 1 (W ! 13 XOR W ! 8 XOR W ! 2 XOR hd W)])
       (add32 (add32 (add32 (add32 (rot32 5 a) (f1 t b c d)) e) (k1 t)) (hd W)) a (rot32 30 b) c d"

lemma window: "[Suc t..<Suc t + 16] = [Suc t..<t + 16] @ [t + 16]"
  unfolding add_Suc by (rule upt_Suc_append) simp

lemma rounds1_eq:
  assumes "fold (sha1_step M) [t..<t + n] (a, b, c, d, e) = (a', b', c', d', e')"
  shows "rounds1 [t..<t + n] (map (\<lambda>i. uint (sha1_schedule M i)) [t..<t + 16]) (uint a) (uint b) (uint c) (uint d) (uint e)
    = [uint a', uint b', uint c', uint d', uint e']"
  using assms
proof (induction n arbitrary: t a b c d e)
  case 0
  then show ?case by simp
next
  case (Suc n)
  let ?S = "\<lambda>i. uint (sha1_schedule M i)" and ?a = "word_rotl 5 a + sha1_f t b c d + e + sha1_K t + sha1_schedule M t"
  have up: "[t..<t + Suc n] = t # [Suc t..<Suc t + n]" by (simp add: upt_conv_Cons)
  have W: "map ?S [t..<t + 16] = ?S t # map ?S [Suc t..<t + 16]" by (simp add: upt_conv_Cons)
  have "sha1_schedule M (t + 16) = word_rotl 1 (sha1_schedule M (t + 13) XOR sha1_schedule M (t + 8) XOR sha1_schedule M (t + 2) XOR sha1_schedule M t)"
    by (subst sha1_schedule.simps) (simp add: add.commute)
  then have "rot32 1 (?S (t + 13) XOR ?S (t + 8) XOR ?S (t + 2) XOR ?S t) = ?S (t + 16)" by (simp add: uint_ops)
  moreover have "map ?S [Suc t..<Suc t + 16] = map ?S [Suc t..<t + 16] @ [?S (t + 16)]" by (simp only: window) simp
  ultimately have win: "tl (map ?S [t..<t + 16]) @ [rot32 1 (map ?S [t..<t + 16] ! 13 XOR map ?S [t..<t + 16] ! 8
      XOR map ?S [t..<t + 16] ! 2 XOR hd (map ?S [t..<t + 16]))] = map ?S [Suc t..<Suc t + 16]"
    by (simp add: W nth_Cons' add.commute [of _ t] del: upt_Suc)
  have "add32 (add32 (add32 (add32 (rot32 5 (uint a)) (f1 t (uint b) (uint c) (uint d))) (uint e)) (k1 t)) (?S t) = uint ?a"
    by (simp add: uint_ops sha1_f_def sha1_K_def f1_def k1_def Ch_eq [symmetric] Maj_eq [symmetric] Parity_def)
  moreover have st: "sha1_step M t (a, b, c, d, e) = (?a, a, word_rotl 30 b, c, d)" by (simp add: sha1_step_def)
  have "fold (sha1_step M) [Suc t..<Suc t + n] (?a, a, word_rotl 30 b, c, d) = (a', b', c', d', e')"
    using Suc.prems unfolding up fold_simps st .
  from Suc.IH [OF this] have "rounds1 [Suc t..<Suc t + n] (map ?S [Suc t..<Suc t + 16]) (uint ?a) (uint a) (rot32 30 (uint b)) (uint c) (uint d)
      = [uint a', uint b', uint c', uint d', uint e']" by (simp add: uint_ops)
  ultimately show ?case unfolding up rounds1.simps win by (simp add: W del: upt_Suc)
qed

definition block1 :: "int list \<Rightarrow> int list \<Rightarrow> int list" where
  "block1 H W = map2 add32 (rounds1 [0..<80] W (H ! 0) (H ! 1) (H ! 2) (H ! 3) (H ! 4)) H"

lemma block1_eq:
  assumes "length H = 5"
  shows "map uint (sha1_block H M) = block1 (map uint H) (map (\<lambda>i. uint (block_word M i)) [0..<16])"
proof -
  obtain h0 h1 h2 h3 h4 where H: "H = [h0, h1, h2, h3, h4]" using assms by (auto simp: eval_nat_numeral length_Suc_conv)
  obtain a b c d e where f: "fold (sha1_step M) [0..<80] (h0, h1, h2, h3, h4) = (a, b, c, d, e)" by (metis prod_cases5)
  have W: "map (\<lambda>i. uint (sha1_schedule M i)) [0..<16] = map (\<lambda>i. uint (block_word M i)) [0..<16]"
    by (simp add: sha1_schedule.simps)
  have "rounds1 [0..<80] (map (\<lambda>i. uint (sha1_schedule M i)) [0..<16]) (uint h0) (uint h1) (uint h2) (uint h3) (uint h4)
      = [uint a, uint b, uint c, uint d, uint e]"
    using rounds1_eq [of M 0 80 h0 h1 h2 h3 h4] f by (simp del: upt_rec_numeral)
  then show ?thesis unfolding W using f by (simp add: sha1_block_def block1_def H uint_ops del: upt_rec_numeral)
qed

text \<open>The same for SHA-256.\<close>

primrec rounds256 :: "nat list \<Rightarrow> int list \<Rightarrow> int list \<Rightarrow> int \<Rightarrow> int \<Rightarrow> int \<Rightarrow> int \<Rightarrow> int \<Rightarrow> int \<Rightarrow> int \<Rightarrow> int \<Rightarrow> int list" where
  "rounds256 [] Ks W a b c d e f g h = [a, b, c, d, e, f, g, h]"
| "rounds256 (t # ts) Ks W a b c d e f g h =
     (let t1 = add32 (add32 (add32 (add32 h (rot32 26 e XOR rot32 21 e XOR rot32 7 e)) (g XOR (e AND (f XOR g)))) (hd Ks)) (hd W)
      in rounds256 ts (tl Ks)
           (tl W @ [add32 (add32 (add32 (rot32 15 (W ! 14) XOR rot32 13 (W ! 14) XOR drop_bit 10 (W ! 14)) (W ! 9))
                     (rot32 25 (W ! 1) XOR rot32 14 (W ! 1) XOR drop_bit 3 (W ! 1))) (hd W)])
           (add32 t1 (add32 (rot32 30 a XOR rot32 19 a XOR rot32 10 a) ((a AND b) OR (c AND (a OR b))))) a b c (add32 d t1) e f g)"

lemma rounds256_eq:
  assumes "fold (sha256_step M) [t..<t + n] (a, b, c, d, e, f, g, h) = (a', b', c', d', e', f', g', h')" "t + n \<le> 64"
  shows "rounds256 [t..<t + n] (map uint (drop t K)) (map (\<lambda>i. uint (sha256_schedule M i)) [t..<t + 16])
      (uint a) (uint b) (uint c) (uint d) (uint e) (uint f) (uint g) (uint h)
    = [uint a', uint b', uint c', uint d', uint e', uint f', uint g', uint h']"
  using assms
proof (induction n arbitrary: t a b c d e f g h)
  case 0
  then show ?case by simp
next
  case (Suc n)
  let ?S = "\<lambda>i. uint (sha256_schedule M i)" and ?W = "map (\<lambda>i. uint (sha256_schedule M i)) [t..<t + 16]"
  define T1 where "T1 = h + Sigma1 e + Ch e f g + K ! t + sha256_schedule M t"
  define T2 where "T2 = Sigma0 a + Maj a b c"
  have up: "[t..<t + Suc n] = t # [Suc t..<Suc t + n]" by (simp add: upt_conv_Cons)
  have W: "?W = ?S t # map ?S [Suc t..<t + 16]" by (simp add: upt_conv_Cons)
  have "length K = 64" by (simp add: K_def)
  then have K: "drop t K = K ! t # drop (Suc t) K" using Suc.prems(2) by (simp add: Cons_nth_drop_Suc)
  have "sha256_schedule M (t + 16) = sigma1 (sha256_schedule M (t + 14)) + sha256_schedule M (t + 9) + sigma0 (sha256_schedule M (t + 1)) + sha256_schedule M t"
    by (subst sha256_schedule.simps) (simp add: add.commute)
  then have "add32 (add32 (add32 (rot32 15 (?S (t + 14)) XOR rot32 13 (?S (t + 14)) XOR drop_bit 10 (?S (t + 14))) (?S (t + 9)))
      (rot32 25 (?S (t + 1)) XOR rot32 14 (?S (t + 1)) XOR drop_bit 3 (?S (t + 1)))) (?S t) = ?S (t + 16)"
    by (simp add: uint_ops sigma0_def sigma1_def)
  moreover have "map ?S [Suc t..<Suc t + 16] = map ?S [Suc t..<t + 16] @ [?S (t + 16)]" by (simp only: window) simp
  ultimately have win: "tl ?W @ [add32 (add32 (add32 (rot32 15 (?W ! 14) XOR rot32 13 (?W ! 14) XOR drop_bit 10 (?W ! 14)) (?W ! 9))
      (rot32 25 (?W ! 1) XOR rot32 14 (?W ! 1) XOR drop_bit 3 (?W ! 1))) (hd ?W)] = map ?S [Suc t..<Suc t + 16]"
    by (simp add: W nth_Cons' add.commute [of _ t] del: upt_Suc)
  have t1: "add32 (add32 (add32 (add32 (uint h) (rot32 26 (uint e) XOR rot32 21 (uint e) XOR rot32 7 (uint e)))
      (uint g XOR (uint e AND (uint f XOR uint g)))) (hd (map uint (drop t K)))) (hd ?W) = uint T1"
    by (simp add: T1_def uint_ops Sigma1_def Ch_eq [symmetric] K W del: upt_Suc)
  have t2: "add32 (rot32 30 (uint a) XOR rot32 19 (uint a) XOR rot32 10 (uint a)) ((uint a AND uint b) OR (uint c AND (uint a OR uint b))) = uint T2"
    by (simp add: T2_def uint_ops Sigma0_def Maj_eq [symmetric])
  have st: "sha256_step M t (a, b, c, d, e, f, g, h) = (T1 + T2, a, b, c, d + T1, e, f, g)"
    by (simp add: sha256_step_def Let_def T1_def T2_def)
  have "fold (sha256_step M) [Suc t..<Suc t + n] (T1 + T2, a, b, c, d + T1, e, f, g) = (a', b', c', d', e', f', g', h')"
    using Suc.prems(1) unfolding up fold_simps st .
  from Suc.IH [OF this] Suc.prems(2) show ?case unfolding up rounds256.simps win t1 t2 Let_def
    by (simp add: uint_ops K del: upt_Suc)
qed

definition block256 :: "int list \<Rightarrow> int list \<Rightarrow> int list" where
  "block256 H W = map2 add32 (rounds256 [0..<64] (map uint K) W (H ! 0) (H ! 1) (H ! 2) (H ! 3) (H ! 4) (H ! 5) (H ! 6) (H ! 7)) H"

lemma block256_eq:
  assumes "length H = 8"
  shows "map uint (sha256_block H M) = block256 (map uint H) (map (\<lambda>i. uint (block_word M i)) [0..<16])"
proof -
  obtain h0 h1 h2 h3 h4 h5 h6 h7 where H: "H = [h0, h1, h2, h3, h4, h5, h6, h7]"
    using assms by (auto simp: eval_nat_numeral length_Suc_conv)
  obtain a b c d e f g h where r: "fold (sha256_step M) [0..<64] (h0, h1, h2, h3, h4, h5, h6, h7) = (a, b, c, d, e, f, g, h)"
    by (metis prod.exhaust)
  have W: "map (\<lambda>i. uint (sha256_schedule M i)) [0..<16] = map (\<lambda>i. uint (block_word M i)) [0..<16]"
    by (simp add: sha256_schedule.simps)
  have "rounds256 [0..<64] (map uint K) (map (\<lambda>i. uint (sha256_schedule M i)) [0..<16])
      (uint h0) (uint h1) (uint h2) (uint h3) (uint h4) (uint h5) (uint h6) (uint h7)
      = [uint a, uint b, uint c, uint d, uint e, uint f, uint g, uint h]"
    using rounds256_eq [of M 0 64 h0 h1 h2 h3 h4 h5 h6 h7] r by (simp del: upt_rec_numeral)
  then show ?thesis unfolding W using r by (simp add: sha256_block_def block256_def H uint_ops del: upt_rec_numeral)
qed

section \<open>The paddings\<close>

text \<open>
  EMSA-PKCS1-v1_5 (RFC 8017) for 256 bytes: the prefix in front of a SHA-1 and of a SHA-256 digest. Its end is the start
  of the DER encoding of a DigestInfo: a sequence of an algorithm identifier (object identifier and NULL) and the header
  of an octet string.
\<close>

definition sha1_info :: "8 word list" where
  "sha1_info = [0x30, 0x21] @ ([0x30, 0x09] @ [0x06, 0x05] @ [0x2b, 0x0e, 0x03, 0x02, 0x1a] @ [0x05, 0x00]) @ [0x04, 0x14]"

definition sha256_info :: "8 word list" where
  "sha256_info = [0x30, 0x31] @ ([0x30, 0x0d] @ [0x06, 0x09] @ [0x60, 0x86, 0x48, 0x01, 0x65, 0x03, 0x04, 0x02, 0x01] @ [0x05, 0x00]) @ [0x04, 0x20]"

definition pkcs1_sha1 :: "8 word list" where
  "pkcs1_sha1 = [0x00, 0x01] @ replicate 218 0xff @ [0x00] @ sha1_info"

definition pkcs1_sha256 :: "8 word list" where
  "pkcs1_sha256 = [0x00, 0x01] @ replicate 202 0xff
     @ [0x00] @ sha256_info"

definition pad_b1 :: "8 word list" where "pad_b1 = [0x00, 0x01] @ replicate 62 0xff"
definition pad_b2 :: "8 word list" where "pad_b2 = replicate 64 0xff"
definition pad_b4 :: "8 word list" where
  "pad_b4 = replicate 28 0xff @ [0x00] @ sha1_info @ replicate 20 0"
definition pad_c4 :: "8 word list" where
  "pad_c4 = replicate 12 0xff @ [0x00] @ sha256_info
     @ replicate 32 0"
definition pad_b5 :: "8 word list" where "pad_b5 = 0x80 # replicate 55 0 @ [0, 0, 0, 0, 0, 0, 8, 0]"

lemma ff_split: "replicate 218 (0xff :: 8 word) = replicate 62 0xff @ replicate 64 0xff @ replicate 64 0xff @ replicate 28 0xff"
  by (simp only: replicate_add [symmetric]) simp

lemma length_bytes_256: "length_bytes 256 = [0, 0, 0, 0, 0, 0, 8, 0]"
  by (simp add: length_bytes_def upt_conv_Cons)

lemma pad_sha1_blocks: "blocks (pad_message (pkcs1_sha1 @ replicate 20 0)) = [pad_b1, pad_b2, pad_b2, pad_b4, pad_b5]"
proof -
  have "pad_message (pkcs1_sha1 @ replicate 20 0) = pad_b1 @ pad_b2 @ pad_b2 @ pad_b4 @ pad_b5"
  proof -
    have "(pkcs1_sha1 @ replicate 20 0) = pad_b1 @ pad_b2 @ pad_b2 @ pad_b4"
      unfolding pkcs1_sha1_def ff_split pad_b1_def pad_b2_def pad_b4_def by (simp only: append_assoc)
    moreover have "length (pkcs1_sha1 @ replicate 20 0) = 256" by (simp add: pkcs1_sha1_def sha1_info_def)
    ultimately show ?thesis by (simp add: pad_message_def pad_b5_def length_bytes_256)
  qed
  moreover have "length pad_b1 = 64" "length pad_b2 = 64" "length pad_b4 = 64" "length pad_b5 = 64"
    by (simp_all add: pad_b1_def pad_b2_def pad_b4_def pad_b5_def sha1_info_def)
  ultimately show ?thesis using blocks_block [of pad_b5 "[]"] by (simp add: blocks_block blocks_short)
qed

lemma pad_sha256_blocks: "blocks (pad_message (pkcs1_sha256 @ replicate 32 0)) = [pad_b1, pad_b2, pad_b2, pad_c4, pad_b5]"
proof -
  have "pad_message (pkcs1_sha256 @ replicate 32 0) = pad_b1 @ pad_b2 @ pad_b2 @ pad_c4 @ pad_b5"
  proof -
    have "replicate 202 (0xff :: 8 word) = replicate 62 0xff @ replicate 64 0xff @ replicate 64 0xff @ replicate 12 0xff"
      by (simp only: replicate_add [symmetric]) simp
    then have "(pkcs1_sha256 @ replicate 32 0) = pad_b1 @ pad_b2 @ pad_b2 @ pad_c4"
      unfolding pkcs1_sha256_def pad_b1_def pad_b2_def pad_c4_def by (simp only: append_assoc)
    moreover have "length (pkcs1_sha256 @ replicate 32 0) = 256" by (simp add: pkcs1_sha256_def sha256_info_def)
    ultimately show ?thesis by (simp add: pad_message_def pad_b5_def length_bytes_256)
  qed
  moreover have "length pad_b1 = 64" "length pad_b2 = 64" "length pad_c4 = 64" "length pad_b5 = 64"
    by (simp_all add: pad_b1_def pad_b2_def pad_c4_def pad_b5_def sha256_info_def)
  ultimately show ?thesis using blocks_block [of pad_b5 "[]"] by (simp add: blocks_block blocks_short)
qed

lemma uint_block_word:
  "uint (block_word M t) = uint (M ! (4 * t)) * 16777216 + uint (M ! (4 * t + 1)) * 65536 + uint (M ! (4 * t + 2)) * 256 + uint (M ! (4 * t + 3))"
proof -
  define x where "x = uint (M ! (4 * t)) * 16777216 + uint (M ! (4 * t + 1)) * 65536 + uint (M ! (4 * t + 2)) * 256 + uint (M ! (4 * t + 3))"
  have "block_word M t = word_of_int x" by (simp add: block_word_def x_def)
  moreover have "0 \<le> x" "x < 4294967296"
    using uint_bounded [of "M ! (4 * t)"] uint_bounded [of "M ! (4 * t + 1)"] uint_bounded [of "M ! (4 * t + 2)"] uint_bounded [of "M ! (4 * t + 3)"]
    by (simp_all add: x_def)
  ultimately have "uint (block_word M t) = x" by (simp add: uint_word_of_int)
  then show ?thesis by (simp add: x_def)
qed

lemma upto16: "[0..<16] = [0, 1, 2, 3, 4, 5, 6, 7, 8, 9, 10, 11, 12, 13, 14, 15]"
  by (simp add: upt_conv_Cons)

lemma words_b1: "map (\<lambda>i. uint (block_word pad_b1 i)) [0..<16] = [0x1ffff, 0xffffffff, 0xffffffff, 0xffffffff, 0xffffffff, 0xffffffff,
    0xffffffff, 0xffffffff, 0xffffffff, 0xffffffff, 0xffffffff, 0xffffffff, 0xffffffff, 0xffffffff, 0xffffffff, 0xffffffff]"
  unfolding upto16 uint_block_word pad_b1_def by (simp add: nth_append nth_Cons')

lemma words_b2: "map (\<lambda>i. uint (block_word pad_b2 i)) [0..<16] = [0xffffffff, 0xffffffff, 0xffffffff, 0xffffffff, 0xffffffff, 0xffffffff, 0xffffffff, 0xffffffff, 0xffffffff, 0xffffffff, 0xffffffff, 0xffffffff, 0xffffffff, 0xffffffff, 0xffffffff, 0xffffffff]"
  unfolding upto16 uint_block_word pad_b2_def by (simp add: nth_append nth_Cons')

lemma words_b4: "map (\<lambda>i. uint (block_word pad_b4 i)) [0..<16] = [0xffffffff, 0xffffffff, 0xffffffff, 0xffffffff, 0xffffffff, 0xffffffff, 0xffffffff, 0x302130, 0x906052b, 0xe03021a, 0x5000414, 0x0, 0x0, 0x0, 0x0, 0x0]"
  unfolding upto16 uint_block_word pad_b4_def sha1_info_def by (simp add: nth_append nth_Cons')

lemma words_b5: "map (\<lambda>i. uint (block_word pad_b5 i)) [0..<16] = [0x80000000, 0x0, 0x0, 0x0, 0x0, 0x0, 0x0, 0x0, 0x0, 0x0, 0x0, 0x0, 0x0, 0x0, 0x0, 0x800]"
  unfolding upto16 uint_block_word pad_b5_def by (simp add: nth_append nth_Cons')

lemma words_c4: "map (\<lambda>i. uint (block_word pad_c4 i)) [0..<16] = [0xffffffff, 0xffffffff, 0xffffffff, 0x303130, 0xd060960, 0x86480165, 0x3040201, 0x5000420, 0x0, 0x0, 0x0, 0x0, 0x0, 0x0, 0x0, 0x0]"
  unfolding upto16 uint_block_word pad_c4_def sha256_info_def by (simp add: nth_append nth_Cons')

text \<open>The rules that compute a block, and the states between the blocks.\<close>

lemma upto80: "[0..<80] = 0 # 1 # [2..<80]"
  by (simp add: upt_conv_Cons)

lemma upto64: "[0..<64] = 0 # 1 # [2..<64]"
  by (simp add: upt_conv_Cons)

lemma K_ints: "map uint K =
   [1116352408, 1899447441, 3049323471, 3921009573, 961987163, 1508970993, 2453635748, 2870763221,
    3624381080, 310598401, 607225278, 1426881987, 1925078388, 2162078206, 2614888103, 3248222580,
    3835390401, 4022224774, 264347078, 604807628, 770255983, 1249150122, 1555081692, 1996064986,
    2554220882, 2821834349, 2952996808, 3210313671, 3336571891, 3584528711, 113926993, 338241895,
    666307205, 773529912, 1294757372, 1396182291, 1695183700, 1986661051, 2177026350, 2456956037,
    2730485921, 2820302411, 3259730800, 3345764771, 3516065817, 3600352804, 4094571909, 275423344,
    430227734, 506948616, 659060556, 883997877, 958139571, 1322822218, 1537002063, 1747873779,
    1955562222, 2024104815, 2227730452, 2361852424, 2428436474, 2756734187, 3204031479, 3329325298]"
  by (simp add: K_def)

lemmas sha1_eval = block1_def add32_def rot32_def f1_def k1_def upto80

lemmas sha256_eval = block256_def add32_def rot32_def upto64 K_ints

lemma sha1_step1: "block1 [0x67452301, 0xefcdab89, 0x98badcfe, 0x10325476, 0xc3d2e1f0] [0x1ffff, 0xffffffff, 0xffffffff, 0xffffffff, 0xffffffff, 0xffffffff, 0xffffffff, 0xffffffff, 0xffffffff, 0xffffffff, 0xffffffff, 0xffffffff, 0xffffffff, 0xffffffff, 0xffffffff, 0xffffffff] = [0x4003f2f0, 0x75c62e8b, 0x9044a738, 0xdaa81547, 0xe09843a8]"
  by (simp add: sha1_eval)

lemma sha1_step2: "block1 [0x4003f2f0, 0x75c62e8b, 0x9044a738, 0xdaa81547, 0xe09843a8] [0xffffffff, 0xffffffff, 0xffffffff, 0xffffffff, 0xffffffff, 0xffffffff, 0xffffffff, 0xffffffff, 0xffffffff, 0xffffffff, 0xffffffff, 0xffffffff, 0xffffffff, 0xffffffff, 0xffffffff, 0xffffffff] = [0x69b147d3, 0xf655e90, 0xbd4c7e23, 0x3100d38e, 0x2778430e]"
  by (simp add: sha1_eval)

lemma sha1_step3: "block1 [0x69b147d3, 0xf655e90, 0xbd4c7e23, 0x3100d38e, 0x2778430e] [0xffffffff, 0xffffffff, 0xffffffff, 0xffffffff, 0xffffffff, 0xffffffff, 0xffffffff, 0xffffffff, 0xffffffff, 0xffffffff, 0xffffffff, 0xffffffff, 0xffffffff, 0xffffffff, 0xffffffff, 0xffffffff] = [0x7bf5ba85, 0xcd86fe7d, 0x3bc37161, 0xeeece7e, 0x4f86ba5c]"
  by (simp add: sha1_eval)

lemma sha1_step4: "block1 [0x7bf5ba85, 0xcd86fe7d, 0x3bc37161, 0xeeece7e, 0x4f86ba5c] [0xffffffff, 0xffffffff, 0xffffffff, 0xffffffff, 0xffffffff, 0xffffffff, 0xffffffff, 0x302130, 0x906052b, 0xe03021a, 0x5000414, 0x0, 0x0, 0x0, 0x0, 0x0] = [0x1cf8f9a1, 0x46ad33c4, 0xd22449ba, 0xc6a1830, 0xa008d5e2]"
  by (simp add: sha1_eval)

lemma sha1_step5: "block1 [0x1cf8f9a1, 0x46ad33c4, 0xd22449ba, 0xc6a1830, 0xa008d5e2] [0x80000000, 0x0, 0x0, 0x0, 0x0, 0x0, 0x0, 0x0, 0x0, 0x0, 0x0, 0x0, 0x0, 0x0, 0x0, 0x800] = [0xdcbdbe42, 0xd5f5a72e, 0x6efcf55d, 0xaf9dea68, 0x7cfbf167]"
  by (simp add: sha1_eval)

lemma sha256_step1: "block256 [0x6a09e667, 0xbb67ae85, 0x3c6ef372, 0xa54ff53a, 0x510e527f, 0x9b05688c, 0x1f83d9ab, 0x5be0cd19] [0x1ffff, 0xffffffff, 0xffffffff, 0xffffffff, 0xffffffff, 0xffffffff, 0xffffffff, 0xffffffff, 0xffffffff, 0xffffffff, 0xffffffff, 0xffffffff, 0xffffffff, 0xffffffff, 0xffffffff, 0xffffffff] = [0x4718c213, 0xaa28e37d, 0x5a33b2de, 0x4c08d13b, 0x3f3ee48, 0x5e20bb95, 0x5d155fec, 0xc2968de2]"
  by (simp add: sha256_eval cong: let_weak_cong)

lemma sha256_step2: "block256 [0x4718c213, 0xaa28e37d, 0x5a33b2de, 0x4c08d13b, 0x3f3ee48, 0x5e20bb95, 0x5d155fec, 0xc2968de2] [0xffffffff, 0xffffffff, 0xffffffff, 0xffffffff, 0xffffffff, 0xffffffff, 0xffffffff, 0xffffffff, 0xffffffff, 0xffffffff, 0xffffffff, 0xffffffff, 0xffffffff, 0xffffffff, 0xffffffff, 0xffffffff] = [0x79fc2b77, 0x1560fe71, 0x7c24e21f, 0x6952e49a, 0x6381733c, 0xbec6dcd3, 0xbeaad129, 0x3be24a03]"
  by (simp add: sha256_eval cong: let_weak_cong)

lemma sha256_step3: "block256 [0x79fc2b77, 0x1560fe71, 0x7c24e21f, 0x6952e49a, 0x6381733c, 0xbec6dcd3, 0xbeaad129, 0x3be24a03] [0xffffffff, 0xffffffff, 0xffffffff, 0xffffffff, 0xffffffff, 0xffffffff, 0xffffffff, 0xffffffff, 0xffffffff, 0xffffffff, 0xffffffff, 0xffffffff, 0xffffffff, 0xffffffff, 0xffffffff, 0xffffffff] = [0x3f049b79, 0x255691d5, 0x6e1b3482, 0x3b497317, 0xa7436f2d, 0xc29c3e44, 0xc8e469e4, 0x73460b63]"
  by (simp add: sha256_eval cong: let_weak_cong)

lemma sha256_step4: "block256 [0x3f049b79, 0x255691d5, 0x6e1b3482, 0x3b497317, 0xa7436f2d, 0xc29c3e44, 0xc8e469e4, 0x73460b63] [0xffffffff, 0xffffffff, 0xffffffff, 0x303130, 0xd060960, 0x86480165, 0x3040201, 0x5000420, 0x0, 0x0, 0x0, 0x0, 0x0, 0x0, 0x0, 0x0] = [0x228a00e4, 0x836ab0c8, 0xbe03161c, 0x8413c4c9, 0xe72758fd, 0x8237606d, 0xe42e7fb4, 0x46b6cedc]"
  by (simp add: sha256_eval cong: let_weak_cong)

lemma sha256_step5: "block256 [0x228a00e4, 0x836ab0c8, 0xbe03161c, 0x8413c4c9, 0xe72758fd, 0x8237606d, 0xe42e7fb4, 0x46b6cedc] [0x80000000, 0x0, 0x0, 0x0, 0x0, 0x0, 0x0, 0x0, 0x0, 0x0, 0x0, 0x0, 0x0, 0x0, 0x0, 0x800] = [0xab288d8a, 0xd7d95992, 0xbaccf867, 0x20e1152e, 0x398d8036, 0xd66ff0fd, 0x90e87d8b, 0xe17c8759]"
  by (simp add: sha256_eval cong: let_weak_cong)

section \<open>The digests\<close>

lemma map_uint_eq: "map uint (ws :: 32 word list) = xs \<Longrightarrow> ws = map word_of_int xs"
  by (induction ws arbitrary: xs) auto

text \<open>One block of either hash, from integers to integers.\<close>

lemma sha1_next:
  assumes "map uint H = xs" "length xs = 5" "map (\<lambda>i. uint (block_word M i)) [0..<16] = W" "block1 xs W = ys"
  shows "map uint (sha1_block H M) = ys"
  using assms block1_eq [of H M] by auto

lemma sha256_next:
  assumes "map uint H = xs" "length xs = 8" "map (\<lambda>i. uint (block_word M i)) [0..<16] = W" "block256 xs W = ys"
  shows "map uint (sha256_block H M) = ys"
  using assms block256_eq [of H M] by auto

lemma sha1_padding: "sha1 (pkcs1_sha1 @ replicate 20 0) =
    [0xdc, 0xbd, 0xbe, 0x42, 0xd5, 0xf5, 0xa7, 0x2e, 0x6e, 0xfc, 0xf5, 0x5d, 0xaf, 0x9d, 0xea, 0x68, 0x7c, 0xfb, 0xf1, 0x67]"
proof -
  let ?H = "[0x67452301, 0xefcdab89, 0x98badcfe, 0x10325476, 0xc3d2e1f0] :: 32 word list"
  have "map uint ?H = [0x67452301, 0xefcdab89, 0x98badcfe, 0x10325476, 0xc3d2e1f0]" by simp
  note 1 = sha1_next [OF this _ words_b1 sha1_step1, simplified]
  note 2 = sha1_next [OF 1 _ words_b2 sha1_step2, simplified]
  note 3 = sha1_next [OF 2 _ words_b2 sha1_step3, simplified]
  note 4 = sha1_next [OF 3 _ words_b4 sha1_step4, simplified]
  note 5 = sha1_next [OF 4 _ words_b5 sha1_step5, simplified]
  show ?thesis unfolding sha1_def pad_sha1_blocks foldl_Cons foldl_Nil map_uint_eq [OF 5] by (simp add: word_be_def)
qed

lemma sha256_padding: "sha256 (pkcs1_sha256 @ replicate 32 0) =
    [0xab, 0x28, 0x8d, 0x8a, 0xd7, 0xd9, 0x59, 0x92, 0xba, 0xcc, 0xf8, 0x67, 0x20, 0xe1, 0x15, 0x2e,
     0x39, 0x8d, 0x80, 0x36, 0xd6, 0x6f, 0xf0, 0xfd, 0x90, 0xe8, 0x7d, 0x8b, 0xe1, 0x7c, 0x87, 0x59]"
proof -
  let ?H = "[0x6a09e667, 0xbb67ae85, 0x3c6ef372, 0xa54ff53a, 0x510e527f, 0x9b05688c, 0x1f83d9ab, 0x5be0cd19] :: 32 word list"
  have "map uint ?H = [0x6a09e667, 0xbb67ae85, 0x3c6ef372, 0xa54ff53a, 0x510e527f, 0x9b05688c, 0x1f83d9ab, 0x5be0cd19]" by simp
  note 1 = sha256_next [OF this _ words_b1 sha256_step1, simplified]
  note 2 = sha256_next [OF 1 _ words_b2 sha256_step2, simplified]
  note 3 = sha256_next [OF 2 _ words_b2 sha256_step3, simplified]
  note 4 = sha256_next [OF 3 _ words_c4 sha256_step4, simplified]
  note 5 = sha256_next [OF 4 _ words_b5 sha256_step5, simplified]
  show ?thesis unfolding sha256_def pad_sha256_blocks foldl_Cons foldl_Nil map_uint_eq [OF 5] by (simp add: word_be_def)
qed

end
