(* ===== verification/Mincrypt_Rsa.thy ===== *)
theory Mincrypt_Rsa
  imports Android_Prelude Mincrypt_Sha
begin

text \<open>
  RSA signature verification of \<open>libmincrypt\<close> (\<open>rsa.c\<close>). Arrays of \<open>uint32_t\<close> are lists of integers, every
  operation wraps as its C type does; \<open>>>\<close> of a signed or unsigned value is division rounding down.
\<close>

section \<open>The key\<close>

definition RSANUMBYTES :: nat where "RSANUMBYTES = 256"

definition RSANUMWORDS :: nat where "RSANUMWORDS = RSANUMBYTES div 4"

record RSAPublicKey =
  rsa_len :: int
  n0inv :: int
  rsa_n :: "int list"
  rsa_rr :: "int list"
  exponent :: int

section \<open>Montgomery arithmetic\<close>

definition subM_step :: "RSAPublicKey \<Rightarrow> nat \<Rightarrow> int \<times> int list \<Rightarrow> int \<times> int list" where
  "subM_step key i = (\<lambda>(A, a).
     let A = i64 (A + u64 (a ! i - rsa_n key ! i))
     in (A div 4294967296, a[i := u32 A]))"

definition subM :: "RSAPublicKey \<Rightarrow> int list \<Rightarrow> int list" where
  "subM key a = snd (fold (subM_step key) [0..<nat (rsa_len key)] (0, a))"

primrec geM_loop :: "RSAPublicKey \<Rightarrow> int list \<Rightarrow> nat \<Rightarrow> bool" where
  "geM_loop key a 0 = True"
| "geM_loop key a (Suc i) =
     (if a ! i < rsa_n key ! i then False else if a ! i > rsa_n key ! i then True else geM_loop key a i)"

definition geM :: "RSAPublicKey \<Rightarrow> int list \<Rightarrow> bool" where
  "geM key a = geM_loop key a (nat (rsa_len key))"

text \<open>One turn of the loop of \<open>montMulAdd\<close>, on \<open>A\<close>, \<open>B\<close> and \<open>c\<close>.\<close>

definition mont_step :: "RSAPublicKey \<Rightarrow> int \<Rightarrow> int list \<Rightarrow> int \<Rightarrow> nat \<Rightarrow> int \<times> int \<times> int list \<Rightarrow> int \<times> int \<times> int list" where
  "mont_step key a b d0 i = (\<lambda>(A, B, c).
     let A = u64 (A div 4294967296 + u64 (a * b ! i) + c ! i);
         B = u64 (B div 4294967296 + u64 (d0 * rsa_n key ! i) + u32 A)
     in (A, B, c[i - 1 := u32 B]))"

definition montMulAdd :: "RSAPublicKey \<Rightarrow> int list \<Rightarrow> int \<Rightarrow> int list \<Rightarrow> int list" where
  "montMulAdd key c a b =
     (let A = u64 (u64 (a * b ! 0) + c ! 0);
          d0 = u32 (u32 A * n0inv key);
          B = u64 (u64 (d0 * rsa_n key ! 0) + u32 A);
          len = nat (rsa_len key)
      in case fold (mont_step key a b d0) [1..<len] (A, B, c) of
           (A, B, c) \<Rightarrow>
             let A = u64 (A div 4294967296 + B div 4294967296);
                 c = c[max 1 len - 1 := u32 A]
             in if A div 4294967296 \<noteq> 0 then subM key c else c)"

text \<open>The array \<open>c\<close> is cleared first; its old contents do not matter but its length does.\<close>

definition montMul :: "RSAPublicKey \<Rightarrow> int list \<Rightarrow> int list \<Rightarrow> int list \<Rightarrow> int list" where
  "montMul key c a b =
     (let len = nat (rsa_len key)
      in fold (\<lambda>i c. montMulAdd key c (a ! i) b) [0..<len] (replicate len 0 @ drop len c))"

text \<open>
  \<open>modpow\<close>. \<open>a0\<close>, \<open>aR0\<close> and \<open>aaR0\<close> are what the local arrays hold at the start. With any other exponent than the two it
  knows, \<open>aaa\<close> is still \<open>NULL\<close> when it is read.
\<close>

definition bytes_words :: "nat \<Rightarrow> 8 word list \<Rightarrow> int list" where
  "bytes_words len inout = map (\<lambda>i. uint (be_word (drop ((len - 1 - i) * 4) inout))) [0..<len]"

definition words_bytes :: "nat \<Rightarrow> int list \<Rightarrow> 8 word list" where
  "words_bytes len aaa = concat (map (\<lambda>i. word_be (word_of_int (aaa ! i))) (rev [0..<len]))"

definition mont_squares :: "RSAPublicKey \<Rightarrow> nat \<Rightarrow> int list \<times> int list \<Rightarrow> int list \<times> int list" where
  "mont_squares key i = (\<lambda>(aR, aaR). let aaR = montMul key aaR aR aR; aR = montMul key aR aaR aaR in (aR, aaR))"

type_synonym locals = "int list \<times> int list \<times> int list"

definition modpow :: "RSAPublicKey \<Rightarrow> locals \<Rightarrow> 8 word list \<Rightarrow> 8 word list res" where
  "modpow key = (\<lambda>(a0, aR0, aaR0) inout.
     (let len = nat (rsa_len key);
          a = bytes_words len inout @ drop len a0
      in rbind
           (if exponent key = 65537 then
              (let aR = montMul key aR0 a (rsa_rr key)
               in case fold (mont_squares key) [0..<8] (aR, aaR0) of (aR, aaR) \<Rightarrow> Inr (montMul key aaR aR a))
            else if exponent key = 3 then
              (let aR = montMul key aR0 a (rsa_rr key); aaR = montMul key aaR0 aR aR
               in Inr (montMul key aR aaR a))
            else Inl Null_deref)
           (\<lambda>aaa. Inr (words_bytes len (if geM key aaa then subM key aaa else aaa) @ drop (4 * len) inout))))"

section \<open>Verification\<close>

definition kExpectedPadShaRsa2048 :: "8 word list" where
  "kExpectedPadShaRsa2048 = [
    0xdc, 0xbd, 0xbe, 0x42, 0xd5, 0xf5, 0xa7, 0x2e,
    0x6e, 0xfc, 0xf5, 0x5d, 0xaf, 0x9d, 0xea, 0x68,
    0x7c, 0xfb, 0xf1, 0x67]"

definition kExpectedPadSha256Rsa2048 :: "8 word list" where
  "kExpectedPadSha256Rsa2048 = [
    0xab, 0x28, 0x8d, 0x8a, 0xd7, 0xd9, 0x59, 0x92,
    0xba, 0xcc, 0xf8, 0x67, 0x20, 0xe1, 0x15, 0x2e,
    0x39, 0x8d, 0x80, 0x36, 0xd6, 0x6f, 0xf0, 0xfd,
    0x90, 0xe8, 0x7d, 0x8b, 0xe1, 0x7c, 0x87, 0x59]"

text \<open>
  \<open>signature\<close> and \<open>hash\<close> are the arrays of \<open>len\<close> and \<open>hash_len\<close> bytes the caller passes, \<open>ctx\<close> and \<open>ws\<close> what the local
  context and the arrays of \<open>modpow\<close> hold at the start.
\<close>

definition xor_tail :: "8 word list \<Rightarrow> 8 word list \<Rightarrow> 8 word list" where
  "xor_tail buf h = take (length buf - length h) buf @ map2 (XOR) (drop (length buf - length h) buf) h"

definition RSA_verify ::
    "HASH_CTX \<Rightarrow> locals \<Rightarrow> RSAPublicKey \<Rightarrow> 8 word list \<Rightarrow> int \<Rightarrow> 8 word list \<Rightarrow> int \<Rightarrow> int res" where
  "RSA_verify ctx ws key signature len hash hash_len =
     (if rsa_len key \<noteq> int RSANUMWORDS then Inr 0
      else if len \<noteq> int RSANUMBYTES then Inr 0
      else if hash_len \<noteq> int SHA_DIGEST_SIZE \<and> hash_len \<noteq> int SHA256_DIGEST_SIZE then Inr 0
      else if exponent key \<noteq> 3 \<and> exponent key \<noteq> 65537 then Inr 0
      else rbind (modpow key ws (take (nat len) signature)) (\<lambda>buf.
        let buf = xor_tail buf (take (nat hash_len) hash);
            (digest, padding_hash) =
              (if hash_len = int SHA_DIGEST_SIZE then (SHA_hash ctx buf, kExpectedPadShaRsa2048)
               else (SHA256_hash ctx buf, kExpectedPadSha256Rsa2048))
        in Inr (if list_all2 (=) (take (nat hash_len) digest) (take (nat hash_len) padding_hash) then 1 else 0)))"

end
