(* ===== verification/Mincrypt_Rsa_Correct.thy ===== *)
theory Mincrypt_Rsa_Correct
  imports Mincrypt_Rsa Mincrypt_Padding
begin

text \<open>
  Correctness of \<open>rsa.c\<close>: \<open>montMul\<close> is Montgomery multiplication, \<open>modpow\<close> computes the power of the signature
  modulo the modulus, and \<open>RSA_verify\<close> accepts exactly the signatures whose power, with the expected hash
  taken out, hashes to the constant of the source.
\<close>

section \<open>Numbers as arrays of words\<close>

text \<open>The value of a little-endian array.\<close>

fun words_val :: "int list \<Rightarrow> int" where
  "words_val [] = 0"
| "words_val (x # xs) = x + 4294967296 * words_val xs"

definition words_ok :: "int list \<Rightarrow> bool" where
  "words_ok xs \<longleftrightarrow> (\<forall>x \<in> set xs. 0 \<le> x \<and> x < 4294967296)"

definition radix :: "nat \<Rightarrow> int" where
  "radix k = 4294967296 ^ k"

lemma radix_simps [simp]: "radix 0 = 1" "radix (Suc k) = 4294967296 * radix k" "0 < radix k"
  by (simp_all add: radix_def)

lemma words_val_append: "words_val (xs @ ys) = words_val xs + radix (length xs) * words_val ys"
  by (induction xs) (simp_all add: algebra_simps)

lemma words_val_snoc: "words_val (xs @ [y]) = words_val xs + radix (length xs) * y"
  by (simp add: words_val_append)

lemma words_val_take_Suc: "k < length xs \<Longrightarrow> words_val (take (Suc k) xs) = words_val (take k xs) + radix k * xs ! k"
  by (simp add: take_Suc_conv_app_nth words_val_snoc)

lemma words_val_replicate [simp]: "words_val (replicate n 0) = 0"
  by (induction n) simp_all

lemma words_val_bounds: "words_ok xs \<Longrightarrow> 0 \<le> words_val xs \<and> words_val xs < radix (length xs)"
proof (induction xs)
  case (Cons x xs)
  then have "0 \<le> x" "x < 4294967296" "0 \<le> words_val xs" "words_val xs < radix (length xs)" by (simp_all add: words_ok_def)
  then show ?case by simp
qed simp

lemma words_ok_nth: "words_ok xs \<Longrightarrow> i < length xs \<Longrightarrow> 0 \<le> xs ! i \<and> xs ! i < 4294967296"
  by (simp add: words_ok_def)

lemma words_ok_update: "words_ok xs \<Longrightarrow> words_ok (xs[i := u32 y])"
  using set_update_subset_insert [of xs i "u32 y"] u32_range [of y] by (auto simp: words_ok_def)

lemma words_ok_take: "words_ok xs \<Longrightarrow> words_ok (take k xs)"
  by (auto simp: words_ok_def dest: in_set_takeD)

section \<open>Subtraction and comparison\<close>

text \<open>A key as it is described in \<open>rsa.h\<close>: an odd modulus, \<open>-1 / n[0]\<close> and \<open>R^2\<close>.\<close>

definition modulus :: "RSAPublicKey \<Rightarrow> int" where
  "modulus key = words_val (rsa_n key)"

definition key_ok :: "RSAPublicKey \<Rightarrow> bool" where
  "key_ok key \<longleftrightarrow> 0 < rsa_len key \<and> length (rsa_n key) = nat (rsa_len key) \<and> length (rsa_rr key) = nat (rsa_len key)
     \<and> words_ok (rsa_n key) \<and> words_ok (rsa_rr key) \<and> (n0inv key * rsa_n key ! 0 + 1) mod 4294967296 = 0
     \<and> words_val (rsa_rr key) mod modulus key = (radix (nat (rsa_len key))) ^ 2 mod modulus key"

definition fits :: "RSAPublicKey \<Rightarrow> int list \<Rightarrow> bool" where
  "fits key a \<longleftrightarrow> length a = nat (rsa_len key) \<and> words_ok a"

lemma fits_val: "fits key a \<Longrightarrow> 0 \<le> words_val a \<and> words_val a < radix (nat (rsa_len key))"
  using words_val_bounds [of a] by (simp add: fits_def)

lemma modulus_bounds: "key_ok key \<Longrightarrow> 0 \<le> modulus key \<and> modulus key < radix (nat (rsa_len key))"
  using words_val_bounds [of "rsa_n key"] by (simp add: key_ok_def modulus_def)

lemma i64_u64: "i64 (A + u64 x) = i64 (A + x)"
  unfolding i64_def u64_def by (simp only: add.commute [of A] add.assoc mod_add_left_eq)

lemma fold_subM:
  assumes key: "key_ok key" and a: "fits key a" and k: "k \<le> nat (rsa_len key)"
  shows "\<exists>A a'. fold (subM_step key) [0..<k] (0, a) = (A, a') \<and> fits key a' \<and> drop k a' = drop k a \<and> (A = 0 \<or> A = -1)
    \<and> words_val (take k a') + radix k * A = words_val (take k a) - words_val (take k (rsa_n key))"
  using k
proof (induction k)
  case 0
  then show ?case using a by simp
next
  case (Suc k)
  then obtain A a' where IH: "fold (subM_step key) [0..<k] (0, a) = (A, a')" "fits key a'" "drop k a' = drop k a" "A = 0 \<or> A = -1"
    "words_val (take k a') + radix k * A = words_val (take k a) - words_val (take k (rsa_n key))" by auto
  let ?n = "rsa_n key"
  have len: "k < length a'" "k < length a" "k < length ?n" using Suc.prems key a IH(2) by (simp_all add: key_ok_def fits_def)
  have ak: "a' ! k = a ! k" using IH(3) len by (metis Cons_nth_drop_Suc list.inject)
  have b: "0 \<le> a ! k" "a ! k < 4294967296" "0 \<le> ?n ! k" "?n ! k < 4294967296"
    using a key len words_ok_nth by (auto simp: fits_def key_ok_def)
  define D where "D = A + (a ! k - ?n ! k)"
  have "i64 (A + u64 (a ! k - ?n ! k)) = i64 D" by (simp add: D_def i64_u64)
  also have "\<dots> = D" using IH(4) b by (intro i64_id) (auto simp: D_def)
  finally have i: "i64 (A + u64 (a' ! k - ?n ! k)) = D" by (simp add: ak)
  let ?a = "a'[k := u32 D]"
  have D: "D div 4294967296 = 0 \<or> D div 4294967296 = -1" "u32 D + 4294967296 * (D div 4294967296) = D"
    using IH(4) b by (auto simp: D_def u32_def)
  have "fold (subM_step key) [0..<Suc k] (0, a) = (D div 4294967296, ?a)"
    using IH(1) i by (simp add: subM_step_def Let_def)
  moreover have "fits key ?a" using IH(2) words_ok_update by (simp add: fits_def)
  moreover have "drop (Suc k) ?a = drop (Suc k) a" using IH(3) by (metis drop_Suc drop_update_cancel lessI tl_drop)
  moreover have "words_val (take (Suc k) ?a) = words_val (take k a') + radix k * u32 D"
    using len words_val_take_Suc [of k ?a] by simp
  moreover have "radix (Suc k) * q + radix k * r = radix k * (r + 4294967296 * q)" for q r by (simp add: algebra_simps)
  from this [of "D div 4294967296" "u32 D"] have "radix (Suc k) * (D div 4294967296) + radix k * u32 D = radix k * D" by (simp only: D(2))
  ultimately show ?case using IH(5) len D(1) words_val_take_Suc [of k a] words_val_take_Suc [of k ?n]
    by (intro exI [of _ "D div 4294967296"] exI [of _ ?a]) (auto simp: D_def algebra_simps)
qed

lemma subM_eq:
  assumes "key_ok key" "fits key a"
  shows "fits key (subM key a)" "words_val (subM key a) = (words_val a - modulus key) mod radix (nat (rsa_len key))"
proof -
  let ?k = "nat (rsa_len key)"
  obtain A a' where f: "fold (subM_step key) [0..<?k] (0, a) = (A, a')" "fits key a'" "A = 0 \<or> A = -1"
    "words_val (take ?k a') + radix ?k * A = words_val (take ?k a) - words_val (take ?k (rsa_n key))"
    using fold_subM [OF assms order_refl] by blast
  then show "fits key (subM key a)" by (simp add: subM_def)
  have "words_val a' = words_val a - modulus key + radix ?k * (- A)"
    using f assms by (simp add: fits_def key_ok_def modulus_def)
  then have "words_val a' mod radix ?k = (words_val a - modulus key) mod radix ?k" by (metis mod_mult_self2)
  then show "words_val (subM key a) = (words_val a - modulus key) mod radix ?k"
    using fits_val [OF f(2)] f(1) by (simp add: subM_def)
qed

lemma geM_loop_eq:
  assumes "key_ok key" "fits key a" "k \<le> nat (rsa_len key)"
  shows "geM_loop key a k \<longleftrightarrow> words_val (take k (rsa_n key)) \<le> words_val (take k a)"
  using assms(3)
proof (induction k)
  case (Suc k)
  let ?n = "rsa_n key"
  have len: "k < length a" "k < length ?n" using Suc.prems assms by (simp_all add: key_ok_def fits_def)
  have "words_ok (take k a)" "words_ok (take k ?n)" using assms words_ok_take by (auto simp: key_ok_def fits_def)
  then have b: "0 \<le> words_val (take k a)" "words_val (take k a) < radix k" "0 \<le> words_val (take k ?n)" "words_val (take k ?n) < radix k"
    using words_val_bounds [of "take k a"] words_val_bounds [of "take k ?n"] len by simp_all
  have step: "x + radix k * u < y + radix k * v" if "x < radix k" "0 \<le> y" "u < v" for x y u v
  proof -
    have "radix k * (u + 1) \<le> radix k * v" using that(3) by (intro mult_left_mono) (simp_all add: order_less_imp_le)
    then show ?thesis using that by (simp add: algebra_simps)
  qed
  consider "a ! k < ?n ! k" | "a ! k = ?n ! k" | "?n ! k < a ! k" by linarith
  then show ?case
  proof cases
    case 1
    then show ?thesis using len step [OF b(2,3) 1] by (simp add: words_val_take_Suc)
  next
    case 2
    then show ?thesis using len Suc by (simp add: words_val_take_Suc)
  next
    case 3
    then show ?thesis using len step [OF b(4,1) 3] by (simp add: words_val_take_Suc)
  qed
qed simp

lemma geM_eq: "key_ok key \<Longrightarrow> fits key a \<Longrightarrow> geM key a \<longleftrightarrow> modulus key \<le> words_val a"
  using geM_loop_eq [of key a "nat (rsa_len key)"] by (simp add: geM_def modulus_def key_ok_def fits_def)

section \<open>Montgomery multiplication\<close>

text \<open>No step of the loop overflows, and what it has so far is the sum without its lowest word.\<close>

lemma mont_no_overflow:
  assumes "0 \<le> x" "x < 4294967296" "0 \<le> y" "y < 4294967296" "0 \<le> z" "z < 4294967296" "0 \<le> w" "w < 4294967296"
  shows "u64 (z + u64 (x * y) + w) = z + x * y + w" "0 \<le> z + x * y + w" "z + x * y + w < 18446744073709551616"
proof -
  have "x * y \<le> 4294967295 * 4294967295" using assms by (intro mult_mono) simp_all
  moreover have "0 \<le> x * y" using assms by simp
  ultimately show "u64 (z + u64 (x * y) + w) = z + x * y + w" "0 \<le> z + x * y + w" "z + x * y + w < 18446744073709551616"
    using assms by (simp_all add: u64_id)
qed

lemma high_word: "0 \<le> x \<Longrightarrow> x < 18446744073709551616 \<Longrightarrow> 0 \<le> x div 4294967296 \<and> x div 4294967296 < (4294967296 :: int)"
  by auto

lemma mont_algebra:
  fixes C a Bv d N M V h R l h' bk ck nk R0 :: int
  assumes "C + a * Bv + d * N = M * V + h * R" "l + M * h' = h + a * bk + ck + d * nk" "R = M * R0"
  shows "(C + R * ck) + a * (Bv + R * bk) + d * (N + R * nk) = M * (V + R0 * l) + h' * (M * R)"
  using assms by algebra

lemma fold_mont:
  assumes key: "key_ok key" and b: "fits key b" and c: "fits key c" and a: "0 \<le> a" "a < 4294967296" and d0: "0 \<le> d0" "d0 < 4294967296"
    and A0: "A0 = a * b ! 0 + c ! 0" and B0: "B0 = d0 * rsa_n key ! 0 + u32 A0" "B0 mod 4294967296 = 0"
    and k: "1 \<le> k" "k \<le> nat (rsa_len key)"
  shows "\<exists>A B c'. fold (mont_step key a b d0) [1..<k] (A0, B0, c) = (A, B, c') \<and> fits key c' \<and> drop k c' = drop k c
    \<and> 0 \<le> A \<and> A < 18446744073709551616 \<and> 0 \<le> B \<and> B < 18446744073709551616
    \<and> words_val (take k c) + a * words_val (take k b) + d0 * words_val (take k (rsa_n key))
      = 4294967296 * words_val (take (k - 1) c') + (A div 4294967296 + B div 4294967296) * radix k"
  using k
proof (induction k rule: dec_induct)
  case base
  let ?n = "rsa_n key"
  have len: "0 < length b" "0 < length c" "0 < length ?n" using key b c by (auto simp: fits_def key_ok_def)
  then have w: "0 \<le> b ! 0" "b ! 0 < 4294967296" "0 \<le> c ! 0" "c ! 0 < 4294967296" "0 \<le> ?n ! 0" "?n ! 0 < 4294967296"
    using key b c words_ok_nth by (auto simp: fits_def key_ok_def)
  have A: "0 \<le> A0" "A0 < 18446744073709551616" using mont_no_overflow(2,3) [OF a w(1,2) order_refl _ w(3,4)] by (simp_all add: A0)
  have B: "0 \<le> B0" "B0 < 18446744073709551616"
    using mont_no_overflow(2,3) [OF d0 w(5,6) order_refl _ u32_range, of A0] by (simp_all add: B0(1))
  have "c ! 0 + a * b ! 0 + d0 * ?n ! 0 = 4294967296 * (A0 div 4294967296) + B0" by (simp add: A0 B0(1) u32_def)
  also have "B0 = 4294967296 * (B0 div 4294967296)" using B0(2) by auto
  finally have "c ! 0 + a * b ! 0 + d0 * ?n ! 0 = 4294967296 * (A0 div 4294967296 + B0 div 4294967296)" by simp
  then show ?case using A B c len words_val_take_Suc [of 0 b] words_val_take_Suc [of 0 c] words_val_take_Suc [of 0 ?n]
    by (simp add: mult.commute)
next
  case (step k)
  let ?n = "rsa_n key"
  from step obtain A B c' where IH: "fold (mont_step key a b d0) [1..<k] (A0, B0, c) = (A, B, c')" "fits key c'" "drop k c' = drop k c"
    "0 \<le> A" "A < 18446744073709551616" "0 \<le> B" "B < 18446744073709551616"
    "words_val (take k c) + a * words_val (take k b) + d0 * words_val (take k ?n)
      = 4294967296 * words_val (take (k - 1) c') + (A div 4294967296 + B div 4294967296) * radix k" by auto
  have len: "k < length b" "k < length c" "k < length ?n" "k < length c'" using step key b c IH(2) by (auto simp: fits_def key_ok_def)
  have ck: "c' ! k = c ! k" using IH(3) len by (metis Cons_nth_drop_Suc list.inject)
  have w: "0 \<le> b ! k" "b ! k < 4294967296" "0 \<le> c ! k" "c ! k < 4294967296" "0 \<le> ?n ! k" "?n ! k < 4294967296"
    using key b c len words_ok_nth by (auto simp: fits_def key_ok_def)
  define A1 where "A1 = A div 4294967296 + a * b ! k + c ! k"
  define B1 where "B1 = B div 4294967296 + d0 * ?n ! k + u32 A1"
  let ?c = "c'[k - 1 := u32 B1]"
  note hA = high_word [OF IH(4,5)] and hB = high_word [OF IH(6,7)]
  note ovA = mont_no_overflow [OF a w(1,2) conjunct1 [OF hA] conjunct2 [OF hA] w(3,4)]
  note ovB = mont_no_overflow [OF d0 w(5,6) conjunct1 [OF hB] conjunct2 [OF hB] u32_range, of A1]
  have "fold (mont_step key a b d0) [1..<Suc k] (A0, B0, c) = (A1, B1, ?c)"
    using IH(1) ovA(1) ovB(1) step(1) by (simp add: mont_step_def Let_def ck A1_def B1_def)
  moreover have "fits key ?c" using IH(2) words_ok_update by (simp add: fits_def)
  moreover have "drop (Suc k) ?c = drop (Suc k) c" using IH(3) by (metis diff_le_self drop_Suc drop_update_cancel le_imp_less_Suc tl_drop)
  moreover have "words_val (take k ?c) = words_val (take (k - 1) c') + radix (k - 1) * u32 B1"
    using len step(1) words_val_take_Suc [of "k - 1" ?c] by simp
  moreover have r: "radix k = 4294967296 * radix (k - 1)" using step(1) by (cases k) simp_all
  moreover have "u32 B1 + 4294967296 * (A1 div 4294967296 + B1 div 4294967296)
      = (A div 4294967296 + B div 4294967296) + a * b ! k + c ! k + d0 * ?n ! k"
    by (simp add: u32_def B1_def A1_def)
  from mont_algebra [OF IH(8) this r] have "words_val (take (Suc k) c) + a * words_val (take (Suc k) b) + d0 * words_val (take (Suc k) ?n)
      = 4294967296 * (words_val (take (k - 1) c') + radix (k - 1) * u32 B1) + (A1 div 4294967296 + B1 div 4294967296) * radix (Suc k)"
    using len by (simp only: words_val_take_Suc radix_simps)
  ultimately show ?case using ovA(2,3) ovB(2,3) unfolding A1_def [symmetric] B1_def [symmetric]
    by (intro exI [of _ A1, OF exI [of _ B1, OF exI [of _ ?c]]] conjI)
      (assumption | simp del: upt_Suc)+
qed

lemma mod_add_mult: "(x + n * (y mod m)) mod m = (x + n * y) mod (m :: int)"
  by (metis mod_add_right_eq mod_mult_right_eq)

text \<open>\<open>montMulAdd\<close>: the result times \<open>2^32\<close> is \<open>c + a b\<close> modulo the modulus.\<close>

lemma mont_final:
  assumes key: "key_ok key" and c: "fits key c" and h: "h = 0 \<or> h = 1"
    and sum: "words_val c + h * radix (nat (rsa_len key)) < v + modulus key" and v: "v < radix (nat (rsa_len key))"
    and T: "t + d * modulus key = 4294967296 * (words_val c + h * radix (nat (rsa_len key)))"
  shows "fits key (if h \<noteq> 0 then subM key c else c)" "words_val (if h \<noteq> 0 then subM key c else c) < v + modulus key"
    "\<exists>q. words_val (if h \<noteq> 0 then subM key c else c) * 4294967296 = t + q * modulus key"
proof -
  let ?r = "if h \<noteq> 0 then subM key c else c" and ?R = "radix (nat (rsa_len key))" and ?N = "modulus key"
  have "fits key ?r \<and> words_val ?r < v + ?N \<and> (\<exists>q. words_val ?r * 4294967296 = t + q * ?N)"
  proof (cases "h = 0")
    case True
    then show ?thesis using c sum T by (intro conjI exI [of _ d]) simp_all
  next
    case False
    then have one: "h = 1" using h by simp
    then have "words_val c < ?N" using sum v by simp
    then have "(words_val c - ?N) mod ?R = words_val c - ?N + ?R"
      using modulus_bounds [OF key] fits_val [OF c] mod_pos_pos_trivial [of "words_val c - ?N + ?R" ?R] by simp
    then have "words_val ?r = words_val c - ?N + ?R" using False subM_eq(2) [OF key c] by simp
    then show ?thesis using False subM_eq(1) [OF key c] sum T one modulus_bounds [OF key]
      by (intro conjI exI [of _ "d - 4294967296"]) (simp_all add: algebra_simps)
  qed
  then show "fits key ?r" "words_val ?r < v + modulus key" "\<exists>q. words_val ?r * 4294967296 = t + q * modulus key" by simp_all
qed

lemma montMulAdd_eq:
  assumes key: "key_ok key" and b: "fits key b" and c: "fits key c" and a: "0 \<le> a" "a < 4294967296"
    and bound: "words_val c < words_val b + modulus key"
  shows "fits key (montMulAdd key c a b)" "words_val (montMulAdd key c a b) < words_val b + modulus key"
    "\<exists>q. words_val (montMulAdd key c a b) * 4294967296 = words_val c + a * words_val b + q * modulus key"
proof -
  let ?k = "nat (rsa_len key)" and ?n = "rsa_n key" and ?N = "modulus key"
  have len: "0 < length b" "0 < length c" "0 < length ?n" "1 \<le> ?k" using key b c by (auto simp: fits_def key_ok_def)
  then have w: "0 \<le> b ! 0" "b ! 0 < 4294967296" "0 \<le> c ! 0" "c ! 0 < 4294967296" "0 \<le> ?n ! 0" "?n ! 0 < 4294967296"
    using key b c words_ok_nth by (auto simp: fits_def key_ok_def)
  define A0 where "A0 = a * b ! 0 + c ! 0"
  define d0 where "d0 = u32 (u32 A0 * n0inv key)"
  define B0 where "B0 = d0 * ?n ! 0 + u32 A0"
  have d0: "0 \<le> d0" "d0 < 4294967296" by (simp_all add: d0_def u32_range)
  have uA: "u64 (u64 (a * b ! 0) + c ! 0) = A0" using mont_no_overflow(1) [OF a w(1,2) order_refl _ w(3,4)] by (simp add: A0_def)
  have uB: "u64 (u64 (d0 * ?n ! 0) + u32 A0) = B0" using mont_no_overflow(1) [OF d0 w(5,6) order_refl _ u32_range] by (simp add: B0_def)
  have "B0 mod 4294967296 = (A0 * (n0inv key * ?n ! 0 + 1)) mod 4294967296"
    by (simp add: B0_def d0_def u32_def mod_simps add.commute [of _ A0] mult.commute [of _ "?n ! 0"] mod_add_mult) (simp add: algebra_simps)
  also have "\<dots> = 0" using key by (metis key_ok_def mod_mult_right_eq mult_zero_right mod_0)
  finally have low: "B0 mod 4294967296 = 0" .
  obtain A B c' where f: "fold (mont_step key a b d0) [1..<?k] (A0, B0, c) = (A, B, c')" "fits key c'"
    "0 \<le> A" "A < 18446744073709551616" "0 \<le> B" "B < 18446744073709551616"
    "words_val c + a * words_val b + d0 * ?N = 4294967296 * words_val (take (?k - 1) c') + (A div 4294967296 + B div 4294967296) * radix ?k"
    using fold_mont [OF key b c a d0 A0_def B0_def low len(4) order_refl] key b c by (auto simp: fits_def key_ok_def modulus_def)
  define X where "X = A div 4294967296 + B div 4294967296"
  have X: "0 \<le> X" "X < 2 * 4294967296" using high_word [OF f(3,4)] high_word [OF f(5,6)] by (auto simp: X_def)
  let ?c = "c'[?k - 1 := u32 X]"
  have c1: "fits key ?c" using f(2) words_ok_update by (simp add: fits_def)
  have r: "radix ?k = 4294967296 * radix (?k - 1)" using len(4) by (cases ?k) simp_all
  have "words_val ?c = words_val (take (?k - 1) c') + radix (?k - 1) * u32 X"
    using len(4) f(2) words_val_take_Suc [of "?k - 1" ?c] by (simp add: fits_def)
  moreover have "u32 X + 4294967296 * (X div 4294967296) = X" by (simp add: u32_def)
  ultimately have T: "words_val c + a * words_val b + d0 * ?N = 4294967296 * (words_val ?c + (X div 4294967296) * radix ?k)"
    using f(7) r unfolding X_def [symmetric] by algebra
  have N: "0 \<le> ?N" using modulus_bounds [OF key] by simp
  have bv: "0 \<le> words_val b" "words_val b < radix ?k" using fits_val [OF b] by simp_all
  have "a * words_val b \<le> 4294967295 * words_val b" "d0 * ?N \<le> 4294967295 * ?N"
    using a d0 bv N by (simp_all add: mult_right_mono)
  moreover define S where "S = words_val ?c + (X div 4294967296) * radix ?k"
  ultimately have "S < words_val b + ?N" using T bound unfolding S_def [symmetric] by linarith
  then have sum: "words_val ?c + (X div 4294967296) * radix ?k < words_val b + ?N" by (simp only: S_def)
  have m: "montMulAdd key c a b = (if X div 4294967296 \<noteq> 0 then subM key ?c else ?c)"
    using f(1) X len(4) uA uB
    by (simp add: montMulAdd_def Let_def u64_id d0_def [symmetric] X_def [symmetric] max_def Suc_le_eq)
  have h: "X div 4294967296 = 0 \<or> X div 4294967296 = 1" using X by auto
  show "fits key (montMulAdd key c a b)" "words_val (montMulAdd key c a b) < words_val b + modulus key"
    "\<exists>q. words_val (montMulAdd key c a b) * 4294967296 = words_val c + a * words_val b + q * modulus key"
    unfolding m by (rule mont_final [OF key c1 h sum bv(2) T])+
qed

lemma modulus_odd: "key_ok key \<Longrightarrow> odd (modulus key)"
proof -
  assume key: "key_ok key"
  then obtain x xs where n: "rsa_n key = x # xs" by (cases "rsa_n key") (auto simp: key_ok_def)
  have "4294967296 dvd n0inv key * x + 1" using key n by (auto simp: key_ok_def)
  then have "even (n0inv key * x + 1)" by (rule dvd_trans [rotated]) simp
  then show ?thesis by (auto simp: modulus_def n)
qed

lemma modulus_pos: "key_ok key \<Longrightarrow> 0 < modulus key"
  using modulus_odd [of key] modulus_bounds [of key] by (cases "modulus key = 0") auto

lemma fold_montMul:
  assumes key: "key_ok key" and a: "fits key a" and b: "fits key b" and k: "k \<le> nat (rsa_len key)"
  shows "\<exists>c. fold (\<lambda>i c. montMulAdd key c (a ! i) b) [0..<k] (replicate (nat (rsa_len key)) 0) = c
    \<and> fits key c \<and> words_val c < words_val b + modulus key \<and> (\<exists>q. words_val c * radix k = words_val (take k a) * words_val b + q * modulus key)"
  using k
proof (induction k)
  case 0
  then show ?case using modulus_pos [OF key] fits_val [OF b] by (auto simp: fits_def words_ok_def intro: exI [of _ 0])
next
  case (Suc k)
  then obtain c q where IH: "fold (\<lambda>i c. montMulAdd key c (a ! i) b) [0..<k] (replicate (nat (rsa_len key)) 0) = c"
    "fits key c" "words_val c < words_val b + modulus key" "words_val c * radix k = words_val (take k a) * words_val b + q * modulus key" by auto
  have len: "k < length a" using Suc.prems a by (simp add: fits_def)
  have ak: "0 \<le> a ! k" "a ! k < 4294967296" using a len words_ok_nth by (auto simp: fits_def)
  note m = montMulAdd_eq [OF key b IH(2) ak IH(3)]
  obtain q' where q': "words_val (montMulAdd key c (a ! k) b) * 4294967296 = words_val c + a ! k * words_val b + q' * modulus key" using m(3) by blast
  have "words_val (montMulAdd key c (a ! k) b) * radix (Suc k) = words_val (take (Suc k) a) * words_val b + (q + q' * radix k) * modulus key"
    using IH(4) q' words_val_take_Suc [OF len] radix_simps(2) [of k] by algebra
  then show ?case using m(1,2) IH(1) by (intro exI [of _ "montMulAdd key c (a ! k) b"]) auto
qed

text \<open>\<open>montMul\<close>: the product divided by \<open>R\<close>, modulo the modulus.\<close>

lemma montMul_eq:
  assumes "key_ok key" "fits key a" "fits key b" "length c = nat (rsa_len key)"
  shows "fits key (montMul key c a b)" "words_val (montMul key c a b) < words_val b + modulus key"
    "words_val (montMul key c a b) * radix (nat (rsa_len key)) mod modulus key = words_val a * words_val b mod modulus key"
proof -
  obtain d q where d: "fold (\<lambda>i c. montMulAdd key c (a ! i) b) [0..<nat (rsa_len key)] (replicate (nat (rsa_len key)) 0) = d"
    "fits key d" "words_val d < words_val b + modulus key" "words_val d * radix (nat (rsa_len key)) = words_val a * words_val b + q * modulus key"
    using fold_montMul [OF assms(1-3) order_refl] assms(2) by (auto simp: fits_def)
  then have "montMul key c a b = d" using assms(4) by (simp add: montMul_def)
  with d show "fits key (montMul key c a b)" "words_val (montMul key c a b) < words_val b + modulus key"
    "words_val (montMul key c a b) * radix (nat (rsa_len key)) mod modulus key = words_val a * words_val b mod modulus key"
    by simp_all
qed

section \<open>Exponentiation\<close>

lemma radix_cancel:
  assumes "key_ok key" "x * radix k mod modulus key = y * radix k mod modulus key"
  shows "x mod modulus key = y mod modulus key"
proof -
  have "coprime (modulus key) 2" using modulus_odd [OF assms(1)] by simp
  moreover have "radix k = 2 ^ (32 * k)" by (simp add: radix_def power_mult)
  ultimately have "coprime (modulus key) (radix k)" by simp
  moreover have "modulus key dvd (x - y) * radix k"
    using assms(2) by (simp add: mod_eq_dvd_iff left_diff_distrib)
  ultimately have "modulus key dvd x - y" by (simp add: coprime_dvd_mult_left_iff)
  then show ?thesis by (simp add: mod_eq_dvd_iff)
qed

text \<open>The Montgomery form of \<open>x\<close>: an array with the value \<open>x R\<close> modulo the modulus.\<close>

definition mont_form :: "RSAPublicKey \<Rightarrow> int \<Rightarrow> int list \<Rightarrow> bool" where
  "mont_form key x c \<longleftrightarrow> fits key c \<and> words_val c mod modulus key = x * radix (nat (rsa_len key)) mod modulus key"

lemma mont_form_mult:
  assumes key: "key_ok key" and "mont_form key x a" "mont_form key y b" "length c = nat (rsa_len key)"
  shows "mont_form key (x * y) (montMul key c a b)"
proof -
  let ?R = "radix (nat (rsa_len key))" and ?N = "modulus key" and ?c = "montMul key c a b"
  have f: "fits key a" "fits key b" "words_val a mod ?N = x * ?R mod ?N" "words_val b mod ?N = y * ?R mod ?N"
    using assms(2,3) by (auto simp: mont_form_def)
  note m = montMul_eq [OF key f(1,2) assms(4)]
  have "words_val ?c * ?R mod ?N = (x * ?R) * (y * ?R) mod ?N" using m(3) f(3,4) by (metis mod_mult_eq)
  then have "words_val ?c mod ?N = (x * y) * ?R mod ?N" by - (rule radix_cancel [OF key, where k = "nat (rsa_len key)"], simp add: mult_ac)
  then show ?thesis using m(1) by (simp add: mont_form_def)
qed

text \<open>Multiplying a Montgomery form by a plain number gives a plain number.\<close>

lemma mont_form_plain:
  assumes key: "key_ok key" and a: "mont_form key x a" and b: "fits key b" and "length c = nat (rsa_len key)"
  shows "fits key (montMul key c a b)" "words_val (montMul key c a b) < words_val b + modulus key"
    "words_val (montMul key c a b) mod modulus key = x * words_val b mod modulus key"
proof -
  let ?R = "radix (nat (rsa_len key))" and ?N = "modulus key" and ?c = "montMul key c a b"
  have f: "fits key a" "words_val a mod ?N = x * ?R mod ?N" using a by (auto simp: mont_form_def)
  note m = montMul_eq [OF key f(1) b assms(4)]
  show "fits key ?c" "words_val ?c < words_val b + ?N" using m(1,2) by simp_all
  have "words_val ?c * ?R mod ?N = (x * ?R) * words_val b mod ?N" using m(3) f(2) by (metis mod_mult_left_eq)
  then show "words_val ?c mod ?N = x * words_val b mod ?N" by - (rule radix_cancel [OF key, where k = "nat (rsa_len key)"], simp add: mult_ac)
qed

lemma mont_form_enter:
  assumes key: "key_ok key" and a: "fits key a" and "length c = nat (rsa_len key)"
  shows "mont_form key (words_val a) (montMul key c a (rsa_rr key))"
proof -
  let ?R = "radix (nat (rsa_len key))" and ?N = "modulus key"
  have "mont_form key ?R (rsa_rr key)" using key by (simp add: mont_form_def key_ok_def fits_def power2_eq_square)
  moreover have rr: "fits key (rsa_rr key)" using key by (simp add: key_ok_def fits_def)
  note m = montMul_eq [OF key a rr assms(3)]
  have "words_val (montMul key c a (rsa_rr key)) * ?R mod ?N = words_val a * ?R ^ 2 mod ?N"
    using m(3) key by (metis key_ok_def mod_mult_right_eq)
  then have "words_val (montMul key c a (rsa_rr key)) mod ?N = words_val a * ?R mod ?N"
    by - (rule radix_cancel [OF key, where k = "nat (rsa_len key)"], simp add: power2_eq_square mult_ac)
  then show ?thesis using m(1) by (simp add: mont_form_def)
qed

lemma mont_squares_eq:
  assumes key: "key_ok key" and "mont_form key x aR" "length aaR = nat (rsa_len key)"
  shows "\<exists>aR' aaR'. fold (mont_squares key) [0..<k] (aR, aaR) = (aR', aaR') \<and> mont_form key (x ^ (4 ^ k)) aR' \<and> length aaR' = nat (rsa_len key)"
proof (induction k)
  case (Suc k)
  then obtain aR' aaR' where IH: "fold (mont_squares key) [0..<k] (aR, aaR) = (aR', aaR')" "mont_form key (x ^ (4 ^ k)) aR'"
    "length aaR' = nat (rsa_len key)" by auto
  define b where "b = montMul key aaR' aR' aR'"
  have b: "mont_form key (x ^ (4 ^ k) * x ^ (4 ^ k)) b" using mont_form_mult [OF key IH(2,2,3)] by (simp add: b_def)
  moreover have "length aR' = nat (rsa_len key)" using IH(2) by (simp add: mont_form_def fits_def)
  ultimately have "mont_form key ((x ^ (4 ^ k) * x ^ (4 ^ k)) * (x ^ (4 ^ k) * x ^ (4 ^ k))) (montMul key aR' b b)"
    using mont_form_mult [OF key] by blast
  moreover have "(x ^ (4 ^ k) * x ^ (4 ^ k)) * (x ^ (4 ^ k) * x ^ (4 ^ k)) = x ^ (4 ^ Suc k)"
    using power_add [of x "4 ^ k" "4 ^ k"] power_add [of x "4 ^ k + 4 ^ k" "4 ^ k + 4 ^ k"] by (simp add: mult_2 [symmetric])
  ultimately have "mont_form key (x ^ (4 ^ Suc k)) (montMul key aR' b b)" by (simp only:)
  moreover have "fold (mont_squares key) [0..<Suc k] (aR, aaR) = (montMul key aR' b b, b)"
    using IH(1) by (simp add: mont_squares_def Let_def b_def)
  ultimately show ?case using b by (auto simp: mont_form_def fits_def)
qed (use assms in simp)

section \<open>Bytes\<close>

text \<open>The number a big-endian string of bytes stands for, and the string for a number.\<close>

definition be_val :: "8 word list \<Rightarrow> int" where
  "be_val p = foldl (\<lambda>v b. v * 256 + uint b) 0 p"

definition i2osp :: "nat \<Rightarrow> int \<Rightarrow> 8 word list" where
  "i2osp n x = map (\<lambda>i. word_of_int (x div 256 ^ (n - 1 - i))) [0..<n]"

lemma uint_bounds: "0 \<le> uint (w :: 'a :: len word) \<and> uint w < 2 ^ LENGTH('a)"
  using uint_bounded [of w] by simp

lemma be_val_foldl: "foldl (\<lambda>v b. v * 256 + uint b) x p = x * 256 ^ length p + be_val p"
proof (induction p rule: rev_induct)
  case (snoc b p)
  then show ?case by (simp add: be_val_def algebra_simps)
qed (simp add: be_val_def)

lemma be_val_append: "be_val (p @ q) = be_val p * 256 ^ length q + be_val q"
  using be_val_foldl [of "be_val p" q] by (simp add: be_val_def)

lemma be_val_snoc [simp]: "be_val [] = 0" "be_val (p @ [b]) = be_val p * 256 + uint b"
  by (simp_all add: be_val_def)

lemma be_val_range: "0 \<le> be_val p \<and> be_val p < 256 ^ length p"
proof (induction p rule: rev_induct)
  case (snoc b p)
  have "0 \<le> uint b" "uint b < 256" using uint_bounds [of b] by simp_all
  with snoc show ?case by simp
qed simp

lemma i2osp_Suc: "i2osp (Suc n) x = i2osp n (x div 256) @ [word_of_int x]"
proof -
  have "x div 256 ^ (n - i) = x div 256 div 256 ^ (n - 1 - i)" if "i < n" for i
  proof -
    have "n - i = Suc (n - 1 - i)" using that by simp
    then show ?thesis by (simp add: zdiv_zmult2_eq)
  qed
  then show ?thesis by (simp add: i2osp_def)
qed

lemma i2osp_be_val: "i2osp (length p) (be_val p) = p"
proof (induction p rule: rev_induct)
  case (snoc b p)
  have "uint b < 256" "0 \<le> uint b" using uint_bounds [of b] by simp_all
  then have "(be_val p * 256 + uint b) div 256 = be_val p" by simp
  moreover have "word_of_int (be_val p * 256 + uint b) = b"
    unfolding word_uint_eq_iff uint_word_of_int_eq using \<open>uint b < 256\<close> by (simp add: take_bit_eq_mod)
  ultimately show ?case using snoc by (simp add: i2osp_Suc)
qed (simp add: i2osp_def)

lemma uint_be_word:
  assumes "length p = 4"
  shows "uint (be_word (p @ q)) = be_val p"
proof -
  obtain b0 b1 b2 b3 where p: "p = [b0, b1, b2, b3]" using assms by (auto simp: eval_nat_numeral length_Suc_conv)
  have r: "0 \<le> uint b0" "uint b0 < 256" "0 \<le> uint b1" "uint b1 < 256" "0 \<le> uint b2" "uint b2 < 256" "0 \<le> uint b3" "uint b3 < 256"
    using uint_bounds [of b0] uint_bounds [of b1] uint_bounds [of b2] uint_bounds [of b3] by simp_all
  define x where "x = uint b0 * 16777216 + uint b1 * 65536 + uint b2 * 256 + uint b3"
  have "be_word (p @ q) = word_of_int x"
    by (simp add: be_word_plus p x_def)
  moreover have "0 \<le> x" "x < 4294967296" using r by (simp_all add: x_def)
  ultimately have "uint (be_word (p @ q)) = x" by (simp add: uint_word_of_int)
  moreover have "be_val p = x" by (simp add: p be_val_def x_def)
  ultimately show ?thesis by simp
qed

lemma words_val_bytes: "length p = 4 * n \<Longrightarrow> words_val (bytes_words n p) = be_val p \<and> words_ok (bytes_words n p)"
proof (induction n arbitrary: p)
  case 0
  then show ?case by (simp add: bytes_words_def words_ok_def)
next
  case (Suc n)
  define f r where "f = take 4 p" and "r = drop 4 p"
  have p: "p = f @ r" "length f = 4" "length r = 4 * n" using Suc.prems by (simp_all add: f_def r_def)
  have "drop ((n - i) * 4) p = drop ((n - 1 - i) * 4) r" if "i < n" for i
  proof -
    have "(n - i) * 4 = 4 + (n - 1 - i) * 4" using that by simp
    then show ?thesis by (simp add: r_def drop_drop add.commute)
  qed
  then have b: "bytes_words (Suc n) p = bytes_words n r @ [uint (be_word p)]" by (simp add: bytes_words_def)
  have "radix n = 256 ^ (4 * n)" "length (bytes_words n r) = n" by (simp_all add: radix_def power_mult bytes_words_def)
  moreover have "be_val p = be_val f * 256 ^ (4 * n) + be_val r" "uint (be_word p) = be_val f"
    using p be_val_append [of f r] uint_be_word [OF p(2), of r] by simp_all
  ultimately have "words_val (bytes_words (Suc n) p) = be_val p"
    using Suc.IH [OF p(3)] by (simp add: b words_val_snoc mult.commute)
  then show ?case using Suc.IH [OF p(3)] uint_bounds [of "be_word p"] by (auto simp: b words_ok_def)
qed

lemma div256: "x div 65536 = x div 256 div (256 :: int)" "x div 16777216 = x div 256 div 256 div (256 :: int)"
  using zdiv_zmult2_eq [of 256 x 256] zdiv_zmult2_eq [of 256 "x div 256" 256] zdiv_zmult2_eq [of 65536 x 256] by simp_all

lemma be_val_word_be: "be_val (word_be w) = uint w"
proof -
  define x where "x = uint w"
  have x: "0 \<le> x" "x < 4294967296" using uint_bounds [of w] by (simp_all add: x_def)
  have byte: "uint (ucast (drop_bit n w) :: 8 word) = x div 2 ^ n mod 256" for n
    using x by (simp add: unsigned_ucast_eq unsigned_drop_bit_eq drop_bit_eq_div [of n x] take_bit_eq_mod x_def [symmetric])
  have "be_val (word_be w) = ((x div 16777216 mod 256 * 256 + x div 65536 mod 256) * 256 + x div 256 mod 256) * 256 + x mod 256"
  proof -
    have b: "be_val [p, q, r, t] = ((uint p * 256 + uint q) * 256 + uint r) * 256 + uint t" for p q r t by (simp add: be_val_def)
    have "(2 :: int) ^ 24 = 16777216" "(2 :: int) ^ 16 = 65536" "(2 :: int) ^ 8 = 256" "uint (ucast w :: 8 word) = x mod 256"
      using byte [of 0] by simp_all
    then show ?thesis unfolding word_be_def b byte by (simp only:)
  qed
  also have "\<dots> = x"
  proof -
    have "x div 256 div 256 div 256 < 256" "0 \<le> x div 256 div 256 div 256" unfolding div256 [symmetric] using x by simp_all
    then have "x div 256 div 256 div 256 mod 256 = x div 256 div 256 div 256" by (rule mod_pos_pos_trivial [rotated])
    then show ?thesis unfolding div256 by (simp only: div_mult_mod_eq)
  qed
  finally show ?thesis by (simp add: x_def)
qed

lemma be_val_words_bytes: "words_ok ws \<Longrightarrow> n \<le> length ws \<Longrightarrow> be_val (words_bytes n ws) = words_val (take n ws)"
proof (induction n)
  case (Suc n)
  have w: "0 \<le> ws ! n" "ws ! n < 4294967296" using Suc.prems words_ok_nth by auto
  then have "uint (word_of_int (ws ! n) :: 32 word) = ws ! n" by (simp add: uint_word_of_int)
  moreover have "length (words_bytes n ws) = 4 * n" unfolding words_bytes_def by (induction n) simp_all
  moreover have "radix n = 256 ^ (4 * n)" by (simp add: radix_def power_mult)
  ultimately show ?case using Suc by (simp add: words_bytes_def be_val_append be_val_word_be words_val_take_Suc mult.commute)
qed (simp add: words_bytes_def)

lemma length_words_bytes: "length (words_bytes n ws) = 4 * n"
  unfolding words_bytes_def by (induction n) simp_all

text \<open>
  The last step of \<open>modpow\<close>: one subtraction is enough when the number is below twice the modulus.
\<close>

lemma final_reduce:
  assumes key: "key_ok key" and c: "fits key c" and b: "words_val c < 2 * modulus key"
  shows "fits key (if geM key c then subM key c else c)" "words_val (if geM key c then subM key c else c) = words_val c mod modulus key"
proof -
  let ?N = "modulus key" and ?v = "words_val c"
  have v: "0 \<le> ?v" "?v < radix (nat (rsa_len key))" using fits_val [OF c] by simp_all
  show "fits key (if geM key c then subM key c else c)" using c subM_eq(1) [OF key c] by simp
  show "words_val (if geM key c then subM key c else c) = ?v mod ?N"
  proof (cases "?N \<le> ?v")
    case True
    have "(?v - ?N) mod ?N = ?v - ?N" using True b by (intro mod_pos_pos_trivial) simp_all
    then have "?v mod ?N = ?v - ?N" by (metis minus_mod_self2)
    then show ?thesis using True v b modulus_pos [OF key] geM_eq [OF key c] subM_eq(2) [OF key c] by simp
  next
    case False
    then show ?thesis using v geM_eq [OF key c] by simp
  qed
qed

definition locals_ok :: "RSAPublicKey \<Rightarrow> locals \<Rightarrow> bool" where
  "locals_ok key = (\<lambda>(a0, aR0, aaR0). length a0 = nat (rsa_len key) \<and> length aR0 = nat (rsa_len key) \<and> length aaR0 = nat (rsa_len key))"

text \<open>\<open>modpow\<close> computes the power, for a number below the modulus or a modulus with its highest bit set.\<close>

lemma modpow_eq:
  assumes key: "key_ok key" and ws: "locals_ok key ws" and p: "length p = 4 * nat (rsa_len key)"
    and e: "exponent key = 3 \<or> exponent key = 65537"
    and x: "be_val p < modulus key \<or> radix (nat (rsa_len key)) \<le> 2 * modulus key"
  shows "modpow key ws p = Inr (i2osp (length p) (be_val p ^ nat (exponent key) mod modulus key))"
proof -
  let ?L = "nat (rsa_len key)" and ?N = "modulus key"
  obtain a0 aR0 aaR0 where w: "ws = (a0, aR0, aaR0)" "length a0 = ?L" "length aR0 = ?L" "length aaR0 = ?L"
    using ws by (cases ws) (auto simp: locals_ok_def)
  define a where "a = bytes_words ?L p"
  have a: "fits key a" "words_val a = be_val p"
    using words_val_bytes [OF p] by (simp_all add: a_def fits_def bytes_words_def)
  define aR where "aR = montMul key aR0 a (rsa_rr key)"
  have aR: "mont_form key (be_val p) aR" using mont_form_enter [OF key a(1) w(3)] by (simp add: aR_def a(2))
  obtain c aaa where c: "mont_form key (be_val p ^ (nat (exponent key) - 1)) c" "length aaa = ?L"
    and m: "modpow key ws p = Inr (words_bytes ?L (if geM key (montMul key aaa c a) then subM key (montMul key aaa c a) else montMul key aaa c a))"
  proof (cases "exponent key = 3")
    case True
    define aaR where "aaR = montMul key aaR0 aR aR"
    have "mont_form key (be_val p ^ 2) aaR" using mont_form_mult [OF key aR aR w(4)] by (simp add: aaR_def power2_eq_square)
    moreover have "length aR = ?L" using aR by (simp add: mont_form_def fits_def)
    ultimately show ?thesis
      using True w p by (intro that [of aaR aR]) (simp_all add: modpow_def Let_def a_def aR_def aaR_def)
  next
    case False
    then have e2: "exponent key = 65537" using e by simp
    obtain aR' aaR' where s: "fold (mont_squares key) [0..<8] (aR, aaR0) = (aR', aaR')" "mont_form key (be_val p ^ (4 ^ 8)) aR'" "length aaR' = ?L"
      using mont_squares_eq [OF key aR w(4), of 8] by blast
    show ?thesis
      using s e2 w p by (intro that [of aR' aaR']) (simp_all add: modpow_def Let_def a_def [symmetric] aR_def [symmetric] del: upt_rec_numeral)
  qed
  let ?m = "montMul key aaa c a"
  note f = mont_form_plain [OF key c(1) a(1) c(2)]
  have "nat (exponent key) = Suc (nat (exponent key) - 1)" using e by auto
  then have pow: "words_val ?m mod ?N = be_val p ^ nat (exponent key) mod ?N" using f(3) a(2) by (metis mult.commute power_Suc)
  have "words_val ?m < 2 * ?N" using x f(1,2) a(2) fits_val [of key ?m] by auto
  note r = final_reduce [OF key f(1) this]
  let ?out = "words_bytes ?L (if geM key ?m then subM key ?m else ?m)"
  have "be_val ?out = be_val p ^ nat (exponent key) mod ?N"
    using be_val_words_bytes [of "if geM key ?m then subM key ?m else ?m" ?L] r pow by (simp add: fits_def)
  then have "?out = i2osp (length p) (be_val p ^ nat (exponent key) mod ?N)"
    using i2osp_be_val [of ?out] length_words_bytes [of ?L] p by simp
  then show ?thesis using m by simp
qed

section \<open>Verification\<close>

text \<open>The encoded message a valid signature has for a digest (RFC 8017), and the hash that goes with the length of a digest.\<close>

definition pkcs1_prefix :: "nat \<Rightarrow> 8 word list" where
  "pkcs1_prefix hash_len = (if hash_len = SHA_DIGEST_SIZE then pkcs1_sha1 else pkcs1_sha256)"

definition digest_of :: "nat \<Rightarrow> 8 word list \<Rightarrow> 8 word list" where
  "digest_of hash_len = (if hash_len = SHA_DIGEST_SIZE then sha1 else sha256)"

definition recovered :: "RSAPublicKey \<Rightarrow> 8 word list \<Rightarrow> 8 word list" where
  "recovered key signature = i2osp RSANUMBYTES (be_val signature ^ nat (exponent key) mod modulus key)"

definition verify_ok :: "HASH_CTX \<Rightarrow> locals \<Rightarrow> RSAPublicKey \<Rightarrow> 8 word list \<Rightarrow> 8 word list \<Rightarrow> bool" where
  "verify_ok ctx ws key signature hash \<longleftrightarrow> ctx_ok ctx \<and> locals_ok key ws \<and> key_ok key \<and> rsa_len key = 64
     \<and> (exponent key = 3 \<or> exponent key = 65537) \<and> length signature = 256
     \<and> (be_val signature < modulus key \<or> radix 64 \<le> 2 * modulus key) \<and> (length hash = 20 \<or> length hash = 32)"

lemma modpow_total: "exponent key = 3 \<or> exponent key = 65537 \<Longrightarrow> \<exists>em. modpow key ws p = Inr em"
  by (cases ws) (auto simp: modpow_def Let_def case_prod_unfold simp del: upt_rec_numeral)

lemma length_i2osp [simp]: "length (i2osp n x) = n"
  by (simp add: i2osp_def)

lemma pkcs1_lengths: "length pkcs1_sha1 = 236" "length pkcs1_sha256 = 224"
  by (simp_all add: pkcs1_sha1_def pkcs1_sha256_def sha1_info_def sha256_info_def)

lemma xor_zero: "a XOR b = 0 \<Longrightarrow> a = (b :: 8 word)"
proof -
  assume "a XOR b = 0"
  then have "(a XOR b) XOR b = b" by simp
  then show "a = b" by (simp add: xor.assoc)
qed

lemma map2_xor_self: "map2 (XOR) h h = replicate (length h) (0 :: 8 word)"
  by (induction h) simp_all

lemma xor_tail_self: "xor_tail (p @ h) h = p @ replicate (length h) 0"
  by (simp add: xor_tail_def map2_xor_self)

lemma length_digests: "length (sha1 m) = 20" "length (sha256 m) = 32"
proof -
  have "length (foldl sha1_block H bs) = 5" if "length H = 5" for H bs
    using that by (induction bs rule: rev_induct) (simp_all add: sha1_block_def split: prod.split)
  then show "length (sha1 m) = 20" by (simp add: sha1_def)
  have "length (foldl sha256_block H bs) = 8" if "length H = 8" for H bs
    using that by (induction bs rule: rev_induct) (simp_all add: sha256_block_def split: prod.split)
  then show "length (sha256 m) = 32" by (simp add: sha256_def)
qed

lemma expected_padding:
  "kExpectedPadShaRsa2048 = sha1 (pkcs1_sha1 @ replicate 20 0)" "kExpectedPadSha256Rsa2048 = sha256 (pkcs1_sha256 @ replicate 32 0)"
  by (simp_all only: kExpectedPadShaRsa2048_def sha1_padding kExpectedPadSha256Rsa2048_def sha256_padding)

lemma RSA_verify_eq:
  assumes "verify_ok ctx ws key signature hash"
  shows "RSA_verify ctx ws key signature 256 hash (int (length hash)) =
    Inr (if digest_of (length hash) (xor_tail (recovered key signature) hash)
            = digest_of (length hash) (pkcs1_prefix (length hash) @ replicate (length hash) 0) then 1 else 0)"
proof -
  have a: "ctx_ok ctx" "locals_ok key ws" "key_ok key" "rsa_len key = 64" "exponent key = 3 \<or> exponent key = 65537" "length signature = 256"
    "be_val signature < modulus key \<or> radix (nat (rsa_len key)) \<le> 2 * modulus key" "length hash = 20 \<or> length hash = 32"
    using assms by (auto simp: verify_ok_def)
  have m: "modpow key ws signature = Inr (recovered key signature)"
    using modpow_eq [OF a(3,2) _ a(5,7)] a(4,6) by (simp add: recovered_def RSANUMBYTES_def)
  show ?thesis
    using a(8)
  proof
    assume "length hash = 20"
    then show ?thesis using a m
      by (auto simp: RSA_verify_def RSANUMWORDS_def RSANUMBYTES_def SHA_DIGEST_SIZE_def SHA256_DIGEST_SIZE_def SHA_hash_eq
        digest_of_def pkcs1_prefix_def list_all2_eq [symmetric] length_digests expected_padding)
  next
    assume "length hash = 32"
    then show ?thesis using a m
      by (auto simp: RSA_verify_def RSANUMWORDS_def RSANUMBYTES_def SHA_DIGEST_SIZE_def SHA256_DIGEST_SIZE_def SHA256_hash_eq
        digest_of_def pkcs1_prefix_def list_all2_eq [symmetric] length_digests expected_padding)
  qed
qed

section \<open>Properties\<close>

text \<open>
  C9: \<open>RSA_verify\<close> verifies. For a 2048-bit key as \<open>rsa.h\<close> describes it, it returns 1 for every signature whose
  power modulo the modulus is the PKCS1 encoding of the expected hash; and whenever it returns 1, the power
  is that encoding, or the power with the hash taken out and the bare padding are two different messages
  with the same SHA-1 (SHA-256) digest.
\<close>

theorem RSA_verify_correct:
  assumes "verify_ok ctx ws key signature hash"
  shows "(recovered key signature = pkcs1_prefix (length hash) @ hash \<longrightarrow> RSA_verify ctx ws key signature 256 hash (int (length hash)) = Inr 1)
    \<and> (RSA_verify ctx ws key signature 256 hash (int (length hash)) = Inr 1 \<longrightarrow>
        recovered key signature = pkcs1_prefix (length hash) @ hash
        \<or> (xor_tail (recovered key signature) hash \<noteq> pkcs1_prefix (length hash) @ replicate (length hash) 0
           \<and> digest_of (length hash) (xor_tail (recovered key signature) hash)
             = digest_of (length hash) (pkcs1_prefix (length hash) @ replicate (length hash) 0)))"
proof -
  let ?em = "recovered key signature" and ?z = "pkcs1_prefix (length hash) @ replicate (length hash) (0 :: 8 word)"
  have h: "length hash = 20 \<or> length hash = 32" using assms by (simp add: verify_ok_def)
  have len: "length ?em = 256" "length ?z = 256" "length (pkcs1_prefix (length hash)) + length hash = 256"
    using h by (auto simp: recovered_def RSANUMBYTES_def pkcs1_prefix_def pkcs1_lengths SHA_DIGEST_SIZE_def)
  have inj: "?em = pkcs1_prefix (length hash) @ hash" if "xor_tail ?em hash = ?z"
  proof -
    let ?k = "256 - length hash"
    have "length (take ?k ?em) = length (pkcs1_prefix (length hash))" using len h by auto
    then have t: "take ?k ?em = pkcs1_prefix (length hash)" "map2 (XOR) (drop ?k ?em) hash = replicate (length hash) 0"
      using that len by (simp_all add: xor_tail_def)
    have "drop ?k ?em = hash"
    proof (rule nth_equalityI)
      show l: "length (drop ?k ?em) = length hash" using len h by auto
      fix i assume "i < length (drop ?k ?em)"
      then have "drop ?k ?em ! i XOR hash ! i = 0" using arg_cong [OF t(2), of "\<lambda>xs. xs ! i"] l by simp
      then show "drop ?k ?em ! i = hash ! i" by (rule xor_zero)
    qed
    then show ?thesis using t(1) by (metis append_take_drop_id)
  qed
  have one: "(Inr (if C then 1 else 0) = (Inr 1 :: int res)) = C" for C by simp
  show ?thesis
    unfolding RSA_verify_eq [OF assms] one
  proof (intro conjI impI)
    assume "?em = pkcs1_prefix (length hash) @ hash"
    then have "xor_tail ?em hash = ?z" by (simp only: xor_tail_self)
    then show "digest_of (length hash) (xor_tail ?em hash) = digest_of (length hash) ?z" by (simp only:)
  qed (use inj in blast)
qed

text \<open>
  A key and a signature: the modulus is the difference of the cube of the signature and the encoding of a
  hash of zeros.
\<close>

definition ex_key :: RSAPublicKey where
  "ex_key = \<lparr>rsa_len = 64, n0inv = 0xffffffff,
   rsa_n = [
     0x00000001, 0x00000000, 0x00000000, 0x00000000, 0x00000000, 0x00000000, 0x00000000, 0x00000000,
     0xfafffbe0, 0xfcfbfdfe, 0x79b7fe9a, 0xf2f9f69f, 0xffcfcecf, 0x00000000, 0x00000000, 0x00000000,
     0x00000000, 0x00000000, 0x00000000, 0x00000000, 0x00000000, 0x00000c00, 0x00000000, 0x00000000,
     0x00000000, 0x00000000, 0x00000000, 0x00000000, 0x00000000, 0x00000000, 0x00000000, 0x00000000,
     0x00000000, 0x00000000, 0x00000000, 0x00000000, 0x00000000, 0x00000000, 0x00000000, 0x00000000,
     0x00000000, 0x00000000, 0x00300000, 0x00000000, 0x00000000, 0x00000000, 0x00000000, 0x00000000,
     0x00000000, 0x00000000, 0x00000000, 0x00000000, 0x00000000, 0x00000000, 0x00000000, 0x00000000,
     0x00000000, 0x00000000, 0x00000000, 0x00000000, 0x00000000, 0x00000000, 0x00000000, 0x3ffe0000],
   rsa_rr = [
     0xbb1893ba, 0x1bfc0be9, 0x86430ecd, 0xbed05435, 0x6a9bde5e, 0x8448e8ed, 0x0d471d65, 0x07d1e25c,
     0x1b135b19, 0xe7005ceb, 0xc528bd3e, 0x681d37c1, 0x10b7b56b, 0xa391a0f4, 0x6d7beb91, 0x3de402d5,
     0xedc691ca, 0x7a335073, 0xfb80581e, 0xdb8d456d, 0x05794211, 0x134829ed, 0x1f77e101, 0x2e5935c1,
     0x7311b957, 0x0d71d41d, 0x02a69474, 0x00b18413, 0xc590d793, 0xc2b7697b, 0x1fb78df5, 0x9c1c25ff,
     0xe02008bf, 0x8514554a, 0x350c20c6, 0xe587998a, 0x31087ffa, 0xf1a3e9d6, 0x472936bf, 0xcdce2c17,
     0x06f84ebf, 0xab62ded3, 0x0f074756, 0xa7c98b28, 0x790e4065, 0xc5673534, 0xcf838dc4, 0xea22458e,
     0x2fa3e3f1, 0x7a437c23, 0x2c1eb59f, 0xac334fc5, 0xf6696fcb, 0xe63bcea2, 0x5fbe4790, 0xdaede490,
     0x2652e29d, 0x25a53aaa, 0x06840471, 0x2dc1aacf, 0xf47024aa, 0xf6406f08, 0x9f07bb9d, 0x26246dd2],
   exponent = 3\<rparr>"

definition ex_root :: int where
  "ex_root = 2 ^ 682 + 1"

definition ex_locals :: locals where
  "ex_locals = (replicate 64 0, replicate 64 7, replicate 64 9)"

lemma be_val_i2osp: "0 \<le> x \<Longrightarrow> x < 256 ^ n \<Longrightarrow> be_val (i2osp n x) = x"
proof (induction n arbitrary: x)
  case 0
  then show ?case by (simp add: i2osp_def)
next
  case (Suc n)
  have "0 \<le> x div 256" "x div 256 < 256 ^ n" using Suc.prems by simp_all
  moreover have "uint (word_of_int x :: 8 word) = x mod 256" by (simp add: uint_word_of_int_eq take_bit_eq_mod)
  ultimately show ?case using Suc.IH [of "x div 256"] by (simp add: i2osp_Suc)
qed

lemma be_val_ff: "be_val (replicate n 0xff) = 256 ^ n - 1"
  by (induction n) (simp_all add: replicate_append_same [symmetric])

lemma be_val_zeros: "be_val (replicate n 0) = 0"
  by (induction n) (simp_all add: replicate_append_same [symmetric])

lemma ex_encoding: "be_val (pkcs1_sha256 @ replicate 32 0) = 2 ^ 2033 - 2 ^ 416 + 0x3031300d060960864801650304020105000420 * 2 ^ 256"
  unfolding pkcs1_sha256_def sha256_info_def be_val_append be_val_ff be_val_zeros by (simp add: be_val_def)

lemma ex_modulus: "modulus ex_key = 2 ^ 2046 + 3 * 2 ^ 1364 + 3 * 2 ^ 682 + 1 - (2 ^ 2033 - 2 ^ 416 + 0x3031300d060960864801650304020105000420 * 2 ^ 256)"
  by (simp add: modulus_def ex_key_def)

lemma ex_distrib: "q * (a + b + c + d - (e - f + g)) = q * a + q * b + q * c + q * d - q * e + q * f - q * (g :: int)"
  by (simp add: algebra_simps)

lemma ex_square: "(2 :: int) ^ 4096 = 0x26246dd29f07bb9df6406f08f47024aa2dc1aacf0684047125a53aaa2652e29ddaede4905fbe4790e63bcea2f6696fcbac334fc52c1eb59f7a437c232fa3e3f1ea22458ecf838dc4c5673534790e4065a7c98b280f074756ab62ded306f84ebfcdce2c17472936bff1a3e9d631087ffae587998a350c20c68514554ae02008bf9c1c25ff1fb78df5c2b7697bc590d79300b1841302a694740d71d41d7311b9572e5935c11f77e101134829ed05794211db8d456dfb80581e7a335073edc691ca3de402d56d7beb91a391a0f410b7b56b681d37c1c528bd3ee7005ceb1b135b1907d1e25c0d471d658448e8ed6a9bde5ebed0543586430ecd1bfc0be9bb1893ba
    + 0x40020010008004002001000800400200100080040020010008004002001000800400200100080040020010008004002001000800400200100080040020010008004002001000800400200100080040020010008003d01d00dc06803101700ac050025011007c03801900b004c02000d005001c008000ffeffebfefff4ff8ffbbfd7fe8ff2ff8bfbffdcfecff5bfa7fd0fe6ff2bf8ffc4fe0fefbf77fb8fdafecbf5ffacfd4fe9bf47fa114f286ec32696dca544a62158ee46a02f014c892c40c1ca0cb85b4298134092847c144331414c1b120622922c3092af7efc547d8b45a6f82e1da3f2b8e29a7bb71712956421a1412fabca79bcf132e403f41644e76c46 * modulus ex_key"
  unfolding ex_modulus ex_distrib by simp

lemma ex_key_ok: "key_ok ex_key"
proof -
  have "words_val (rsa_rr ex_key) = 0x26246dd29f07bb9df6406f08f47024aa2dc1aacf0684047125a53aaa2652e29ddaede4905fbe4790e63bcea2f6696fcbac334fc52c1eb59f7a437c232fa3e3f1ea22458ecf838dc4c5673534790e4065a7c98b280f074756ab62ded306f84ebfcdce2c17472936bff1a3e9d631087ffae587998a350c20c68514554ae02008bf9c1c25ff1fb78df5c2b7697bc590d79300b1841302a694740d71d41d7311b9572e5935c11f77e101134829ed05794211db8d456dfb80581e7a335073edc691ca3de402d56d7beb91a391a0f410b7b56b681d37c1c528bd3ee7005ceb1b135b1907d1e25c0d471d658448e8ed6a9bde5ebed0543586430ecd1bfc0be9bb1893ba" by (simp add: ex_key_def)
  moreover have "radix 64 ^ 2 = 2 ^ 4096" unfolding radix_def by simp
  ultimately have "words_val (rsa_rr ex_key) mod modulus ex_key = radix 64 ^ 2 mod modulus ex_key" using ex_square by (metis mod_mult_self1)
  moreover have "rsa_len ex_key = 64" "length (rsa_n ex_key) = 64" "length (rsa_rr ex_key) = 64"
    "(n0inv ex_key * rsa_n ex_key ! 0 + 1) mod 4294967296 = 0" "words_ok (rsa_n ex_key)" "words_ok (rsa_rr ex_key)"
    by (simp_all add: ex_key_def words_ok_def)
  ultimately show ?thesis by (simp add: key_ok_def)
qed

lemma ex_signature: "be_val (i2osp 256 ex_root) = ex_root" "recovered ex_key (i2osp 256 ex_root) = pkcs1_sha256 @ replicate 32 0"
proof -
  show r: "be_val (i2osp 256 ex_root) = ex_root" by (rule be_val_i2osp) (simp_all add: ex_root_def)
  have "ex_root ^ 3 = be_val (pkcs1_sha256 @ replicate 32 0) + 1 * modulus ex_key" unfolding ex_encoding ex_modulus ex_root_def by simp
  then have "ex_root ^ 3 mod modulus ex_key = be_val (pkcs1_sha256 @ replicate 32 0) mod modulus ex_key" by (metis mod_mult_self1)
  also have "\<dots> = be_val (pkcs1_sha256 @ replicate 32 0)" unfolding ex_encoding ex_modulus by (rule mod_pos_pos_trivial) simp_all
  finally show "recovered ex_key (i2osp 256 ex_root) = pkcs1_sha256 @ replicate 32 0"
    using i2osp_be_val [of "pkcs1_sha256 @ replicate 32 0"] r by (simp add: recovered_def RSANUMBYTES_def pkcs1_lengths) (simp add: ex_key_def)
qed

theorem RSA_verify_correct_witness: "RSA_verify ex_ctx ex_locals ex_key (i2osp 256 ex_root) 256 (replicate 32 0) 32 = Inr 1"
proof -
  have "rsa_len ex_key = 64" "exponent ex_key = 3" by (simp_all add: ex_key_def)
  moreover have "locals_ok ex_key ex_locals" by (simp add: locals_ok_def ex_locals_def ex_key_def)
  moreover have "ex_root < modulus ex_key" unfolding ex_modulus ex_root_def by simp
  ultimately have "verify_ok ex_ctx ex_locals ex_key (i2osp 256 ex_root) (replicate 32 0)"
    using ex_key_ok ex_signature(1) by (simp add: verify_ok_def ex_ctx_def ctx_ok_def)
  from RSA_verify_correct [OF this] show ?thesis using ex_signature(2) by (simp add: pkcs1_prefix_def SHA_DIGEST_SIZE_def)
qed

text \<open>
  C11: whatever it is given, \<open>RSA_verify\<close> returns 0 or 1 and dereferences no null pointer; with a key of another
  size, a signature or a hash of another length or an exponent it does not know it returns 0.
\<close>

theorem RSA_verify_total:
  "(RSA_verify ctx ws key signature len hash hash_len = Inr 0 \<or> RSA_verify ctx ws key signature len hash hash_len = Inr 1)
    \<and> (rsa_len key \<noteq> 64 \<or> len \<noteq> 256 \<or> (hash_len \<noteq> 20 \<and> hash_len \<noteq> 32) \<or> (exponent key \<noteq> 3 \<and> exponent key \<noteq> 65537) \<longrightarrow>
        RSA_verify ctx ws key signature len hash hash_len = Inr 0)"
proof -
  let ?sizes = "rsa_len key = 64 \<and> len = 256 \<and> (hash_len = 20 \<or> hash_len = 32) \<and> (exponent key = 3 \<or> exponent key = 65537)"
  note d = RSA_verify_def RSANUMWORDS_def RSANUMBYTES_def SHA_DIGEST_SIZE_def SHA256_DIGEST_SIZE_def
  show ?thesis
  proof (cases ?sizes)
    case True
    then obtain em where "modpow key ws (take (nat len) signature) = Inr em" using modpow_total by blast
    with True show ?thesis by (simp add: d Let_def split: prod.split)
  next
    case False
    then have "RSA_verify ctx ws key signature len hash hash_len = Inr 0" by (auto simp: d)
    then show ?thesis by simp
  qed
qed

theorem RSA_verify_total_witness: "RSA_verify ex_ctx ex_locals ex_key [] 255 [] 20 = Inr 0"
  using RSA_verify_total [of ex_ctx ex_locals ex_key "[]" 255 "[]" 20] by simp

end
