(* ===== verification/Spec2Isabelle.thy ===== *)
theory Spec2Isabelle
  imports Android_Prelude Platform Sparse_Crc32 Backed_Block Sparse_Format Output_File Sparse_File Sparse_Write
    Sparse_Read Sparse_Roundtrip Sparse_Resparse Heap_Ownership Hashmap Hashmap_Correct Hashmap_Reach Str_Parms Str_Parms_Correct
    Record_Stream Unicode Unicode_Correct Unicode_Strings Jstring Jstring_Correct Mincrypt_Hash Mincrypt_Sha Mincrypt_Sha_Correct Mincrypt_Padding Mincrypt_Rsa Mincrypt_Rsa_Correct
begin

text \<open>
  A verification development for the libraries of the Android platform tools: \<open>libsparse\<close>, the containers and string
  functions of \<open>libcutils\<close> and \<open>libutils\<close>, and the signature check of \<open>libmincrypt\<close>. Paths below are under \<open>src/\<close>.

  \<^bold>\<open>The program.\<close> The sources hold the host and device tools of the platform. The libraries modelled here are the ones
  the tools share. \<open>libsparse\<close> keeps an image of a partition as a sorted list of backed blocks (data, a region of a file or a
  descriptor, a fill word); writes it as a plain image or in the sparse format, through a descriptor, zlib or a callback;
  reads both formats back; and cuts an image into pieces that a device can receive. \<open>libcutils\<close> has a chained hash map; the
  string parameters of the audio interface, which store their pairs in that map; the framing of records on a stream
  descriptor; and the strings of the Java native interface. \<open>libutils\<close> converts between the Unicode encodings.
  \<open>libmincrypt\<close> verifies RSA signatures of boot images with its own SHA-1 and SHA-256.

  \<^bold>\<open>Conventions.\<close> C integers are \<open>int\<close> with the wrap of their width written out (\<open>u32\<close>, \<open>i32\<close>, \<open>u64\<close>, \<open>i64\<close>), or words where
  the code works on bits. A result \<open>'a res\<close> is a fault (\<open>Inl\<close>: a failed assertion, a null or dangling pointer, a division by
  zero, an access out of bounds) or a value; error codes of the sources are values. Allocations can fail: \<open>mem\<close> numbers the
  blocks and says which calls of \<open>malloc\<close> return \<open>NULL\<close>, \<open>heap\<close> adds what was freed. Descriptors have a schedule of short
  reads, interrupted calls and errors. Code outside of the sources (zlib, callbacks of the clients) is an argument of
  the definitions that call it.

  \<^bold>\<open>Prelude.\<close>
  \<^item> \<open>Android_Prelude\<close>: results, \<open>errno\<close> values, wrapping arithmetic, the rounding macros of \<open>libsparse/sparse_defs.h\<close>.
  \<^item> \<open>Platform\<close>: bytes, input and output files with their schedules, \<open>read_all\<close> of \<open>output_file.c\<close>, the allocator.
  \<^item> \<open>Heap_Ownership\<close>: which blocks a data structure owns; \<open>grows\<close> composes steps that neither leak nor free twice.

  \<^bold>\<open>libsparse.\<close>
  \<^item> \<open>Sparse_Crc32\<close> (\<open>sparse_crc32.c\<close>): the table and the loop; equal to the bitwise shift register.
  \<^item> \<open>Backed_Block\<close> (\<open>backed_block.c\<close>): the list with addresses, the search hint \<open>last_used\<close> and every merge, split and move.
    The invariant \<open>bbl_wf\<close> (sorted, disjoint, block-aligned) is kept and the view of the image changes exactly as it should;
    the inputs on which the code keeps a dangling hint or frees a name twice are characterised.
  \<^item> \<open>Sparse_Format\<close> (\<open>sparse_format.h\<close>): the headers and their encoding.
  \<^item> \<open>Output_File\<close> (\<open>output_file.c\<close>): the sinks and both chunk formats. The locales \<open>byte_writer\<close> and \<open>byte_sink\<close> state what a
    sink promises; descriptors and the counting callback are instances.
  \<^item> \<open>Sparse_File\<close> (\<open>sparse.c\<close>): adding blocks, counting chunks, writing, measuring, cutting.
  \<^item> \<open>Sparse_Write\<close>: what \<open>sparse_file_write\<close> produces, for both formats, with the value of the checksum, once for all chunk
    writers (locale \<open>chunk_writer\<close>).
  \<^item> \<open>Sparse_Read\<close> (\<open>sparse_read.c\<close>) and \<open>Sparse_Roundtrip\<close>: importing; importing what was written without a checksum gives the
    image back when no two neighbouring fills could be one (\<open>fills_merged\<close>), and uses freed memory when two such fills have a
    block behind them.
  \<^item> \<open>Sparse_Resparse\<close>: \<open>sparse_file_resparse\<close> ends, and the pieces are small enough and together hold the image.

  \<^bold>\<open>libcutils.\<close>
  \<^item> \<open>Hashmap\<close> (\<open>hashmap.c\<close>), \<open>Hashmap_Correct\<close>: every operation with addresses and failures; the map refines a function from
    keys to values. The locale \<open>dictionary\<close> is the interface its clients rely on, \<open>walker\<close> the contract of a callback that
    \<open>hashmapForEach\<close> may be given, also one that removes the entry it visits. \<open>Hashmap_Reach\<close>: every reachable state is
    well-formed.
  \<^item> \<open>Str_Parms\<close> (\<open>str_parms.c\<close>), \<open>Str_Parms_Correct\<close>: parsing, printing and the ownership of keys and values.
  \<^item> \<open>Record_Stream\<close> (\<open>record_stream.c\<close>): delivery of every record however reads split.
  \<^item> \<open>Jstring\<close> (\<open>strdup16to8.c\<close>, \<open>strdup8to16.c\<close>), \<open>Jstring_Correct\<close>: modified UTF-8.

  \<^bold>\<open>libutils.\<close>
  \<^item> \<open>Unicode\<close> (\<open>Unicode.cpp\<close>), \<open>Unicode_Correct\<close> (one character), \<open>Unicode_Strings\<close> (strings): the conversions against the
    encodings of the Unicode standard, for both signs of \<open>char\<close>.

  \<^bold>\<open>libmincrypt.\<close>
  \<^item> \<open>Mincrypt_Hash\<close>, \<open>Mincrypt_Sha\<close> (\<open>sha.c\<close>, \<open>sha256.c\<close>), \<open>Mincrypt_Sha_Correct\<close>: streaming contexts against FIPS 180-4; the locale
    \<open>block_hash\<close> is shared by the two hashes.
  \<^item> \<open>Mincrypt_Rsa\<close> (\<open>rsa.c\<close>), \<open>Mincrypt_Padding\<close>, \<open>Mincrypt_Rsa_Correct\<close>: Montgomery arithmetic on words is arithmetic modulo
    the key, and \<open>RSA_verify\<close> accepts exactly the encodings of PKCS 1.5.

  \<^bold>\<open>Bounds and termination.\<close> No definition uses fuel. Loops over descriptors end because a schedule and a file are finite.
  Two loops of \<open>libsparse\<close> never end for a block size that is not positive and have the fault \<open>Diverges\<close> there;
  \<open>resparse_loop\<close> is a partial function, \<open>None\<close> where the code runs forever (a bound too small for one block), and its theorem
  gives the bound from which on it returns. A hash map has at most \<open>2^60\<close> entries, as the address space enforces; theorems
  state such bounds where they use them.

  \<^bold>\<open>Not modelled.\<close>
  \<^item> Daemons and tools that consist of system calls (\<open>adb\<close>, \<open>init\<close>, \<open>debuggerd\<close>, \<open>fs_mgr\<close>, \<open>logd\<close>, \<open>sdcard\<close>, \<open>toolbox\<close>,
    \<open>extras/\<close>): their behaviour is that of the kernel interfaces, drivers and threads they drive.
  \<^item> Locks and atomics: the model is sequential, so \<open>hashmapLock\<close> and \<open>hashmapUnlock\<close> have no counterpart.
  \<^item> Floating point parameters (\<open>str_parms_add_float\<close>, \<open>str_parms_get_float\<close>): the C library formats them.
  \<^item> Messages to \<open>stderr\<close> and the log; they do not influence results.
  \<^item> The elliptic curve code of \<open>libmincrypt\<close>, the graphics library, the zip reader and the ext4 tools: independent
    components that the parts above do not use.
\<close>

end
